(* ===== verification/Prelude.thy ===== *)
theory Prelude
  imports Main "HOL-Library.Word"
begin

text \<open>
  Types, constants and generic lemmas shared by every component of the model.

  Conventions used throughout the development:
  \<^item> a Rust \<^verbatim>\<open>u8\<close> is an \<^typ>\<open>8 word\<close>, a \<^verbatim>\<open>Vec<u8>\<close>, \<^verbatim>\<open>[u8; N]\<close> or UTF-8 \<^verbatim>\<open>String\<close> is
    a list of them (the array length is a hypothesis where a proof needs it);
  \<^item> a \<^verbatim>\<open>u32\<close>, \<^verbatim>\<open>u64\<close> or \<^verbatim>\<open>usize\<close> counter is a \<^typ>\<open>nat\<close>; additions that can leave the
    64-bit range are written with the wrap-around of a release build (\<open>u64_add\<close>), casts
    with their modulus;
  \<^item> a \<^verbatim>\<open>Result\<close> is a \<open>res\<close>, which also says whether the function panics or loops forever; a
    \<^verbatim>\<open>HashMap\<close> is a partial function.
\<close>

type_synonym byte = "8 word"
type_synonym bytes = "byte list"

named_theorems wire_simps \<open>encoders and decoders of the wire formats\<close>
named_theorems ledger_defs \<open>definitions of the ledger that proofs unfold together\<close>

subsection \<open>Machine integers\<close>

definition u64_max :: nat where
  "u64_max = 2 ^ 64 - 1"

text \<open>Addition on \<^verbatim>\<open>u64\<close> as a release build performs it.\<close>

definition u64_add :: "nat \<Rightarrow> nat \<Rightarrow> nat" where
  "u64_add a b = (a + b) mod 2 ^ 64"

text \<open>Subtraction on \<^verbatim>\<open>u64\<close> as a release build performs it (operands in range).\<close>

definition u64_sub :: "nat \<Rightarrow> nat \<Rightarrow> nat" where
  "u64_sub a b = (a + (2 ^ 64 - b)) mod 2 ^ 64"

text \<open>The cast \<^verbatim>\<open>x as i64\<close> of a \<^verbatim>\<open>u64\<close>: two's complement.\<close>

definition as_i64 :: "nat \<Rightarrow> int" where
  "as_i64 n = (if n mod 2 ^ 64 < 2 ^ 63 then int (n mod 2 ^ 64) else int (n mod 2 ^ 64) - 2 ^ 64)"

text \<open>Subtraction on \<^verbatim>\<open>i64\<close> as a release build performs it.\<close>

definition i64_sub :: "int \<Rightarrow> int \<Rightarrow> int" where
  "i64_sub a b = (a - b + 2 ^ 63) mod 2 ^ 64 - 2 ^ 63"

lemma i64_sub_range: "- (2 ^ 63) \<le> i64_sub a b \<and> i64_sub a b < 2 ^ 63"
proof -
  have "0 \<le> (a - b + 2 ^ 63) mod 2 ^ 64" and "(a - b + 2 ^ 63) mod 2 ^ 64 < 2 ^ 64" by simp_all
  then show ?thesis by (simp add: i64_sub_def)
qed

lemma u64_add_exact [simp]: "a + b < 2 ^ 64 \<Longrightarrow> u64_add a b = a + b"
  by (simp add: u64_add_def)

lemma u64_add_bound: "u64_add a b < 2 ^ 64"
  by (simp add: u64_add_def)

lemma u64_sub_exact: "b \<le> a \<Longrightarrow> a < 2 ^ 64 \<Longrightarrow> u64_sub a b = a - b"
proof -
  assume "b \<le> a" and "a < 2 ^ 64"
  then have "a + (2 ^ 64 - b) = (a - b) + 2 ^ 64" by simp
  then have "u64_sub a b = ((a - b) + 2 ^ 64) mod 2 ^ 64" by (simp only: u64_sub_def)
  then show ?thesis using \<open>a < 2 ^ 64\<close> by (simp only: mod_add_self2) simp
qed

lemma as_i64_small: "n < 2 ^ 63 \<Longrightarrow> as_i64 n = int n"
  by (simp add: as_i64_def)

subsection \<open>Byte strings\<close>

definition ascii :: "string \<Rightarrow> bytes" where
  "ascii s = map of_char s"

lemma length_ascii [simp]: "length (ascii s) = length s"
  by (simp add: ascii_def)

text \<open>\<^verbatim>\<open>to_le_bytes\<close> of an unsigned integer of \<open>k\<close> bytes, and its inverse.\<close>

primrec le_bytes :: "nat \<Rightarrow> nat \<Rightarrow> bytes" where
  "le_bytes 0 n = []"
| "le_bytes (Suc k) n = word_of_nat n # le_bytes k (n div 256)"

primrec of_le :: "bytes \<Rightarrow> nat" where
  "of_le [] = 0"
| "of_le (b # bs) = unat b + 256 * of_le bs"

definition be_bytes :: "nat \<Rightarrow> nat \<Rightarrow> bytes" where
  "be_bytes k n = rev (le_bytes k n)"

definition of_be :: "bytes \<Rightarrow> nat" where
  "of_be bs = of_le (rev bs)"

lemma le_bytes_numeral [simp]:
  "le_bytes (numeral k) n = word_of_nat n # le_bytes (pred_numeral k) (n div 256)"
  by (simp only: numeral_eq_Suc [of k] le_bytes.simps)

lemma length_le_bytes [simp]: "length (le_bytes k n) = k"
  by (induction k arbitrary: n) auto

lemma length_be_bytes [simp]: "length (be_bytes k n) = k"
  by (simp add: be_bytes_def)

lemma unat_byte: "unat (word_of_nat n :: byte) = n mod 256"
  by (simp add: unat_of_nat)

lemma of_le_le_bytes: "of_le (le_bytes k n) = n mod 256 ^ k"
proof (induction k arbitrary: n)
  case 0
  then show ?case by simp
next
  case (Suc k)
  have "of_le (le_bytes (Suc k) n) = n mod 256 + 256 * (n div 256 mod 256 ^ k)"
    by (simp add: unat_byte Suc)
  also have "\<dots> = n mod 256 ^ Suc k"
    using mod_mult2_eq [of n 256 "256 ^ k"] by simp
  finally show ?case .
qed

lemma le_bytes_inj:
  assumes "le_bytes k m = le_bytes k n" and "m < 256 ^ k" and "n < 256 ^ k"
  shows "m = n"
proof -
  have "of_le (le_bytes k m) = of_le (le_bytes k n)" using assms(1) by simp
  then show ?thesis using assms(2,3) by (simp add: of_le_le_bytes)
qed

lemma of_le_append: "of_le (xs @ ys) = of_le xs + 256 ^ length xs * of_le ys"
  by (induction xs) (auto simp: algebra_simps)

lemma of_be_Nil [simp]: "of_be [] = 0"
  by (simp add: of_be_def)

lemma of_be_Cons [simp]: "of_be (b # bs) = unat b * 256 ^ length bs + of_be bs"
  by (simp add: of_be_def of_le_append)

lemma of_be_append: "of_be (xs @ ys) = of_be xs * 256 ^ length ys + of_be ys"
  by (simp add: of_be_def of_le_append)

lemma of_be_replicate_0 [simp]: "of_be (replicate k 0) = 0"
  by (induction k) simp_all

lemma unat_byte_less: "unat (b :: byte) < 256"
  using unsigned_less [of b] by simp

lemma of_be_bound: "of_be bs < 256 ^ length bs"
proof (induction bs)
  case (Cons b bs)
  have "unat b * 256 ^ length bs + of_be bs < (unat b + 1) * 256 ^ length bs"
    using Cons by simp
  also have "\<dots> \<le> 256 * 256 ^ length bs"
    using unat_byte_less [of b] by (intro mult_right_mono) simp_all
  finally show ?case by simp
qed simp

lemma of_be_be_bytes: "of_be (be_bytes k n) = n mod 256 ^ k"
  by (simp add: of_be_def be_bytes_def of_le_le_bytes)

lemma digit_eq:
  fixes a b m n :: nat
  assumes "a + 256 * m = b + 256 * n" and "a < 256" and "b < 256"
  shows "a = b \<and> m = n"
proof -
  have "(a + 256 * m) mod 256 = a" and "(b + 256 * n) mod 256 = b" using assms(2,3) by simp_all
  with assms(1) have "a = b" by (simp only:)
  with assms(1) show ?thesis by simp
qed

lemma of_le_inj: "length xs = length ys \<Longrightarrow> of_le xs = of_le ys \<Longrightarrow> xs = ys"
proof (induction xs ys rule: list_induct2)
  case (Cons x xs y ys)
  have bounds: "unat x < 256" "unat y < 256" by (rule unat_byte_less)+
  have "unat x + 256 * of_le xs = unat y + 256 * of_le ys" using Cons.prems by simp
  from digit_eq [OF this bounds] have "unat x = unat y" and "of_le xs = of_le ys" by simp_all
  with Cons.IH have "xs = ys" by simp
  moreover have "x = y" using \<open>unat x = unat y\<close> by (simp only: word_unat_eq_iff)
  ultimately show ?case by simp
qed simp

lemma of_be_inj: "length xs = length ys \<Longrightarrow> of_be xs = of_be ys \<Longrightarrow> xs = ys"
  using of_le_inj [of "rev xs" "rev ys"] by (simp add: of_be_def)

subsection \<open>Results\<close>

text \<open>What a Rust function does: it returns \<^verbatim>\<open>Ok\<close>, it returns \<^verbatim>\<open>Err\<close>, it panics, or it never
  returns.\<close>

datatype ('e, 'a) res = Ok 'a | Err 'e | Panic | Diverge

text \<open>The \<^verbatim>\<open>?\<close> operator: anything but \<^verbatim>\<open>Ok\<close> ends the function.\<close>

fun bind_res :: "('e, 'a) res \<Rightarrow> ('a \<Rightarrow> ('e, 'b) res) \<Rightarrow> ('e, 'b) res" where
  "bind_res (Ok x) f = f x"
| "bind_res (Err e) f = Err e"
| "bind_res Panic f = Panic"
| "bind_res Diverge f = Diverge"

lemma bind_res_Ok: "bind_res r f = Ok y \<longleftrightarrow> (\<exists>x. r = Ok x \<and> f x = Ok y)"
  by (cases r) auto

lemma bind_res_Err: "bind_res r f = Err e \<longleftrightarrow> r = Err e \<or> (\<exists>x. r = Ok x \<and> f x = Err e)"
  by (cases r) auto

lemma bind_assoc: "bind_res (bind_res r f) g = bind_res r (\<lambda>x. bind_res (f x) g)"
  by (cases r) simp_all

lemma bind_res_cong [fundef_cong]:
  "r = r' \<Longrightarrow> (\<And>x. r' = Ok x \<Longrightarrow> f x = f' x) \<Longrightarrow> bind_res r f = bind_res r' f'"
  by (cases r') auto

text \<open>\<^verbatim>\<open>Option::ok_or\<close>, \<^verbatim>\<open>Option::expect\<close> and indexing (a panic when absent), and \<^verbatim>\<open>map_err\<close>.\<close>

fun ok_or :: "'e \<Rightarrow> 'a option \<Rightarrow> ('e, 'a) res" where
  "ok_or e None = Err e"
| "ok_or e (Some x) = Ok x"

fun expect :: "'a option \<Rightarrow> ('e, 'a) res" where
  "expect None = Panic"
| "expect (Some x) = Ok x"

fun map_err :: "('e \<Rightarrow> 'f) \<Rightarrow> ('e, 'a) res \<Rightarrow> ('f, 'a) res" where
  "map_err f (Ok x) = Ok x"
| "map_err f (Err e) = Err (f e)"
| "map_err f Panic = Panic"
| "map_err f Diverge = Diverge"

definition guard :: "bool \<Rightarrow> 'e \<Rightarrow> ('e, unit) res" where
  "guard b e = (if b then Ok () else Err e)"

lemma ok_or_Ok [simp]: "ok_or e r = Ok x \<longleftrightarrow> r = Some x"
  by (cases r) auto

lemma ok_or_Err [simp]: "ok_or e r = Err e' \<longleftrightarrow> r = None \<and> e' = e"
  by (cases r) auto

lemma expect_Ok [simp]: "expect r = Ok x \<longleftrightarrow> r = Some x"
  by (cases r) auto

lemma map_err_Ok [simp]: "map_err f r = Ok x \<longleftrightarrow> r = Ok x"
  by (cases r) auto

lemma guard_Ok [simp]: "guard b e = Ok u \<longleftrightarrow> b"
  by (simp add: guard_def)

lemma guard_Err [simp]: "guard b e = Err e' \<longleftrightarrow> \<not> b \<and> e' = e"
  by (auto simp: guard_def)

text \<open>The function returns: no panic and no endless loop.\<close>

fun returns :: "('e, 'a) res \<Rightarrow> bool" where
  "returns (Ok x) = True"
| "returns (Err e) = True"
| "returns Panic = False"
| "returns Diverge = False"

lemma returns_bind: "returns r \<Longrightarrow> (\<And>x. r = Ok x \<Longrightarrow> returns (f x)) \<Longrightarrow> returns (bind_res r f)"
  by (cases r) auto

lemma returns_ok_or [simp]: "returns (ok_or e r)"
  by (cases r) auto

lemma returns_map_err [simp]: "returns (map_err f r) = returns r"
  by (cases r) auto

lemma returns_guard [simp]: "returns (guard b e)"
  by (simp add: guard_def)

text \<open>\<^verbatim>\<open>let Ok(x) = r else { return d }\<close>.\<close>

fun or_else_return :: "('e, 'a) res \<Rightarrow> 'b \<Rightarrow> ('a \<Rightarrow> ('f, 'b) res) \<Rightarrow> ('f, 'b) res" where
  "or_else_return (Ok x) d f = f x"
| "or_else_return (Err e) d f = Ok d"
| "or_else_return Panic d f = Panic"
| "or_else_return Diverge d f = Diverge"

text \<open>A fallible map over a list, left to right.\<close>

fun map_res :: "('a \<Rightarrow> ('e, 'b) res) \<Rightarrow> 'a list \<Rightarrow> ('e, 'b list) res" where
  "map_res f [] = Ok []"
| "map_res f (x # xs) = bind_res (f x) (\<lambda>y. bind_res (map_res f xs) (\<lambda>ys. Ok (y # ys)))"

lemma map_res_Ok: "(\<And>x. x \<in> set xs \<Longrightarrow> f x = Ok (g x)) \<Longrightarrow> map_res f xs = Ok (map g xs)"
  by (induction xs) auto

lemma map_res_cong [fundef_cong]:
  "xs = ys \<Longrightarrow> (\<And>x. x \<in> set ys \<Longrightarrow> f x = g x) \<Longrightarrow> map_res f xs = map_res g ys"
proof (induction ys arbitrary: xs)
  case (Cons y ys)
  then show ?case by (auto intro!: bind_res_cong)
qed auto

subsection \<open>Lists and maps\<close>

text \<open>\<^verbatim>\<open>[T]::join\<close>.\<close>

fun join_with :: "bytes \<Rightarrow> bytes list \<Rightarrow> bytes" where
  "join_with sep [] = []"
| "join_with sep [xs] = xs"
| "join_with sep (xs # ys # zs) = xs @ sep @ join_with sep (ys # zs)"

lemma map_le_upd_fresh: "k \<notin> dom m \<Longrightarrow> m \<subseteq>\<^sub>m m(k \<mapsto> v)"
  by (auto simp: map_le_def)

lemma sum_list_map_bound:
  fixes f :: "'a \<Rightarrow> nat"
  assumes "\<And>x. x \<in> set xs \<Longrightarrow> f x \<le> n"
  shows "(\<Sum>x\<leftarrow>xs. f x) \<le> length xs * n"
  using assms by (induction xs) (auto simp: add_mono)

end
