(* ===== verification/Primitives.thy ===== *)
theory Primitives
  imports Prelude
begin

text \<open>
  The code the packages call but do not contain: the cryptographic crates (\<^verbatim>\<open>sha2\<close>,
  \<^verbatim>\<open>ed25519-dalek\<close>, \<^verbatim>\<open>x25519-dalek\<close>, \<^verbatim>\<open>hkdf\<close>, \<^verbatim>\<open>hmac\<close>, \<^verbatim>\<open>chacha20poly1305\<close>, \<^verbatim>\<open>bip39\<close>,
  \<^verbatim>\<open>base64\<close>) and the Unicode tables behind \<^verbatim>\<open>str::trim\<close> and \<^verbatim>\<open>str::to_lowercase\<close>. They are one
  record of functions that the definitions take as an argument; what the code relies on is stated
  as predicates on the record. Random bytes are arguments of the functions that draw them.
\<close>

record Primitives =
  sha256 :: "bytes \<Rightarrow> bytes"
  vk_valid :: "bytes \<Rightarrow> bool"
  ed_public :: "bytes \<Rightarrow> bytes"
  ed_sign :: "bytes \<Rightarrow> bytes \<Rightarrow> bytes"
  ed_verify :: "bytes \<Rightarrow> bytes \<Rightarrow> bytes \<Rightarrow> bool"
  x_canon :: "bytes \<Rightarrow> bytes"
  x_public :: "bytes \<Rightarrow> bytes"
  x_dh :: "bytes \<Rightarrow> bytes \<Rightarrow> bytes"
  hmac_sha256 :: "bytes \<Rightarrow> bytes \<Rightarrow> bytes"
  hmac_sha512 :: "bytes \<Rightarrow> bytes \<Rightarrow> bytes"
  hkdf_sha256 :: "bytes \<Rightarrow> bytes \<Rightarrow> bytes \<Rightarrow> nat \<Rightarrow> bytes"
  aead_seal :: "bytes \<Rightarrow> bytes \<Rightarrow> bytes \<Rightarrow> bytes \<Rightarrow> bytes option"
  aead_open :: "bytes \<Rightarrow> bytes \<Rightarrow> bytes \<Rightarrow> bytes \<Rightarrow> bytes option"
  bip39_words :: "bytes \<Rightarrow> bytes list"
  bip39_parse :: "bytes \<Rightarrow> (string, bytes list) res"
  bip39_seed :: "bytes list \<Rightarrow> bytes"
  b64_encode :: "bytes \<Rightarrow> bytes"
  b64_decode :: "bytes \<Rightarrow> bytes option"
  unicode_trim_lower :: "bytes \<Rightarrow> bytes"
  bincode_deposit :: "bytes \<Rightarrow> bytes \<Rightarrow> bytes"

text \<open>\<^verbatim>\<open>ed25519-dalek\<close>: a public key derived from a seed is 32 bytes and valid, a signature is 64
  bytes, and a signature made with a key verifies under its public key.\<close>

definition ed25519_laws :: "Primitives \<Rightarrow> bool" where
  "ed25519_laws P \<longleftrightarrow>
     (\<forall>seed. length (ed_public P seed) = 32 \<and> vk_valid P (ed_public P seed)) \<and>
     (\<forall>seed msg. length (ed_sign P seed msg) = 64 \<and>
        ed_verify P (ed_public P seed) msg (ed_sign P seed msg))"

text \<open>\<^verbatim>\<open>x25519-dalek\<close>: two public keys are equal when they encode the same field element, which is
  \<open>x_canon\<close>; keys and outputs are 32 bytes, and both sides compute the same secret.\<close>

definition x25519_laws :: "Primitives \<Rightarrow> bool" where
  "x25519_laws P \<longleftrightarrow>
     (\<forall>a. length (x_public P a) = 32) \<and> (\<forall>a b. length (x_dh P a b) = 32) \<and>
     (\<forall>a b. x_dh P a (x_public P b) = x_dh P b (x_public P a))"

text \<open>HMAC returns its 32 bytes, and HKDF as many as asked for, up to the 255 blocks of 32 bytes that it can
  expand to; the code asks for 32 and for 64.\<close>

definition kdf_laws :: "Primitives \<Rightarrow> bool" where
  "kdf_laws P \<longleftrightarrow> (\<forall>k m. length (hmac_sha256 P k m) = 32) \<and>
     (\<forall>salt ikm info n. n \<le> 255 * 32 \<longrightarrow> length (hkdf_sha256 P salt ikm info n) = n)"

text \<open>\<^verbatim>\<open>chacha20poly1305\<close>: what was sealed opens under the same key, nonce and associated data.\<close>

definition aead_laws :: "Primitives \<Rightarrow> bool" where
  "aead_laws P \<longleftrightarrow> (\<forall>k n a pt ct. aead_seal P k n a pt = Some ct \<longrightarrow> aead_open P k n a ct = Some pt)"

text \<open>\<^verbatim>\<open>base64\<close> and \<^verbatim>\<open>bip39\<close>: decoding inverts encoding, and a phrase that is written out is
  parsed back to the same words.\<close>

definition base64_laws :: "Primitives \<Rightarrow> bool" where
  "base64_laws P \<longleftrightarrow> (\<forall>bs. b64_decode P (b64_encode P bs) = Some bs)"

text \<open>\<^verbatim>\<open>bincode\<close>: a serialized pair of byte strings is at least as long as the second of them.\<close>

definition bincode_laws :: "Primitives \<Rightarrow> bool" where
  "bincode_laws P \<longleftrightarrow> (\<forall>tag env. length env \<le> length (bincode_deposit P tag env))"

text \<open>A small instance on which concrete runs can be computed.\<close>

definition toy :: Primitives where
  "toy = \<lparr> sha256 = (\<lambda>bs. replicate 31 0 @ [sum_list bs]),
     vk_valid = (\<lambda>k. True),
     ed_public = (\<lambda>seed. replicate 31 0 @ [sum_list seed]),
     ed_sign = (\<lambda>seed msg. replicate 62 0 @ [sum_list seed, sum_list msg]),
     ed_verify = (\<lambda>k msg sig. sig = replicate 62 0 @ [last k, sum_list msg]),
     x_canon = id,
     x_public = (\<lambda>s. replicate 31 0 @ [sum_list s]),
     x_dh = (\<lambda>s p. replicate 31 0 @ [sum_list s + last p]),
     hmac_sha256 = (\<lambda>k m. replicate 31 0 @ [3 * sum_list k + sum_list m]),
     hmac_sha512 = (\<lambda>k m. replicate 63 0 @ [3 * sum_list k + sum_list m]),
     hkdf_sha256 = (\<lambda>salt ikm info n. replicate n (sum_list salt + sum_list ikm)),
     aead_seal = (\<lambda>k n a pt. Some (sum_list (k @ n @ a) # pt)),
     aead_open = (\<lambda>k n a ct. case ct of [] \<Rightarrow> None | t # pt \<Rightarrow> if t = sum_list (k @ n @ a) then Some pt else None),
     bip39_words = (\<lambda>e. [e]),
     bip39_parse = (\<lambda>ph. Ok [ph]),
     bip39_seed = concat,
     b64_encode = id,
     b64_decode = Some,
     unicode_trim_lower = id,
     bincode_deposit = (\<lambda>tag env. tag @ replicate 8 0 @ env) \<rparr>"

lemma toy_simps [simp]:
  "sha256 toy bs = replicate 31 0 @ [sum_list bs]"
  "vk_valid toy k"
  "ed_public toy seed = replicate 31 0 @ [sum_list seed]"
  "ed_sign toy seed msg = replicate 62 0 @ [sum_list seed, sum_list msg]"
  "ed_verify toy k msg sig \<longleftrightarrow> sig = replicate 62 0 @ [last k, sum_list msg]"
  "x_canon toy = id"
  "x_public toy s = replicate 31 0 @ [sum_list s]"
  "x_dh toy s p = replicate 31 0 @ [sum_list s + last p]"
  "hmac_sha256 toy k m = replicate 31 0 @ [3 * sum_list k + sum_list m]"
  "hkdf_sha256 toy salt ikm info len = replicate len (sum_list salt + sum_list ikm)"
  "aead_seal toy k n a pt = Some (sum_list (k @ n @ a) # pt)"
  "aead_open toy k n a (t # pt) = (if t = sum_list (k @ n @ a) then Some pt else None)"
  "unicode_trim_lower toy = id"
  "bincode_deposit toy tag env = tag @ replicate 8 0 @ env"
  by (simp_all add: toy_def)

lemma toy_laws: "ed25519_laws toy" "x25519_laws toy" "kdf_laws toy" "aead_laws toy" "base64_laws toy" "bincode_laws toy"
  by (simp_all add: ed25519_laws_def x25519_laws_def kdf_laws_def aead_laws_def bincode_laws_def add.commute)
    (simp_all add: toy_def base64_laws_def)

lemmas toy_ed25519_laws = toy_laws(1)

end
