(* ===== verification/Identity.thy ===== *)
theory Identity
  imports Primitives
begin

text \<open>
  \<^verbatim>\<open>packages/crypto-core/src/error.rs\<close> and \<^verbatim>\<open>identity/keypair.rs\<close>: the errors of the encryption
  core and the long-term Ed25519 identity.
\<close>

subsection \<open>Errors\<close>

datatype CryptoError =
    InvalidKeyLength nat nat
  | CryptoSignatureInvalid
  | Decode string
  | DecryptionFailed
  | PrekeyExhausted
  | MessageKeyUnavailable
  | TooManySkippedKeys
  | InvalidRecoveryPhrase string

subsection \<open>Identity keys\<close>

datatype IdentityKeyPair = IdentityKeyPair (signing_key: bytes)

datatype IdentityPublicKey = IdentityPublicKey (verifying_key: bytes)

definition generate_identity :: "bytes \<Rightarrow> IdentityKeyPair" where
  "generate_identity random = IdentityKeyPair (take 32 random)"

definition public_key :: "Primitives \<Rightarrow> IdentityKeyPair \<Rightarrow> IdentityPublicKey" where
  "public_key P kp = IdentityPublicKey (ed_public P (signing_key kp))"

definition identity_sign :: "Primitives \<Rightarrow> IdentityKeyPair \<Rightarrow> bytes \<Rightarrow> bytes" where
  "identity_sign P kp message = ed_sign P (signing_key kp) message"

definition identity_key_from_bytes :: "bytes \<Rightarrow> (CryptoError, IdentityKeyPair) res" where
  "identity_key_from_bytes bs =
     (if length bs \<noteq> 32 then Err (InvalidKeyLength 32 (length bs)) else Ok (IdentityKeyPair bs))"

definition identity_public_from_bytes :: "Primitives \<Rightarrow> bytes \<Rightarrow> (CryptoError, IdentityPublicKey) res" where
  "identity_public_from_bytes P bs =
     (if length bs \<noteq> 32 then Err (InvalidKeyLength 32 (length bs))
      else if vk_valid P bs then Ok (IdentityPublicKey bs)
      else Err (Decode ''invalid Ed25519 public key''))"

definition identity_verify ::
  "Primitives \<Rightarrow> IdentityPublicKey \<Rightarrow> bytes \<Rightarrow> bytes \<Rightarrow> (CryptoError, unit) res" where
  "identity_verify P pk message signature =
     guard (ed_verify P (verifying_key pk) message signature) CryptoSignatureInvalid"

end
