(* ===== verification/Codec.thy ===== *)
theory Codec
  imports Identity "HOL-Library.AList"
begin

unbundle bit_operations_syntax

text \<open>
  \<^verbatim>\<open>packages/crypto-core/src/encoding/varint.rs\<close> and the interface of the wire formats: an encoder
  and a decoder that reads one value off the front of a buffer (\<open>codec\<close>), or reads at an offset and
  moves it (\<open>reader\<close>), with the law that a value followed by anything is read back.
\<close>

subsection \<open>Varints\<close>

function varint_encode :: "nat \<Rightarrow> bytes" where
  "varint_encode value =
     (let byte = word_of_nat (value mod 128) :: byte;
          rest = value div 128;
          byte = (if rest \<noteq> 0 then byte OR 0x80 else byte) in
      byte # (if rest = 0 then [] else varint_encode rest))"
  by pat_completeness auto
termination by (relation "measure id") auto

fun varint_decode_loop :: "64 word \<Rightarrow> nat \<Rightarrow> nat \<Rightarrow> bytes \<Rightarrow> (CryptoError, nat \<times> nat) res" where
  "varint_decode_loop value shift i [] = Err (Decode ''truncated varint'')"
| "varint_decode_loop value shift i (byte # input) =
     (if 64 \<le> shift then Err (Decode ''varint too long'')
      else
        let value = value OR push_bit shift (ucast (byte AND 0x7f)) in
        if byte AND 0x80 = 0 then Ok (unat value, i + 1)
        else varint_decode_loop value (shift + 7) (i + 1) input)"

definition varint_decode :: "bytes \<Rightarrow> (CryptoError, nat \<times> nat) res" where
  "varint_decode input = varint_decode_loop 0 0 0 input"

declare varint_encode.simps [simp del]

subsection \<open>Interfaces\<close>

text \<open>A self-delimiting format.\<close>

locale codec =
  fixes enc :: "'a \<Rightarrow> bytes"
    and dec :: "bytes \<Rightarrow> (CryptoError, 'a \<times> nat) res"
    and wf :: "'a \<Rightarrow> bool"
  assumes decode_encode: "wf x \<Longrightarrow> dec (enc x @ rest) = Ok (x, length (enc x))"
begin

lemma decode_exact: "wf x \<Longrightarrow> dec (enc x) = Ok (x, length (enc x))"
  using decode_encode [of x "[]"] by simp

lemma prefix_free:
  assumes "wf x" and "wf y" and "enc x @ r = enc y @ s"
  shows "x = y \<and> r = s"
proof -
  have "Ok (x, length (enc x)) = (Ok (y, length (enc y)) :: (CryptoError, 'a \<times> nat) res)"
    using decode_encode [OF assms(1), of r] decode_encode [OF assms(2), of s] assms(3) by simp
  then have "x = y" by simp
  with assms(3) show ?thesis by simp
qed

lemma encode_inj: "wf x \<Longrightarrow> wf y \<Longrightarrow> enc x = enc y \<longleftrightarrow> x = y"
  using prefix_free [of x y "[]" "[]"] by auto

end

text \<open>A reader at an offset of a larger buffer; \<open>remaining\<close> says what is still unread.\<close>

definition remaining :: "bytes \<Rightarrow> nat \<Rightarrow> bytes \<Rightarrow> bool" where
  "remaining input off rest \<longleftrightarrow> off \<le> length input \<and> drop off input = rest"

lemma remaining_append: "remaining input off (xs @ rest) \<Longrightarrow> remaining input (off + length xs) rest"
proof -
  assume *: "remaining input off (xs @ rest)"
  then have "length (drop off input) = length xs + length rest" by (simp add: remaining_def)
  moreover have "drop (length xs) (drop off input) = rest" using * by (simp add: remaining_def)
  then have "drop (off + length xs) input = rest" by (simp only: drop_drop add.commute)
  moreover have "off \<le> length input" using * by (simp add: remaining_def)
  ultimately show ?thesis unfolding remaining_def length_drop by linarith
qed

lemma remaining_start: "remaining input 0 input"
  by (simp add: remaining_def)

locale reader =
  fixes wr :: "'a \<Rightarrow> bytes"
    and rd :: "bytes \<Rightarrow> nat \<Rightarrow> (CryptoError, 'a \<times> nat) res"
    and wf :: "'a \<Rightarrow> bool"
  assumes read_written:
    "wf x \<Longrightarrow> rd (pre @ wr x @ rest) (length pre) = Ok (x, length pre + length (wr x))"
begin

lemma read_at:
  assumes "wf x" and "remaining input off (wr x @ rest)"
  shows "rd input off = Ok (x, off + length (wr x)) \<and> remaining input (off + length (wr x)) rest"
proof -
  from assms(2) have off: "off \<le> length input" and input: "input = take off input @ wr x @ rest"
    unfolding remaining_def by (simp, metis append_take_drop_id)
  have "length (take off input) = off" using off by simp
  then show ?thesis using read_written [OF assms(1), of "take off input" rest] input assms(2)
    by (metis remaining_append)
qed

lemma read_then:
  assumes "wf x" and "remaining input off (wr x @ rest)"
    and "\<And>off'. remaining input off' rest \<Longrightarrow> f (x, off') = res"
  shows "bind_res (rd input off) f = res"
  using read_at [OF assms(1,2)] assms(3) by simp

end

subsection \<open>The varint round trip\<close>

lemma continuation_byte:
  assumes "n < 128"
  shows "(word_of_nat n OR 0x80 :: byte) AND 0x80 \<noteq> 0" and "unat ((word_of_nat n OR 0x80 :: byte) AND 0x7f) = n"
    and "(word_of_nat n :: byte) AND 0x80 = 0" and "unat ((word_of_nat n :: byte) AND 0x7f) = n"
proof -
  have all: "\<forall>n \<in> set [0..<128]. (word_of_nat n OR 0x80 :: byte) AND 0x80 \<noteq> 0 \<and>
      unat ((word_of_nat n OR 0x80 :: byte) AND 0x7f) = n \<and>
      (word_of_nat n :: byte) AND 0x80 = 0 \<and> unat ((word_of_nat n :: byte) AND 0x7f) = n"
    by (simp add: upt_rec)
  show "(word_of_nat n OR 0x80 :: byte) AND 0x80 \<noteq> 0" and "unat ((word_of_nat n OR 0x80 :: byte) AND 0x7f) = n"
    and "(word_of_nat n :: byte) AND 0x80 = 0" and "unat ((word_of_nat n :: byte) AND 0x7f) = n"
    using all assms by auto
qed

lemma or_push_bit:
  fixes v :: "64 word" and b :: byte
  assumes "unat v < 2 ^ s" and "unat v + unat b * 2 ^ s < 2 ^ 64"
  shows "unat (v OR push_bit s (ucast b)) = unat v + unat b * 2 ^ s"
proof -
  have shifted: "unat (push_bit s (ucast b :: 64 word)) = unat b * 2 ^ s"
  proof -
    have "unat b < 2 ^ 64" by (rule less_trans [OF unat_byte_less]) simp
    then have "unat (ucast b :: 64 word) = unat b" by (simp only: unsigned_ucast_eq) (simp add: take_bit_nat_eq_self)
    then have "unat (push_bit s (ucast b :: 64 word)) = take_bit 64 (push_bit s (unat b))"
      by (simp only: unsigned_push_bit_eq) simp
    then show ?thesis using assms(2) by (simp add: push_bit_eq_mult take_bit_nat_eq_self)
  qed
  have small: "take_bit s v = v"
  proof -
    have "unat (take_bit s v) = unat v mod 2 ^ s"
      by (simp only: unsigned_take_bit_eq) (simp add: take_bit_eq_mod)
    then show ?thesis using assms(1) by (simp add: word_unat_eq_iff)
  qed
  have "v AND push_bit s (ucast b) = 0"
    by (subst small [symmetric]) (rule bit_word_eqI, auto simp: bit_simps)
  then have "v OR push_bit s (ucast b) = v + push_bit s (ucast b)"
    by (simp add: disjunctive_add_eq_or)
  then show ?thesis using shifted assms(2) by (simp add: unat_word_ariths)
qed

lemma varint_encode_small: "n < 128 \<Longrightarrow> varint_encode n = [word_of_nat n]"
  by (subst varint_encode.simps) (simp add: Let_def)

lemma varint_encode_large:
  "128 \<le> n \<Longrightarrow> varint_encode n = (word_of_nat (n mod 128) OR 0x80) # varint_encode (n div 128)"
  by (subst varint_encode.simps) (simp add: Let_def div_eq_0_iff)

lemma varint_decode_loop_encode:
  assumes "unat acc < 2 ^ s" and "unat acc + n * 2 ^ s < 2 ^ 64" and "s < 64"
  shows "varint_decode_loop acc s i (varint_encode n @ rest) = Ok (unat acc + n * 2 ^ s, i + length (varint_encode n))"
  using assms
proof (induction n arbitrary: acc s i rule: less_induct)
  case (less n)
  show ?case
  proof (cases "n < 128")
    case True
    let ?b = "(word_of_nat n :: byte) AND 0x7f"
    have b: "unat ?b = n" using continuation_byte(4) [OF True] .
    have "unat (acc OR push_bit s (ucast ?b)) = unat acc + n * 2 ^ s"
      using or_push_bit [of acc s ?b] less.prems by (simp only: b)
    then show ?thesis using continuation_byte(3) [OF True] less.prems(3)
      by (simp add: varint_encode_small [OF True])
  next
    case False
    let ?m = "n mod 128" and ?q = "n div 128"
    have m: "?m < 128" by simp
    let ?b = "(word_of_nat ?m OR 0x80 :: byte) AND 0x7f"
    have b: "unat ?b = ?m" using continuation_byte(2) [OF m] .
    have parts: "n * 2 ^ s = ?m * 2 ^ s + ?q * 2 ^ (s + 7)"
    proof -
      have "(q * 128 + m) * 2 ^ s = m * 2 ^ s + q * 2 ^ (s + 7)" for q m :: nat
        by (simp add: algebra_simps power_add)
      from this [of ?q ?m] show ?thesis by (simp only: div_mult_mod_eq)
    qed
    let ?acc = "acc OR push_bit s (ucast ?b)"
    have acc: "unat ?acc = unat acc + ?m * 2 ^ s"
      using or_push_bit [of acc s ?b] less.prems parts by (simp only: b)
    have q: "1 \<le> ?q" using False by simp
    have "unat acc + ?m * 2 ^ s < 2 ^ s + ?m * 2 ^ s" using less.prems(1) by simp
    also have "\<dots> = Suc ?m * 2 ^ s" by simp
    also have "\<dots> \<le> 128 * 2 ^ s" using m by (intro mult_right_mono) simp_all
    finally have a1: "unat ?acc < 2 ^ (s + 7)" by (simp add: acc power_add)
    have a2: "unat ?acc + ?q * 2 ^ (s + 7) < 2 ^ 64" using less.prems(2) parts acc by simp
    have "1 * (2 :: nat) ^ (s + 7) \<le> ?q * 2 ^ (s + 7)" using q by (rule mult_right_mono) simp
    then have "(2 :: nat) ^ (s + 7) < 2 ^ 64" using a2 by linarith
    then have a3: "s + 7 < 64" by (simp only: power_strict_increasing_iff [of "2 :: nat"])
    have "varint_decode_loop ?acc (s + 7) (i + 1) (varint_encode ?q @ rest) =
        Ok (unat ?acc + ?q * 2 ^ (s + 7), i + 1 + length (varint_encode ?q))"
      using False by (intro less.IH a1 a2 a3) simp
    then show ?thesis using False continuation_byte(1) [OF m] less.prems(3)
      by (simp add: varint_encode_large acc parts del: unsigned_or_eq)
  qed
qed

interpretation varint: codec varint_encode varint_decode "\<lambda>n. n < 2 ^ 64"
proof
  fix n :: nat and rest assume "n < 2 ^ 64"
  then show "varint_decode (varint_encode n @ rest) = Ok (n, length (varint_encode n))"
    using varint_decode_loop_encode [of 0 0 n 0 rest] by (simp add: varint_decode_def)
qed

lemma length_varint_encode: "n < 2 ^ (7 * k) \<Longrightarrow> 0 < k \<Longrightarrow> length (varint_encode n) \<le> k"
proof (induction k arbitrary: n)
  case (Suc k)
  show ?case
  proof (cases "n < 128")
    case False
    have "n div 128 < 2 ^ (7 * k)" using Suc.prems(1) by (intro less_mult_imp_div_less) (simp add: power_add mult.commute)
    moreover from this False have "0 < k" by (cases k) simp_all
    ultimately show ?thesis using False Suc.IH by (simp add: varint_encode_large)
  qed (simp add: varint_encode_small)
qed simp

lemma length_varint_encode_pos: "0 < length (varint_encode n)"
  by (cases "n < 128") (simp_all add: varint_encode_small varint_encode_large)

end
