(* ===== verification/Message_Keys.thy ===== *)
theory Message_Keys
  imports Codec
begin

text \<open>
  \<^verbatim>\<open>packages/crypto-core/src/ratchet\<close>: the symmetric chain (\<^verbatim>\<open>chain.rs\<close>), the root derivation
  (\<^verbatim>\<open>root_kdf.rs\<close>), the cipher wrapper (\<^verbatim>\<open>aead.rs\<close>), the store of skipped keys
  (\<^verbatim>\<open>skipped_keys.rs\<close>), and the wire form of a message (\<^verbatim>\<open>header.rs\<close>, \<^verbatim>\<open>envelope.rs\<close>). Keys are
  32 bytes. A \<^verbatim>\<open>HashMap\<close> whose size and entries matter is an association list with distinct keys,
  in whatever order the map iterates.
\<close>

subsection \<open>Chains\<close>

type_synonym ChainKey = bytes
type_synonym MessageKey = bytes

definition chain_ratchet :: "Primitives \<Rightarrow> ChainKey \<Rightarrow> MessageKey \<times> ChainKey" where
  "chain_ratchet P ck = (hmac_sha256 P ck [0x01], hmac_sha256 P ck [0x02])"

definition ROOT_KDF_INFO :: bytes where
  "ROOT_KDF_INFO = ascii ''SpiritChat-DR-RootKDF-v1''"

definition root_kdf :: "Primitives \<Rightarrow> bytes \<Rightarrow> bytes \<Rightarrow> bytes \<times> ChainKey" where
  "root_kdf P root_key dh_output =
     (let okm = hkdf_sha256 P root_key dh_output ROOT_KDF_INFO 64 in (take 32 okm, drop 32 okm))"

subsection \<open>Cipher\<close>

definition NONCE_LEN :: nat where
  "NONCE_LEN = 12"

definition aead_encrypt ::
  "Primitives \<Rightarrow> bytes \<Rightarrow> MessageKey \<Rightarrow> bytes \<Rightarrow> bytes \<Rightarrow> (CryptoError, bytes) res" where
  "aead_encrypt P nonce_bytes key plaintext associated_data =
     (case aead_seal P key nonce_bytes associated_data plaintext of
        None \<Rightarrow> Err DecryptionFailed
      | Some ciphertext \<Rightarrow> Ok (nonce_bytes @ ciphertext))"

definition aead_decrypt ::
  "Primitives \<Rightarrow> MessageKey \<Rightarrow> bytes \<Rightarrow> bytes \<Rightarrow> (CryptoError, bytes) res" where
  "aead_decrypt P key input associated_data =
     (if length input < NONCE_LEN then Err (Decode ''ciphertext shorter than a nonce'')
      else
        case aead_open P key (take NONCE_LEN input) associated_data (drop NONCE_LEN input) of
          None \<Rightarrow> Err DecryptionFailed
        | Some plaintext \<Rightarrow> Ok plaintext)"

lemma aead_roundtrip:
  assumes "aead_laws P" and "length nonce = 12" and "aead_encrypt P nonce key pt aad = Ok ct"
  shows "aead_decrypt P key ct aad = Ok pt"
  using assms by (auto simp: aead_encrypt_def aead_decrypt_def aead_laws_def NONCE_LEN_def split: option.splits)

lemma returns_aead_encrypt [simp]: "returns (aead_encrypt P n k pt aad)"
  by (simp add: aead_encrypt_def split: option.split)

lemma returns_aead_decrypt [simp]: "returns (aead_decrypt P k ct aad)"
  by (simp add: aead_decrypt_def split: option.split)

subsection \<open>Stores of single-use keys\<close>

text \<open>What the ratchet and the handshake need of a store: a key can be taken once.\<close>

locale key_store =
  fixes ins :: "'k \<Rightarrow> 'v \<Rightarrow> 'm \<Rightarrow> (CryptoError, 'm) res"
    and tak :: "'k \<Rightarrow> 'm \<Rightarrow> 'v option \<times> 'm"
    and look :: "'m \<Rightarrow> 'k \<rightharpoonup> 'v"
    and fits :: "'k \<Rightarrow> 'v \<Rightarrow> bool"
    and inv :: "'m \<Rightarrow> bool"
  assumes look_ins: "\<lbrakk>inv m; fits k v; k \<notin> dom (look m); ins k v m = Ok m'\<rbrakk> \<Longrightarrow> look m' = (look m)(k \<mapsto> v)"
    and inv_ins: "\<lbrakk>inv m; fits k v; k \<notin> dom (look m); ins k v m = Ok m'\<rbrakk> \<Longrightarrow> inv m'"
    and fst_take: "inv m \<Longrightarrow> fst (tak k m) = look m k"
    and look_take: "inv m \<Longrightarrow> look (snd (tak k m)) = (look m)(k := None)"
    and inv_take: "inv m \<Longrightarrow> inv (snd (tak k m))"
begin

lemma take_once: "inv m \<Longrightarrow> fst (tak k (snd (tak k m))) = None"
  by (simp add: fst_take inv_take look_take)

lemma take_other: "inv m \<Longrightarrow> k \<noteq> k' \<Longrightarrow> fst (tak k' (snd (tak k m))) = fst (tak k' m)"
  by (simp add: fst_take inv_take look_take)

lemma take_inserted:
  "\<lbrakk>inv m; fits k v; k \<notin> dom (look m); ins k v m = Ok m'\<rbrakk>
    \<Longrightarrow> fst (tak k m') = Some v \<and> look (snd (tak k m')) = look m"
  using look_ins [of m k v m'] inv_ins [of m k v m'] by (auto simp: fst_take look_take)

end

definition MAX_SKIPPED_KEYS :: nat where
  "MAX_SKIPPED_KEYS = 2000"

type_synonym SkippedKeyStore = "((bytes \<times> nat) \<times> MessageKey) list"

definition skipped_new :: SkippedKeyStore where
  "skipped_new = []"

definition skipped_insert ::
  "bytes \<times> nat \<Rightarrow> MessageKey \<Rightarrow> SkippedKeyStore \<Rightarrow> (CryptoError, SkippedKeyStore) res" where
  "skipped_insert k key st =
     (if MAX_SKIPPED_KEYS \<le> length st then Err TooManySkippedKeys else Ok (AList.update k key st))"

definition skipped_take :: "bytes \<times> nat \<Rightarrow> SkippedKeyStore \<Rightarrow> MessageKey option \<times> SkippedKeyStore" where
  "skipped_take k st = (map_of st k, AList.delete k st)"

definition skipped_entries :: "SkippedKeyStore \<Rightarrow> (bytes \<times> nat \<times> MessageKey) list" where
  "skipped_entries st = map (\<lambda>((dh, n), key). (dh, n, key)) st"

definition skipped_from_entries :: "(bytes \<times> nat \<times> MessageKey) list \<Rightarrow> SkippedKeyStore" where
  "skipped_from_entries es = foldl (\<lambda>st (dh, n, key). AList.update (dh, n) key st) [] es"

definition skipped_ok :: "SkippedKeyStore \<Rightarrow> bool" where
  "skipped_ok st \<longleftrightarrow> distinct (map fst st)"

interpretation skipped: key_store skipped_insert skipped_take map_of "\<lambda>_ _. True" skipped_ok
  by unfold_locales
    (auto simp: skipped_insert_def skipped_take_def skipped_ok_def update_conv' delete_conv'
      distinct_update distinct_delete split: if_splits)

lemma update_fresh: "k \<notin> dom (map_of st) \<Longrightarrow> AList.update k v st = st @ [(k, v)]"
  by (induction st) (auto split: if_splits)

lemma skipped_insert_fresh:
  "k \<notin> dom (map_of st) \<Longrightarrow> length st < MAX_SKIPPED_KEYS \<Longrightarrow> skipped_insert k key st = Ok (st @ [(k, key)])"
  by (simp add: skipped_insert_def update_fresh)

lemma skipped_from_entries_append:
  "distinct (map fst (st @ es)) \<Longrightarrow>
    foldl (\<lambda>st (dh, n, key). AList.update (dh, n) key st) st (skipped_entries es) = st @ es"
proof (induction es arbitrary: st)
  case (Cons e es)
  obtain dh n key where e: "e = ((dh, n), key)" by (metis prod.exhaust)
  have "(dh, n) \<notin> dom (map_of st)" using Cons.prems by (auto simp: e dom_map_of_conv_image_fst)
  then show ?case using Cons.IH [of "st @ [e]"] Cons.prems by (simp add: skipped_entries_def e update_fresh)
qed (simp add: skipped_entries_def)

lemma skipped_entries_roundtrip: "skipped_ok st \<Longrightarrow> skipped_from_entries (skipped_entries st) = st"
  using skipped_from_entries_append [of "[]" st] by (simp add: skipped_from_entries_def skipped_ok_def)

subsection \<open>Message headers and envelopes\<close>

record MessageHeader =
  dh_public :: bytes
  previous_chain_length :: nat
  message_number :: nat

definition header_encode :: "MessageHeader \<Rightarrow> bytes" where
  "header_encode h = dh_public h @ varint_encode (previous_chain_length h) @ varint_encode (message_number h)"

definition header_decode_with_len :: "bytes \<Rightarrow> (CryptoError, MessageHeader \<times> nat) res" where
  "header_decode_with_len input =
     (if length input < 32 then Err (Decode ''header shorter than a public key'')
      else
        bind_res (varint_decode (drop 32 input)) (\<lambda>(previous, consumed).
        bind_res (varint_decode (drop (32 + consumed) input)) (\<lambda>(number, consumed2).
          Ok (\<lparr> dh_public = take 32 input, previous_chain_length = previous mod 2 ^ 32,
                message_number = number mod 2 ^ 32 \<rparr>, 32 + consumed + consumed2))))"

definition header_decode :: "bytes \<Rightarrow> (CryptoError, MessageHeader) res" where
  "header_decode input = bind_res (header_decode_with_len input) (\<lambda>(h, consumed). Ok h)"

definition envelope_encode :: "MessageHeader \<Rightarrow> bytes \<Rightarrow> bytes" where
  "envelope_encode h ciphertext = header_encode h @ ciphertext"

definition envelope_decode :: "bytes \<Rightarrow> (CryptoError, MessageHeader \<times> bytes) res" where
  "envelope_decode input =
     bind_res (header_decode_with_len input) (\<lambda>(h, consumed).
       if consumed \<le> length input then Ok (h, drop consumed input)
       else Err (Decode ''message envelope missing ciphertext''))"

definition wf_message_header :: "MessageHeader \<Rightarrow> bool" where
  "wf_message_header h \<longleftrightarrow> length (dh_public h) = 32 \<and> previous_chain_length h < 2 ^ 32 \<and>
     message_number h < 2 ^ 32"

lemma header_decode_parts:
  assumes "length d = 32" and "m < 2 ^ 32" and "n < 2 ^ 32"
  shows "header_decode_with_len (d @ varint_encode m @ varint_encode n @ rest) =
    Ok (\<lparr> dh_public = d, previous_chain_length = m, message_number = n \<rparr>,
        32 + length (varint_encode m) + length (varint_encode n))"
proof -
  have m: "varint_decode (varint_encode m @ varint_encode n @ rest) = Ok (m, length (varint_encode m))"
    by (rule varint.decode_encode) (use assms(2) in simp)
  have n: "varint_decode (varint_encode n @ rest) = Ok (n, length (varint_encode n))"
    by (rule varint.decode_encode) (use assms(3) in simp)
  show ?thesis using assms by (simp add: header_decode_with_len_def m n)
qed

interpretation msg_header: codec header_encode header_decode_with_len wf_message_header
proof
  fix h :: MessageHeader and rest assume wf: "wf_message_header h"
  obtain d m n where h: "h = \<lparr> dh_public = d, previous_chain_length = m, message_number = n \<rparr>"
    by (cases h) blast
  have "length d = 32" and "m < 2 ^ 32" and "n < 2 ^ 32"
    using wf unfolding wf_message_header_def h by simp_all
  from header_decode_parts [OF this, of rest]
  show "header_decode_with_len (header_encode h @ rest) = Ok (h, length (header_encode h))"
    by (simp add: h header_encode_def \<open>length d = 32\<close>)
qed

subsection \<open>Properties\<close>

text \<open>A message split back into header and ciphertext gives what was framed, and no two
  framings collide.\<close>

theorem envelope_roundtrip:
  assumes "wf_message_header h"
  shows "envelope_decode (envelope_encode h ct) = Ok (h, ct) \<and>
    (\<forall>h' ct'. wf_message_header h' \<longrightarrow> envelope_encode h ct = envelope_encode h' ct' \<longrightarrow> h = h' \<and> ct = ct')"
proof (intro conjI allI impI)
  show "envelope_decode (envelope_encode h ct) = Ok (h, ct)"
    by (simp add: envelope_decode_def envelope_encode_def msg_header.decode_encode [OF assms])
qed (use msg_header.prefix_free [OF assms] in \<open>unfold envelope_encode_def, blast+\<close>)

lemma envelope_roundtrip_witness:
  "envelope_decode (envelope_encode \<lparr>dh_public = replicate 32 9, previous_chain_length = 300, message_number = 5\<rparr> [1, 2]) =
     Ok (\<lparr>dh_public = replicate 32 9, previous_chain_length = 300, message_number = 5\<rparr>, [1, 2])"
  using envelope_roundtrip [of "\<lparr>dh_public = replicate 32 9, previous_chain_length = 300, message_number = 5\<rparr>" "[1, 2]"]
  by (simp add: wf_message_header_def)

end
