(* ===== verification/Ratchet.thy ===== *)
theory Ratchet
  imports Message_Keys
begin

text \<open>
  \<^verbatim>\<open>packages/crypto-core/src/ratchet/state.rs\<close>: the Double Ratchet. A method that takes
  \<^verbatim>\<open>&mut self\<close> returns the new state with its result; the random secret or nonce it draws is an
  argument. Counters are \<^verbatim>\<open>u32\<close>.
\<close>

subsection \<open>State\<close>

record DoubleRatchet =
  dh_self :: bytes
  dh_self_public :: bytes
  dh_remote :: "bytes option"
  root_key :: bytes
  sending_chain :: "ChainKey option"
  receiving_chain :: "ChainKey option"
  send_count :: nat
  recv_count :: nat
  previous_sending_chain_length :: nat
  skipped :: SkippedKeyStore

definition init_initiator :: "Primitives \<Rightarrow> bytes \<Rightarrow> bytes \<Rightarrow> bytes \<Rightarrow> DoubleRatchet" where
  "init_initiator P random_secret shared_secret remote_ratchet_public =
     (let (root, chain_key) = root_kdf P shared_secret (x_dh P random_secret remote_ratchet_public) in
      \<lparr> dh_self = random_secret, dh_self_public = x_public P random_secret,
        dh_remote = Some remote_ratchet_public, root_key = root,
        sending_chain = Some chain_key, receiving_chain = None,
        send_count = 0, recv_count = 0, previous_sending_chain_length = 0, skipped = skipped_new \<rparr>)"

definition init_responder :: "Primitives \<Rightarrow> bytes \<Rightarrow> bytes \<Rightarrow> DoubleRatchet" where
  "init_responder P shared_secret my_ratchet_secret =
     \<lparr> dh_self = my_ratchet_secret, dh_self_public = x_public P my_ratchet_secret,
       dh_remote = None, root_key = shared_secret,
       sending_chain = None, receiving_chain = None,
       send_count = 0, recv_count = 0, previous_sending_chain_length = 0, skipped = skipped_new \<rparr>"

definition x25519_public_from_bytes :: "bytes \<Rightarrow> (CryptoError, bytes) res" where
  "x25519_public_from_bytes bs =
     (if length bs \<noteq> 32 then Err (InvalidKeyLength 32 (length bs)) else Ok bs)"

definition init_initiator_from_bytes ::
  "Primitives \<Rightarrow> bytes \<Rightarrow> bytes \<Rightarrow> bytes \<Rightarrow> (CryptoError, DoubleRatchet) res" where
  "init_initiator_from_bytes P random_secret shared_secret remote_ratchet_public_bytes =
     bind_res (x25519_public_from_bytes remote_ratchet_public_bytes) (\<lambda>remote.
       Ok (init_initiator P random_secret shared_secret remote))"

definition init_responder_from_bytes ::
  "Primitives \<Rightarrow> bytes \<Rightarrow> bytes \<Rightarrow> (CryptoError, DoubleRatchet) res" where
  "init_responder_from_bytes P shared_secret my_ratchet_secret_bytes =
     (if length my_ratchet_secret_bytes \<noteq> 32
      then Err (InvalidKeyLength 32 (length my_ratchet_secret_bytes))
      else Ok (init_responder P shared_secret my_ratchet_secret_bytes))"

subsection \<open>Sending\<close>

definition full_associated_data :: "bytes \<Rightarrow> MessageHeader \<Rightarrow> bytes" where
  "full_associated_data caller_aad h = caller_aad @ header_encode h"

definition encrypt ::
  "Primitives \<Rightarrow> bytes \<Rightarrow> DoubleRatchet \<Rightarrow> bytes \<Rightarrow> bytes \<Rightarrow>
    DoubleRatchet \<times> (CryptoError, MessageHeader \<times> bytes) res" where
  "encrypt P nonce_bytes r plaintext associated_data =
     (case sending_chain r of
        None \<Rightarrow> (r, Err MessageKeyUnavailable)
      | Some ck \<Rightarrow>
          let (message_key, next_chain) = chain_ratchet P ck;
              h = \<lparr> dh_public = dh_self_public r,
                    previous_chain_length = previous_sending_chain_length r,
                    message_number = send_count r \<rparr>;
              r = r\<lparr> sending_chain := Some next_chain, send_count := (send_count r + 1) mod 2 ^ 32 \<rparr>;
              aad = full_associated_data associated_data h in
          (r, bind_res (aead_encrypt P nonce_bytes message_key plaintext aad) (\<lambda>ciphertext.
                Ok (h, ciphertext))))"

subsection \<open>Receiving\<close>

text \<open>The loop of \<^verbatim>\<open>skip_message_keys\<close>; \<^verbatim>\<open>recv_count < until\<close> keeps the increment in range.\<close>

function skip_loop ::
  "Primitives \<Rightarrow> bytes \<Rightarrow> nat \<Rightarrow> ChainKey \<Rightarrow> DoubleRatchet \<Rightarrow> (CryptoError, ChainKey \<times> DoubleRatchet) res" where
  "skip_loop P remote_key until ck r =
     (if recv_count r < until then
        let (message_key, next_chain) = chain_ratchet P ck in
        bind_res (skipped_insert (remote_key, recv_count r) message_key (skipped r)) (\<lambda>st.
          skip_loop P remote_key until next_chain (r\<lparr> skipped := st, recv_count := recv_count r + 1 \<rparr>))
      else Ok (ck, r))"
  by pat_completeness auto
termination by (relation "measure (\<lambda>(P, remote_key, until, ck, r). until - recv_count r)") auto

declare skip_loop.simps [simp del]

definition skip_message_keys :: "Primitives \<Rightarrow> nat \<Rightarrow> DoubleRatchet \<Rightarrow> (CryptoError, DoubleRatchet) res" where
  "skip_message_keys P until r =
     (case (dh_remote r, receiving_chain r) of
        (Some remote_key, Some ck) \<Rightarrow>
          bind_res (skip_loop P remote_key until ck r) (\<lambda>(ck, r). Ok (r\<lparr> receiving_chain := Some ck \<rparr>))
      | _ \<Rightarrow> Ok r)"

definition dh_ratchet_step :: "Primitives \<Rightarrow> bytes \<Rightarrow> bytes \<Rightarrow> DoubleRatchet \<Rightarrow> DoubleRatchet" where
  "dh_ratchet_step P random_secret remote_key r =
     (let r = r\<lparr> previous_sending_chain_length := send_count r, send_count := 0, recv_count := 0,
                 dh_remote := Some remote_key \<rparr>;
          (root_after_recv, receiving) = root_kdf P (root_key r) (x_dh P (dh_self r) remote_key);
          r = r\<lparr> root_key := root_after_recv, receiving_chain := Some receiving \<rparr>;
          r = r\<lparr> dh_self := random_secret, dh_self_public := x_public P random_secret \<rparr>;
          (root_after_send, sending) = root_kdf P (root_key r) (x_dh P (dh_self r) remote_key) in
      r\<lparr> root_key := root_after_send, sending_chain := Some sending \<rparr>)"

definition same_remote :: "Primitives \<Rightarrow> bytes option \<Rightarrow> bytes \<Rightarrow> bool" where
  "same_remote P known remote_key \<longleftrightarrow> map_option (x_canon P) known = Some (x_canon P remote_key)"

text \<open>The body of \<^verbatim>\<open>decrypt\<close> on the scratch copy, and the method, which keeps the copy only when the
  body succeeds.\<close>

definition decrypt_working ::
  "Primitives \<Rightarrow> bytes \<Rightarrow> DoubleRatchet \<Rightarrow> MessageHeader \<Rightarrow> bytes \<Rightarrow> bytes \<Rightarrow>
    (CryptoError, DoubleRatchet \<times> bytes) res" where
  "decrypt_working P random_secret working h ciphertext associated_data =
     (let remote_key = dh_public h;
          aad = full_associated_data associated_data h;
          (found, st) = skipped_take (remote_key, message_number h) (skipped working);
          working = working\<lparr> skipped := st \<rparr> in
      case found of
        Some message_key \<Rightarrow>
          bind_res (aead_decrypt P message_key ciphertext aad) (\<lambda>plaintext. Ok (working, plaintext))
      | None \<Rightarrow>
          bind_res
            (if \<not> same_remote P (dh_remote working) remote_key then
               bind_res (skip_message_keys P (previous_chain_length h) working) (\<lambda>working.
                 Ok (dh_ratchet_step P random_secret remote_key working))
             else Ok working) (\<lambda>working.
          bind_res (skip_message_keys P (message_number h) working) (\<lambda>working.
          bind_res (ok_or MessageKeyUnavailable (receiving_chain working)) (\<lambda>ck.
            let (message_key, next_chain) = chain_ratchet P ck;
                working = working\<lparr> receiving_chain := Some next_chain,
                                   recv_count := (recv_count working + 1) mod 2 ^ 32 \<rparr> in
            bind_res (aead_decrypt P message_key ciphertext aad) (\<lambda>plaintext. Ok (working, plaintext))))))"

definition decrypt ::
  "Primitives \<Rightarrow> bytes \<Rightarrow> DoubleRatchet \<Rightarrow> MessageHeader \<Rightarrow> bytes \<Rightarrow> bytes \<Rightarrow>
    DoubleRatchet \<times> (CryptoError, bytes) res" where
  "decrypt P random_secret r h ciphertext associated_data =
     (case decrypt_working P random_secret r h ciphertext associated_data of
        Ok (working, plaintext) \<Rightarrow> (working, Ok plaintext)
      | Err e \<Rightarrow> (r, Err e)
      | Panic \<Rightarrow> (r, Panic)
      | Diverge \<Rightarrow> (r, Diverge))"

subsection \<open>Persistence\<close>

definition write_optional_key :: "bytes option \<Rightarrow> bytes" where
  "write_optional_key key = (case key of Some key \<Rightarrow> 1 # key | None \<Rightarrow> [0])"

definition write_skipped_entry :: "bytes \<times> nat \<times> MessageKey \<Rightarrow> bytes" where
  "write_skipped_entry e = (case e of (dh, n, key) \<Rightarrow> dh @ varint_encode n @ key)"

definition ratchet_to_bytes :: "DoubleRatchet \<Rightarrow> bytes" where
  "ratchet_to_bytes r =
     (let entries = skipped_entries (skipped r) in
      dh_self r @ write_optional_key (dh_remote r) @ root_key r @
      write_optional_key (sending_chain r) @ write_optional_key (receiving_chain r) @
      varint_encode (send_count r) @ varint_encode (recv_count r) @
      varint_encode (previous_sending_chain_length r) @
      varint_encode (length entries) @ concat (map write_skipped_entry entries))"

definition read_fixed :: "bytes \<Rightarrow> nat \<Rightarrow> (CryptoError, bytes \<times> nat) res" where
  "read_fixed input off =
     (if off + 32 \<le> length input then Ok (take 32 (drop off input), off + 32)
      else Err (Decode ''truncated ratchet state''))"

definition read_flag :: "bytes \<Rightarrow> nat \<Rightarrow> (CryptoError, bool \<times> nat) res" where
  "read_flag input off =
     (if length input \<le> off then Err (Decode ''truncated ratchet state'')
      else if input ! off = 0 then Ok (False, off + 1)
      else if input ! off = 1 then Ok (True, off + 1)
      else Err (Decode ''invalid optional-field flag byte''))"

definition read_optional_key :: "bytes \<Rightarrow> nat \<Rightarrow> (CryptoError, bytes option \<times> nat) res" where
  "read_optional_key input off =
     bind_res (read_flag input off) (\<lambda>(flag, off).
       if flag then bind_res (read_fixed input off) (\<lambda>(key, off). Ok (Some key, off))
       else Ok (None, off))"

definition read_varint_u32 :: "bytes \<Rightarrow> nat \<Rightarrow> (CryptoError, nat \<times> nat) res" where
  "read_varint_u32 input off =
     (if length input < off then Err (Decode ''truncated ratchet state'')
      else bind_res (varint_decode (drop off input)) (\<lambda>(n, consumed). Ok (n mod 2 ^ 32, off + consumed)))"

definition read_skipped_entry :: "bytes \<Rightarrow> nat \<Rightarrow> (CryptoError, (bytes \<times> nat \<times> MessageKey) \<times> nat) res" where
  "read_skipped_entry input off =
     bind_res (read_fixed input off) (\<lambda>(dh, off).
     bind_res (read_varint_u32 input off) (\<lambda>(n, off).
     bind_res (read_fixed input off) (\<lambda>(key, off).
       Ok ((dh, n, key), off))))"

primrec read_skipped_entries ::
  "nat \<Rightarrow> bytes \<Rightarrow> nat \<Rightarrow> (CryptoError, (bytes \<times> nat \<times> MessageKey) list \<times> nat) res" where
  "read_skipped_entries 0 input off = Ok ([], off)"
| "read_skipped_entries (Suc count) input off =
     bind_res (read_skipped_entry input off) (\<lambda>(entry, off).
     bind_res (read_skipped_entries count input off) (\<lambda>(entries, off).
       Ok (entry # entries, off)))"

definition ratchet_from_bytes :: "Primitives \<Rightarrow> bytes \<Rightarrow> (CryptoError, DoubleRatchet) res" where
  "ratchet_from_bytes P input =
     bind_res (read_fixed input 0) (\<lambda>(secret, off).
     bind_res (read_optional_key input off) (\<lambda>(remote, off).
     bind_res (read_fixed input off) (\<lambda>(root, off).
     bind_res (read_optional_key input off) (\<lambda>(sending, off).
     bind_res (read_optional_key input off) (\<lambda>(receiving, off).
     bind_res (read_varint_u32 input off) (\<lambda>(sent, off).
     bind_res (read_varint_u32 input off) (\<lambda>(received, off).
     bind_res (read_varint_u32 input off) (\<lambda>(previous, off).
     bind_res (read_varint_u32 input off) (\<lambda>(skipped_count, off).
     bind_res (read_skipped_entries skipped_count input off) (\<lambda>(entries, off).
       Ok \<lparr> dh_self = secret, dh_self_public = x_public P secret, dh_remote = remote,
            root_key = root, sending_chain = sending, receiving_chain = receiving,
            send_count = sent, recv_count = received, previous_sending_chain_length = previous,
            skipped = skipped_from_entries entries \<rparr>))))))))))"

subsection \<open>The readers invert the writers\<close>

interpretation fixed: reader id read_fixed "\<lambda>k. length k = 32"
  by unfold_locales (simp add: read_fixed_def)

interpretation optional: reader write_optional_key read_optional_key "\<lambda>k. \<forall>x \<in> set_option k. length x = 32"
proof
  fix k :: "bytes option" and pre rest assume *: "\<forall>x \<in> set_option k. length x = 32"
  have flag: "read_flag (pre @ f # xs) (length pre) =
      (if f = 0 then Ok (False, length pre + 1) else if f = 1 then Ok (True, length pre + 1)
       else Err (Decode ''invalid optional-field flag byte''))" for f xs
    by (simp add: read_flag_def)
  show "read_optional_key (pre @ write_optional_key k @ rest) (length pre) =
      Ok (k, length pre + length (write_optional_key k))"
  proof (cases k)
    case (Some x)
    have "read_fixed ((pre @ [1]) @ x @ rest) (length (pre @ [1])) = Ok (x, length (pre @ [1]) + length x)"
      using fixed.read_written [of x "pre @ [1]" rest] * Some by simp
    then show ?thesis by (simp add: read_optional_key_def write_optional_key_def Some flag)
  qed (simp add: read_optional_key_def write_optional_key_def flag)
qed

interpretation u32: reader varint_encode read_varint_u32 "\<lambda>n. n < 2 ^ 32"
proof
  fix n :: nat and pre rest assume n: "n < 2 ^ 32"
  then have "varint_decode (varint_encode n @ rest) = Ok (n, length (varint_encode n))"
    by (intro varint.decode_encode) simp
  then show "read_varint_u32 (pre @ varint_encode n @ rest) (length pre) = Ok (n, length pre + length (varint_encode n))"
    using n by (simp add: read_varint_u32_def)
qed

definition wf_entry :: "bytes \<times> nat \<times> MessageKey \<Rightarrow> bool" where
  "wf_entry e \<longleftrightarrow> (case e of (dh, n, key) \<Rightarrow> length dh = 32 \<and> n < 2 ^ 32 \<and> length key = 32)"

interpretation entry: reader write_skipped_entry read_skipped_entry wf_entry
proof
  fix e :: "bytes \<times> nat \<times> MessageKey" and pre rest assume wf: "wf_entry e"
  obtain dh n key where e: "e = (dh, n, key)" by (metis prod.exhaust)
  have lens: "length dh = 32" "n < 2 ^ 32" "length key = 32" using wf by (auto simp: wf_entry_def e)
  let ?n = "varint_encode n"
  have "read_skipped_entry (pre @ dh @ ?n @ key @ rest) (length pre) =
      Ok ((dh, n, key), length pre + (32 + (length ?n + 32)))"
    using fixed.read_written [OF lens(1), of pre "?n @ key @ rest"]
      u32.read_written [OF lens(2), of "pre @ dh" "key @ rest"]
      fixed.read_written [OF lens(3), of "pre @ dh @ ?n" rest] lens
    by (simp add: read_skipped_entry_def add.assoc)
  then show "read_skipped_entry (pre @ write_skipped_entry e @ rest) (length pre) =
      Ok (e, length pre + length (write_skipped_entry e))"
    using lens by (simp add: e write_skipped_entry_def)
qed

lemma read_entries_then:
  "\<lbrakk>\<forall>e \<in> set es. wf_entry e; remaining input off (concat (map write_skipped_entry es) @ rest);
    \<And>off'. remaining input off' rest \<Longrightarrow> f (es, off') = res\<rbrakk>
    \<Longrightarrow> bind_res (read_skipped_entries (length es) input off) f = res"
proof (induction es arbitrary: off f)
  case (Cons e es)
  have rem: "remaining input off (write_skipped_entry e @ concat (map write_skipped_entry es) @ rest)"
    using Cons.prems(2) by simp
  have "bind_res (read_skipped_entry input off) (\<lambda>(entry, off).
      bind_res (bind_res (read_skipped_entries (length es) input off) (\<lambda>(entries, off).
        Ok (entry # entries, off))) f) = res"
    by (rule entry.read_then [OF _ rem])
      (use Cons.prems(1,3) in \<open>auto simp: bind_assoc split_beta intro!: Cons.IH\<close>)
  then show ?case by (simp add: bind_assoc case_prod_beta')
qed simp

definition wf_ratchet :: "Primitives \<Rightarrow> DoubleRatchet \<Rightarrow> bool" where
  "wf_ratchet P r \<longleftrightarrow> length (dh_self r) = 32 \<and> dh_self_public r = x_public P (dh_self r) \<and>
     (\<forall>x \<in> set_option (dh_remote r). length x = 32) \<and> length (root_key r) = 32 \<and>
     (\<forall>x \<in> set_option (sending_chain r). length x = 32) \<and>
     (\<forall>x \<in> set_option (receiving_chain r). length x = 32) \<and>
     send_count r < 2 ^ 32 \<and> recv_count r < 2 ^ 32 \<and> previous_sending_chain_length r < 2 ^ 32 \<and>
     skipped_ok (skipped r) \<and> length (skipped r) < 2 ^ 32 \<and>
     (\<forall>e \<in> set (skipped_entries (skipped r)). wf_entry e)"

text \<open>A persisted ratchet is restored exactly, whatever follows it in the buffer.\<close>

lemma ratchet_roundtrip:
  assumes "wf_ratchet P r"
  shows "ratchet_from_bytes P (ratchet_to_bytes r @ rest) = Ok r"
proof -
  have wf: "length (dh_self r) = 32" "\<forall>x \<in> set_option (dh_remote r). length x = 32" "length (root_key r) = 32"
    "\<forall>x \<in> set_option (sending_chain r). length x = 32" "\<forall>x \<in> set_option (receiving_chain r). length x = 32"
    "send_count r < 2 ^ 32" "recv_count r < 2 ^ 32" "previous_sending_chain_length r < 2 ^ 32"
    "\<forall>e \<in> set (skipped_entries (skipped r)). wf_entry e"
    and ok: "skipped_ok (skipped r)" and public: "dh_self_public r = x_public P (dh_self r)"
    using assms unfolding wf_ratchet_def by blast+
  have few: "length (skipped_entries (skipped r)) < 2 ^ 32"
    using assms by (simp add: wf_ratchet_def skipped_entries_def)
  have "remaining (ratchet_to_bytes r @ rest) 0 (ratchet_to_bytes r @ rest)" by (rule remaining_start)
  then have start: "remaining (ratchet_to_bytes r @ rest) 0 (id (dh_self r) @ write_optional_key (dh_remote r) @
      id (root_key r) @ write_optional_key (sending_chain r) @ write_optional_key (receiving_chain r) @
      varint_encode (send_count r) @ varint_encode (recv_count r) @
      varint_encode (previous_sending_chain_length r) @ varint_encode (length (skipped_entries (skipped r))) @
      concat (map write_skipped_entry (skipped_entries (skipped r))) @ rest)"
    by (simp only: ratchet_to_bytes_def Let_def append_assoc id_apply)
  show ?thesis
    unfolding ratchet_from_bytes_def
    apply (rule fixed.read_then [OF wf(1) start], unfold prod.case)
    apply (rule optional.read_then [OF wf(2)], assumption, unfold prod.case)
    apply (rule fixed.read_then [OF wf(3)], assumption, unfold prod.case)
    apply (rule optional.read_then [OF wf(4)], assumption, unfold prod.case)
    apply (rule optional.read_then [OF wf(5)], assumption, unfold prod.case)
    apply (rule u32.read_then [OF wf(6)], assumption, unfold prod.case)
    apply (rule u32.read_then [OF wf(7)], assumption, unfold prod.case)
    apply (rule u32.read_then [OF wf(8)], assumption, unfold prod.case)
    apply (rule u32.read_then [OF few], assumption, unfold prod.case)
    apply (rule read_entries_then [OF wf(9)], assumption, unfold prod.case)
    by (simp add: skipped_entries_roundtrip [OF ok] public [symmetric])
qed

text \<open>Whatever bytes a ratchet is read from, its fields have their sizes. The number of skipped keys is
  only bounded by the width of its count, not by the cap that the running ratchet keeps.\<close>

lemma read_fixed_length: "read_fixed input off = Ok (k, off') \<Longrightarrow> length k = 32"
  by (auto simp: read_fixed_def split: if_splits)

lemma read_optional_length: "read_optional_key input off = Ok (k, off') \<Longrightarrow> \<forall>x \<in> set_option k. length x = 32"
  by (auto simp: read_optional_key_def bind_res_Ok split: if_splits dest: read_fixed_length)

lemma read_u32_bound: "read_varint_u32 input off = Ok (n, off') \<Longrightarrow> n < 2 ^ 32"
  by (auto simp: read_varint_u32_def bind_res_Ok split: if_splits)

lemma read_entries_wf:
  "read_skipped_entries count input off = Ok (es, off') \<Longrightarrow> length es = count \<and> (\<forall>e \<in> set es. wf_entry e)"
proof (induction count arbitrary: off es off')
  case (Suc count)
  obtain e o1 es' o2 where e: "read_skipped_entry input off = Ok (e, o1)" and es: "read_skipped_entries count input o1 = Ok (es', o2)"
    and "es = e # es'" using Suc.prems by (auto simp: bind_res_Ok)
  moreover have "wf_entry e"
    using e by (auto simp: read_skipped_entry_def bind_res_Ok wf_entry_def dest!: read_fixed_length read_u32_bound)
  ultimately show ?case using Suc.IH [OF es] by simp
qed simp

lemma from_entries_wf:
  assumes "skipped_ok st" and "\<forall>e \<in> set (skipped_entries st). wf_entry e" and "\<forall>e \<in> set es. wf_entry e"
  shows "skipped_ok (foldl (\<lambda>st (dh, n, key). AList.update (dh, n) key st) st es) \<and>
    length (foldl (\<lambda>st (dh, n, key). AList.update (dh, n) key st) st es) \<le> length st + length es \<and>
    (\<forall>e \<in> set (skipped_entries (foldl (\<lambda>st (dh, n, key). AList.update (dh, n) key st) st es)). wf_entry e)"
  using assms
proof (induction es arbitrary: st)
  case (Cons e es)
  obtain dh n key where e: "e = (dh, n, key)" by (cases e)
  have "set (AList.update (dh, n) key st) \<subseteq> insert ((dh, n), key) (set st)" by (induction st) auto
  then have "skipped_ok (AList.update (dh, n) key st)" "\<forall>e \<in> set (skipped_entries (AList.update (dh, n) key st)). wf_entry e"
    using Cons.prems by (fastforce simp: skipped_ok_def distinct_update skipped_entries_def e)+
  moreover have "length (AList.update (dh, n) key st) \<le> Suc (length st)" by (induction st) auto
  ultimately show ?case using Cons.IH [of "AList.update (dh, n) key st"] Cons.prems(3) by (auto simp: e)
qed simp

lemma ratchet_read_wf:
  assumes "ratchet_from_bytes P bs = Ok r"
  shows "wf_ratchet P r"
proof -
  obtain secret remote root sending receiving sent received previous es n o1 o2 o3 o4 o5 o6 o7 o8 o9 o10 where
    parts: "read_fixed bs 0 = Ok (secret, o1)" "read_optional_key bs o1 = Ok (remote, o2)" "read_fixed bs o2 = Ok (root, o3)"
      "read_optional_key bs o3 = Ok (sending, o4)" "read_optional_key bs o4 = Ok (receiving, o5)"
      "read_varint_u32 bs o5 = Ok (sent, o6)" "read_varint_u32 bs o6 = Ok (received, o7)" "read_varint_u32 bs o7 = Ok (previous, o8)"
      "read_varint_u32 bs o8 = Ok (n, o9)" "read_skipped_entries n bs o9 = Ok (es, o10)"
    and r: "r = \<lparr> dh_self = secret, dh_self_public = x_public P secret, dh_remote = remote,
            root_key = root, sending_chain = sending, receiving_chain = receiving,
            send_count = sent, recv_count = received, previous_sending_chain_length = previous,
            skipped = skipped_from_entries es \<rparr>"
    using assms by (auto simp: ratchet_from_bytes_def bind_res_Ok)
  have es: "length es = n" "\<forall>e \<in> set es. wf_entry e" using read_entries_wf [OF parts(10)] by simp_all
  have st: "skipped_ok (skipped_from_entries es)" "length (skipped_from_entries es) \<le> n"
    "\<forall>e \<in> set (skipped_entries (skipped_from_entries es)). wf_entry e"
    using from_entries_wf [of "[]" es] es by (auto simp: skipped_from_entries_def skipped_ok_def skipped_entries_def)
  show ?thesis
    using st read_u32_bound [OF parts(9)] read_u32_bound [OF parts(6)] read_u32_bound [OF parts(7)] read_u32_bound [OF parts(8)]
      read_fixed_length [OF parts(1)] read_fixed_length [OF parts(3)]
      read_optional_length [OF parts(2)] read_optional_length [OF parts(4)] read_optional_length [OF parts(5)]
    by (simp add: wf_ratchet_def r)
qed

end
