(* ===== verification/Prekeys.thy ===== *)
theory Prekeys
  imports Ratchet
begin

text \<open>
  \<^verbatim>\<open>packages/crypto-core/src/identity/agreement_key.rs\<close> and \<^verbatim>\<open>prekey\<close>: the long-term agreement
  key, the contact card (\<^verbatim>\<open>bundle.rs\<close>) and the store of prekeys (\<^verbatim>\<open>store.rs\<close>).
\<close>

subsection \<open>Agreement keys\<close>

definition AGREEMENT_KEY_CONTEXT :: bytes where
  "AGREEMENT_KEY_CONTEXT = ascii ''SpiritChat-AgreementKey-v1''"

datatype AgreementKeyPair = AgreementKeyPair (agreement_secret: bytes)

record SignedAgreementKeyPublic =
  ak_public :: bytes
  ak_signature :: bytes

definition signing_message :: "bytes \<Rightarrow> bytes" where
  "signing_message key = AGREEMENT_KEY_CONTEXT @ key"

definition agreement_public :: "Primitives \<Rightarrow> AgreementKeyPair \<Rightarrow> bytes" where
  "agreement_public P kp = x_public P (agreement_secret kp)"

definition agreement_sign_with ::
  "Primitives \<Rightarrow> AgreementKeyPair \<Rightarrow> IdentityKeyPair \<Rightarrow> SignedAgreementKeyPublic" where
  "agreement_sign_with P kp identity =
     (let key = agreement_public P kp in
      \<lparr> ak_public = key, ak_signature = identity_sign P identity (signing_message key) \<rparr>)"

definition agreement_from_bytes :: "bytes \<Rightarrow> (CryptoError, AgreementKeyPair) res" where
  "agreement_from_bytes bs =
     (if length bs \<noteq> 32 then Err (InvalidKeyLength 32 (length bs)) else Ok (AgreementKeyPair bs))"

definition signed_agreement_verify ::
  "Primitives \<Rightarrow> SignedAgreementKeyPublic \<Rightarrow> IdentityPublicKey \<Rightarrow> (CryptoError, unit) res" where
  "signed_agreement_verify P key identity =
     identity_verify P identity (signing_message (ak_public key)) (ak_signature key)"

subsection \<open>Contact cards\<close>

record SignedPrekeyPublic =
  spk_public :: bytes
  spk_signature :: bytes

record PrekeyBundle =
  identity :: IdentityPublicKey
  identity_agreement_key :: SignedAgreementKeyPublic
  signed_prekey :: SignedPrekeyPublic
  one_time_prekey :: "bytes option"

definition SIGNED_PREKEY_CONTEXT :: bytes where
  "SIGNED_PREKEY_CONTEXT = ascii ''SpiritChat-SignedPrekey-v1''"

definition bundle_verify :: "Primitives \<Rightarrow> PrekeyBundle \<Rightarrow> (CryptoError, unit) res" where
  "bundle_verify P b =
     bind_res (signed_agreement_verify P (identity_agreement_key b) (identity b)) (\<lambda>_.
       identity_verify P (identity b) (SIGNED_PREKEY_CONTEXT @ spk_public (signed_prekey b))
         (spk_signature (signed_prekey b)))"

definition bundle_to_bytes :: "PrekeyBundle \<Rightarrow> bytes" where
  "bundle_to_bytes b =
     verifying_key (identity b) @ ak_public (identity_agreement_key b) @ ak_signature (identity_agreement_key b) @
     spk_public (signed_prekey b) @ spk_signature (signed_prekey b) @
     (case one_time_prekey b of Some otp \<Rightarrow> 1 # otp | None \<Rightarrow> [0])"

text \<open>\<^verbatim>\<open>&input[a..b]\<close> within the bounds the code has checked, and \<^verbatim>\<open>input.get(a..b)\<close>.\<close>

definition slice :: "nat \<Rightarrow> nat \<Rightarrow> bytes \<Rightarrow> bytes" where
  "slice a b input = take (b - a) (drop a input)"

definition get_slice :: "nat \<Rightarrow> nat \<Rightarrow> bytes \<Rightarrow> bytes option" where
  "get_slice a b input = (if a \<le> b \<and> b \<le> length input then Some (slice a b input) else None)"

definition bundle_from_bytes :: "Primitives \<Rightarrow> bytes \<Rightarrow> (CryptoError, PrekeyBundle) res" where
  "bundle_from_bytes P input =
     (if length input < 32 + 32 + 64 + 32 + 64 + 1 then Err (Decode ''contact card too short'')
      else
        bind_res (identity_public_from_bytes P (slice 0 32 input)) (\<lambda>pk.
        bind_res (x25519_public_from_bytes (slice 32 64 input)) (\<lambda>agreement.
        bind_res (x25519_public_from_bytes (slice 128 160 input)) (\<lambda>spk.
        bind_res
          (if input ! 224 = 0 then Ok None
           else if input ! 224 = 1 then
             bind_res (ok_or (Decode ''truncated one-time prekey'') (get_slice 225 257 input)) (\<lambda>otp_bytes.
             bind_res (x25519_public_from_bytes otp_bytes) (\<lambda>otp. Ok (Some otp)))
           else Err (Decode ''invalid one-time-prekey flag byte'')) (\<lambda>otp.
          Ok \<lparr> identity = pk,
               identity_agreement_key = \<lparr> ak_public = agreement, ak_signature = slice 64 128 input \<rparr>,
               signed_prekey = \<lparr> spk_public = spk, spk_signature = slice 160 224 input \<rparr>,
               one_time_prekey = otp \<rparr>)))))"

definition sign_prekey :: "Primitives \<Rightarrow> IdentityKeyPair \<Rightarrow> bytes \<Rightarrow> bytes" where
  "sign_prekey P kp prekey_public = identity_sign P kp (SIGNED_PREKEY_CONTEXT @ prekey_public)"

subsection \<open>The prekey store\<close>

record PrekeyStore =
  signed_prekey_secret :: bytes
  signed_prekey_signature :: bytes
  available_one_time_secrets :: "bytes list"
  pending_one_time_secrets :: "bytes list"

text \<open>The random secrets, one for the signed prekey and one for each one-time prekey, are arguments.\<close>

definition prekey_generate :: "Primitives \<Rightarrow> IdentityKeyPair \<Rightarrow> bytes \<Rightarrow> bytes list \<Rightarrow> PrekeyStore" where
  "prekey_generate P kp random_secret random_one_time =
     \<lparr> signed_prekey_secret = random_secret,
       signed_prekey_signature = sign_prekey P kp (x_public P random_secret),
       available_one_time_secrets = random_one_time, pending_one_time_secrets = [] \<rparr>"

definition public_bundle ::
  "Primitives \<Rightarrow> IdentityPublicKey \<Rightarrow> SignedAgreementKeyPublic \<Rightarrow> PrekeyStore \<Rightarrow> PrekeyStore \<times> PrekeyBundle" where
  "public_bundle P pk agreement st =
     (let (st, otp) =
        (if available_one_time_secrets st = [] then (st, None)
         else
           let secret = last (available_one_time_secrets st) in
           (st\<lparr> available_one_time_secrets := butlast (available_one_time_secrets st),
                pending_one_time_secrets := pending_one_time_secrets st @ [secret] \<rparr>,
            Some (x_public P secret))) in
      (st, \<lparr> identity = pk, identity_agreement_key = agreement,
             signed_prekey = \<lparr> spk_public = x_public P (signed_prekey_secret st),
                               spk_signature = signed_prekey_signature st \<rparr>,
             one_time_prekey = otp \<rparr>))"

text \<open>\<^verbatim>\<open>position\<close> and \<^verbatim>\<open>remove\<close> of the first secret whose public key is the given one.\<close>

fun take_secret :: "Primitives \<Rightarrow> bytes \<Rightarrow> bytes list \<Rightarrow> bytes option \<times> bytes list" where
  "take_secret P key [] = (None, [])"
| "take_secret P key (secret # secrets) =
     (if x_canon P (x_public P secret) = key then (Some secret, secrets)
      else let (found, secrets) = take_secret P key secrets in (found, secret # secrets))"

definition take_one_time_secret :: "Primitives \<Rightarrow> bytes \<Rightarrow> PrekeyStore \<Rightarrow> bytes option \<times> PrekeyStore" where
  "take_one_time_secret P key st =
     (let (found, pending) = take_secret P (x_canon P key) (pending_one_time_secrets st) in
      (found, st\<lparr> pending_one_time_secrets := pending \<rparr>))"

definition write_secret_list :: "bytes list \<Rightarrow> bytes" where
  "write_secret_list secrets = varint_encode (length secrets) @ concat secrets"

definition prekey_to_bytes :: "PrekeyStore \<Rightarrow> bytes" where
  "prekey_to_bytes st =
     signed_prekey_secret st @ signed_prekey_signature st @
     write_secret_list (available_one_time_secrets st) @ write_secret_list (pending_one_time_secrets st)"

primrec read_secrets :: "nat \<Rightarrow> bytes \<Rightarrow> nat \<Rightarrow> (CryptoError, bytes list \<times> nat) res" where
  "read_secrets 0 input off = Ok ([], off)"
| "read_secrets (Suc count) input off =
     bind_res (ok_or (Decode ''truncated one-time prekey list'') (get_slice off (off + 32) input)) (\<lambda>secret.
     bind_res (read_secrets count input (off + 32)) (\<lambda>(secrets, off). Ok (secret # secrets, off)))"

text \<open>\<^verbatim>\<open>Vec::with_capacity(count)\<close> of 32-byte elements panics when the size exceeds \<^verbatim>\<open>isize::MAX\<close>.\<close>

definition read_secret_list :: "bytes \<Rightarrow> (CryptoError, bytes list \<times> nat) res" where
  "read_secret_list input =
     bind_res (varint_decode input) (\<lambda>(count, off).
       if 2 ^ 63 \<le> count * 32 then Panic else read_secrets count input off)"

definition prekey_from_bytes :: "bytes \<Rightarrow> (CryptoError, PrekeyStore) res" where
  "prekey_from_bytes input =
     (if length input < 32 + 64 then Err (Decode ''prekey store bytes too short'')
      else
        bind_res (read_secret_list (drop 96 input)) (\<lambda>(available, consumed).
        bind_res (read_secret_list (drop (96 + consumed) input)) (\<lambda>(pending, _).
          Ok \<lparr> signed_prekey_secret = slice 0 32 input, signed_prekey_signature = slice 32 96 input,
               available_one_time_secrets = available, pending_one_time_secrets = pending \<rparr>)))"


subsection \<open>The pool of keys handed out\<close>

definition pool_key :: "Primitives \<Rightarrow> bytes \<Rightarrow> bytes" where
  "pool_key P secret = x_canon P (x_public P secret)"

definition pool_lookup :: "Primitives \<Rightarrow> bytes list \<Rightarrow> bytes \<Rightarrow> bytes option" where
  "pool_lookup P secrets = map_of (map (\<lambda>s. (pool_key P s, s)) secrets)"

definition pool_ok :: "Primitives \<Rightarrow> bytes list \<Rightarrow> bool" where
  "pool_ok P secrets \<longleftrightarrow> distinct (map (pool_key P) secrets)"

definition pool_push :: "bytes \<Rightarrow> bytes \<Rightarrow> bytes list \<Rightarrow> (CryptoError, bytes list) res" where
  "pool_push key secret secrets = Ok (secrets @ [secret])"

lemma dom_pool_lookup: "dom (pool_lookup P secrets) = pool_key P ` set secrets"
  by (auto simp: pool_lookup_def dom_map_of_conv_image_fst image_image)

lemma pool_lookup_None: "pool_lookup P secrets key = None \<longleftrightarrow> (\<forall>s \<in> set secrets. pool_key P s \<noteq> key)"
  by (induction secrets) (auto simp: pool_lookup_def)

lemma take_secret_eq:
  "pool_ok P secrets \<Longrightarrow>
    take_secret P key secrets = (pool_lookup P secrets key, filter (\<lambda>s. pool_key P s \<noteq> key) secrets)"
proof (induction secrets)
  case (Cons s secrets)
  have "filter (\<lambda>s'. pool_key P s' \<noteq> pool_key P s) secrets = secrets"
    using Cons.prems by (simp add: pool_ok_def filter_id_conv) (metis imageI)
  then show ?case using Cons by (auto simp: pool_ok_def pool_lookup_def pool_key_def)
qed (simp add: pool_lookup_def)

lemma pool_lookup_filter: "pool_lookup P (filter (\<lambda>s. pool_key P s \<noteq> key) secrets) = (pool_lookup P secrets)(key := None)"
  by (induction secrets) (auto simp: pool_lookup_def)

interpretation pool: key_store pool_push "take_secret P" "pool_lookup P" "\<lambda>key secret. key = pool_key P secret" "pool_ok P" for P
proof
  fix secrets key secret secrets'
  assume "key = pool_key P secret" and new: "key \<notin> dom (pool_lookup P secrets)"
    and "pool_push key secret secrets = Ok secrets'" and ok: "pool_ok P secrets"
  then have e: "secrets' = secrets @ [secret]" "key = pool_key P secret" by (simp_all add: pool_push_def)
  have "key \<notin> pool_key P ` set secrets" using new by (simp add: dom_pool_lookup)
  then show "pool_ok P secrets'" using ok by (simp add: pool_ok_def e)
  show "pool_lookup P secrets' = (pool_lookup P secrets)(key \<mapsto> secret)"
    using new by (auto simp: pool_lookup_def e fun_eq_iff map_add_def domIff split: option.split)
qed (auto simp: take_secret_eq pool_lookup_filter pool_ok_def distinct_map_filter)

subsection \<open>Handing out and consuming\<close>

text \<open>A history of a store: cards handed out and one-time keys consumed, with the keys in the order
  they were handed out and consumed.\<close>

datatype prekey_event = HandOut | Consume bytes

fun prekey_run ::
  "Primitives \<Rightarrow> IdentityPublicKey \<Rightarrow> SignedAgreementKeyPublic \<Rightarrow> prekey_event list \<Rightarrow> PrekeyStore \<Rightarrow>
    PrekeyStore \<times> bytes list \<times> bytes list" where
  "prekey_run P pk ak [] st = (st, [], [])"
| "prekey_run P pk ak (HandOut # es) st =
     (let (st, b) = public_bundle P pk ak st; (st, handed, consumed) = prekey_run P pk ak es st in
      (st, (case one_time_prekey b of None \<Rightarrow> handed | Some k \<Rightarrow> x_canon P k # handed), consumed))"
| "prekey_run P pk ak (Consume key # es) st =
     (let (found, st) = take_one_time_secret P key st; (st, handed, consumed) = prekey_run P pk ak es st in
      (st, handed, (case found of None \<Rightarrow> consumed | Some s \<Rightarrow> x_canon P key # consumed)))"

definition store_pool :: "PrekeyStore \<Rightarrow> bytes list" where
  "store_pool st = available_one_time_secrets st @ pending_one_time_secrets st"

text \<open>One event: a bundle takes the last available secret, and a handshake at most one pending secret.\<close>

lemma bundle_hands_out:
  assumes "public_bundle P pk ak st = (st1, b)"
  obtains (none) "st1 = st" and "one_time_prekey b = None"
  | (one) xs x where "available_one_time_secrets st = xs @ [x]" and "available_one_time_secrets st1 = xs"
      and "pending_one_time_secrets st1 = pending_one_time_secrets st @ [x]" and "one_time_prekey b = Some (x_public P x)"
proof (cases "available_one_time_secrets st" rule: rev_cases)
  case Nil
  then show ?thesis using assms none by (auto simp: public_bundle_def)
next
  case (snoc xs x)
  then show ?thesis using assms by (intro one [of xs x]) (auto simp: public_bundle_def)
qed

lemma pool_ok_taken:
  assumes "pool_ok P (store_pool st)"
  shows "take_one_time_secret P key st = (pool_lookup P (pending_one_time_secrets st) (x_canon P key),
      st\<lparr> pending_one_time_secrets := filter (\<lambda>s. pool_key P s \<noteq> x_canon P key) (pending_one_time_secrets st) \<rparr>)"
    and "pool_ok P (store_pool (st\<lparr> pending_one_time_secrets := filter (\<lambda>s. pool_key P s \<noteq> k) (pending_one_time_secrets st) \<rparr>))"
proof -
  have "pool_ok P (pending_one_time_secrets st)" using assms by (simp add: pool_ok_def store_pool_def)
  then show "take_one_time_secret P key st = (pool_lookup P (pending_one_time_secrets st) (x_canon P key),
      st\<lparr> pending_one_time_secrets := filter (\<lambda>s. pool_key P s \<noteq> x_canon P key) (pending_one_time_secrets st) \<rparr>)"
    by (simp add: take_one_time_secret_def take_secret_eq)
  show "pool_ok P (store_pool (st\<lparr> pending_one_time_secrets := filter (\<lambda>s. pool_key P s \<noteq> k) (pending_one_time_secrets st) \<rparr>))"
    using assms by (auto simp: pool_ok_def store_pool_def distinct_map_filter)
qed

text \<open>C25: a one-time prekey is handed out at most once and consumed at most once, and only keys that
  were handed out are consumed, in every interleaving of cards and handshakes.\<close>

theorem one_time_prekeys_used_once:
  assumes "pool_ok P (store_pool st)" and "prekey_run P pk ak events st = (st', handed, consumed)"
  shows "distinct handed \<and> distinct consumed \<and>
    set handed \<subseteq> pool_key P ` set (available_one_time_secrets st) \<and>
    set consumed \<subseteq> pool_key P ` set (pending_one_time_secrets st) \<union> set handed"
  using assms
proof (induction P pk ak events st arbitrary: st' handed consumed rule: prekey_run.induct)
  case (2 P pk ak es st)
  obtain st1 b where out: "public_bundle P pk ak st = (st1, b)" by (cases "public_bundle P pk ak st")
  obtain st2 handed1 where run: "prekey_run P pk ak es st1 = (st2, handed1, consumed)"
    and handed: "handed = (case one_time_prekey b of None \<Rightarrow> handed1 | Some k \<Rightarrow> x_canon P k # handed1)"
    using "2.prems"(2) by (auto simp: out split: prod.splits)
  show ?case using out
  proof (cases rule: bundle_hands_out)
    case none
    then show ?thesis using "2.IH" [OF out [symmetric] refl _ run] "2.prems"(1) handed by simp
  next
    case (one xs x)
    have "pool_ok P (store_pool st1)" using "2.prems"(1) by (auto simp: pool_ok_def store_pool_def one)
    from "2.IH" [OF out [symmetric] refl this run] show ?thesis
      using "2.prems"(1) handed by (auto simp: one pool_key_def pool_ok_def store_pool_def)
  qed
next
  case (3 P pk ak key es st)
  let ?c = "x_canon P key" and ?pending = "pending_one_time_secrets st"
  note tk = pool_ok_taken [OF "3.prems"(1)]
  obtain st2 consumed1 where run: "prekey_run P pk ak es (st\<lparr> pending_one_time_secrets := filter (\<lambda>s. pool_key P s \<noteq> ?c) ?pending \<rparr>) = (st2, handed, consumed1)"
    and consumed: "consumed = (case pool_lookup P ?pending ?c of None \<Rightarrow> consumed1 | Some s \<Rightarrow> ?c # consumed1)"
    using "3.prems"(2) by (auto simp: tk(1) split: prod.splits)
  note IH = "3.IH" [OF tk(1) [symmetric] refl tk(2) run]
  show ?case
  proof (cases "pool_lookup P ?pending ?c")
    case None
    then show ?thesis using IH consumed by auto
  next
    case (Some s)
    then have c: "?c \<in> pool_key P ` set ?pending" by (metis domI dom_pool_lookup)
    then have "?c \<notin> pool_key P ` set (available_one_time_secrets st)"
      using "3.prems"(1) by (auto simp: pool_ok_def store_pool_def)
    then show ?thesis using IH c by (auto simp: consumed Some)
  qed
qed simp

lemma one_time_prekeys_used_once_witness:
  "\<exists>st' handed consumed. prekey_run toy (IdentityPublicKey []) \<lparr> ak_public = [], ak_signature = [] \<rparr>
      [HandOut, Consume (x_public toy [2]), HandOut, Consume (x_public toy [2]), HandOut]
      \<lparr> signed_prekey_secret = [9], signed_prekey_signature = [], available_one_time_secrets = [[1], [2]],
        pending_one_time_secrets = [] \<rparr> = (st', handed, consumed) \<and>
    handed = [x_public toy [2], x_public toy [1]] \<and> consumed = [x_public toy [2]] \<and>
    distinct handed \<and> distinct consumed"
proof -
  let ?st = "\<lparr> signed_prekey_secret = [9], signed_prekey_signature = [], available_one_time_secrets = [[1], [2]],
        pending_one_time_secrets = [] \<rparr>"
  have run: "prekey_run toy (IdentityPublicKey []) \<lparr> ak_public = [], ak_signature = [] \<rparr>
      [HandOut, Consume (x_public toy [2]), HandOut, Consume (x_public toy [2]), HandOut] ?st =
    (?st\<lparr> available_one_time_secrets := [], pending_one_time_secrets := [[1]] \<rparr>,
      [x_public toy [2], x_public toy [1]], [x_public toy [2]])"
    by (simp add: public_bundle_def take_one_time_secret_def Let_def)
  have "pool_ok toy (store_pool ?st)" by (simp add: pool_ok_def store_pool_def pool_key_def)
  from one_time_prekeys_used_once [OF this run] show ?thesis using run by blast
qed

subsection \<open>Stored forms\<close>

lemma read_secrets_written:
  "\<forall>s \<in> set ss. length s = 32 \<Longrightarrow>
    read_secrets (length ss) (pre @ concat ss @ rest) (length pre) = Ok (ss, length pre + length (concat ss))"
proof (induction ss arbitrary: pre)
  case (Cons s ss)
  have "read_secrets (length ss) ((pre @ s) @ concat ss @ rest) (length (pre @ s)) =
      Ok (ss, length (pre @ s) + length (concat ss))"
    by (rule Cons.IH) (use Cons.prems in simp)
  then show ?case using Cons.prems by (simp add: get_slice_def slice_def)
qed simp

interpretation secret_list: codec write_secret_list read_secret_list
  "\<lambda>ss. length ss < 2 ^ 58 \<and> (\<forall>s \<in> set ss. length s = 32)"
proof
  fix ss :: "bytes list" and rest assume ss: "length ss < 2 ^ 58 \<and> (\<forall>s \<in> set ss. length s = 32)"
  have "length ss < 2 ^ 64" using conjunct1 [OF ss] by (rule less_trans) simp
  then have count: "varint_decode (varint_encode (length ss) @ concat ss @ rest) = Ok (length ss, length (varint_encode (length ss)))"
    by (rule varint.decode_encode)
  show "read_secret_list (write_secret_list ss @ rest) = Ok (ss, length (write_secret_list ss))"
    using ss read_secrets_written [of ss "varint_encode (length ss)" rest]
    by (simp add: read_secret_list_def write_secret_list_def count)
qed

definition wf_prekey_store :: "PrekeyStore \<Rightarrow> bool" where
  "wf_prekey_store st \<longleftrightarrow> length (signed_prekey_secret st) = 32 \<and> length (signed_prekey_signature st) = 64 \<and>
     length (available_one_time_secrets st) < 2 ^ 58 \<and> length (pending_one_time_secrets st) < 2 ^ 58 \<and>
     (\<forall>s \<in> set (store_pool st). length s = 32)"

text \<open>C31: a saved prekey store is restored exactly, with both pools in their order, so a card handed out
  before a restart can still be answered after it.\<close>

theorem prekey_store_roundtrip:
  assumes "wf_prekey_store st"
  shows "prekey_from_bytes (prekey_to_bytes st) = Ok st"
proof -
  let ?a = "write_secret_list (available_one_time_secrets st)" and ?p = "write_secret_list (pending_one_time_secrets st)"
  have len: "length (signed_prekey_secret st) = 32" "length (signed_prekey_signature st) = 64"
    and av: "length (available_one_time_secrets st) < 2 ^ 58 \<and> (\<forall>s \<in> set (available_one_time_secrets st). length s = 32)"
    and pe: "length (pending_one_time_secrets st) < 2 ^ 58 \<and> (\<forall>s \<in> set (pending_one_time_secrets st). length s = 32)"
    using assms unfolding wf_prekey_store_def store_pool_def set_append by blast+
  have "read_secret_list (?a @ ?p) = Ok (available_one_time_secrets st, length ?a)"
    and "read_secret_list ?p = Ok (pending_one_time_secrets st, length ?p)"
    using secret_list.decode_encode [OF av, of ?p] secret_list.decode_exact [OF pe] by blast+
  then show ?thesis using len by (simp add: prekey_from_bytes_def prekey_to_bytes_def slice_def)
qed

lemma prekey_store_roundtrip_witness:
  "prekey_from_bytes (prekey_to_bytes \<lparr> signed_prekey_secret = replicate 32 1, signed_prekey_signature = replicate 64 2,
      available_one_time_secrets = [replicate 32 3], pending_one_time_secrets = [replicate 32 4, replicate 32 5] \<rparr>) =
    Ok \<lparr> signed_prekey_secret = replicate 32 1, signed_prekey_signature = replicate 64 2,
      available_one_time_secrets = [replicate 32 3], pending_one_time_secrets = [replicate 32 4, replicate 32 5] \<rparr>"
  by (rule prekey_store_roundtrip) (simp add: wf_prekey_store_def store_pool_def)

text \<open>Reading a store never loops, but a corrupted count of one-time keys of 2 to the 58 or more
  makes it panic instead of returning an error.\<close>

theorem prekey_store_oversized_count_panics:
  assumes "length pre = 96" and "2 ^ 58 \<le> count" and "count < 2 ^ 64"
  shows "prekey_from_bytes (pre @ varint_encode count @ rest) = Panic"
  using assms varint.decode_encode [of count rest]
  by (simp add: prekey_from_bytes_def read_secret_list_def)

lemma prekey_store_oversized_count_panics_witness:
  "prekey_from_bytes (replicate 96 0 @ varint_encode (2 ^ 60) @ []) = Panic"
  by (rule prekey_store_oversized_count_panics) simp_all

definition wf_bundle :: "Primitives \<Rightarrow> PrekeyBundle \<Rightarrow> bool" where
  "wf_bundle P b \<longleftrightarrow> length (verifying_key (identity b)) = 32 \<and> vk_valid P (verifying_key (identity b)) \<and>
     length (ak_public (identity_agreement_key b)) = 32 \<and> length (ak_signature (identity_agreement_key b)) = 64 \<and>
     length (spk_public (signed_prekey b)) = 32 \<and> length (spk_signature (signed_prekey b)) = 64 \<and>
     (\<forall>k \<in> set_option (one_time_prekey b). length k = 32)"

text \<open>A contact card read back from the bytes of a QR code is the card that was written.\<close>

theorem bundle_roundtrip:
  assumes "wf_bundle P b"
  shows "bundle_from_bytes P (bundle_to_bytes b @ rest) = Ok b"
  using assms
  by (cases b, cases "identity b", cases "one_time_prekey b")
    (auto simp: wf_bundle_def bundle_from_bytes_def bundle_to_bytes_def slice_def get_slice_def
      identity_public_from_bytes_def x25519_public_from_bytes_def nth_append)


lemma bundle_roundtrip_witness:
  "bundle_from_bytes toy (bundle_to_bytes \<lparr> identity = IdentityPublicKey (replicate 32 1),
      identity_agreement_key = \<lparr> ak_public = replicate 32 2, ak_signature = replicate 64 3 \<rparr>,
      signed_prekey = \<lparr> spk_public = replicate 32 4, spk_signature = replicate 64 5 \<rparr>,
      one_time_prekey = Some (replicate 32 6) \<rparr> @ [7]) =
    Ok \<lparr> identity = IdentityPublicKey (replicate 32 1),
      identity_agreement_key = \<lparr> ak_public = replicate 32 2, ak_signature = replicate 64 3 \<rparr>,
      signed_prekey = \<lparr> spk_public = replicate 32 4, spk_signature = replicate 64 5 \<rparr>,
      one_time_prekey = Some (replicate 32 6) \<rparr>"
  by (rule bundle_roundtrip) (simp add: wf_bundle_def)

end
