(* ===== verification/Session.thy ===== *)
theory Session
  imports Ratchet
begin

text \<open>
  What two Double Ratchets promise each other: messages of one turn are decrypted in whatever order
  they arrive, replies pass the turn, a message that fails changes nothing, and a message key is
  gone once used. The relations between two states below are the specification; the operations are
  those of \<^theory_text>\<open>Ratchet\<close>.
\<close>

subsection \<open>The keys of one chain\<close>

primrec chain_at :: "Primitives \<Rightarrow> ChainKey \<Rightarrow> nat \<Rightarrow> ChainKey" where
  "chain_at P ck 0 = ck"
| "chain_at P ck (Suc n) = snd (chain_ratchet P (chain_at P ck n))"

definition message_key :: "Primitives \<Rightarrow> ChainKey \<Rightarrow> nat \<Rightarrow> MessageKey" where
  "message_key P ck n = fst (chain_ratchet P (chain_at P ck n))"

lemma chain_ratchet_at: "chain_ratchet P (chain_at P ck n) = (message_key P ck n, chain_at P ck (Suc n))"
  by (simp add: message_key_def)

declare chain_at.simps(2) [simp del]

definition skipped_range :: "Primitives \<Rightarrow> ChainKey \<Rightarrow> bytes \<Rightarrow> nat \<Rightarrow> nat \<Rightarrow> SkippedKeyStore" where
  "skipped_range P ck remote_key m n = map (\<lambda>i. ((remote_key, i), message_key P ck i)) [m..<n]"

lemma map_of_skipped_range:
  "map_of (skipped_range P ck k m n) (k', i) = (if k' = k \<and> m \<le> i \<and> i < n then Some (message_key P ck i) else None)"
proof -
  have "map_of (map (\<lambda>i. ((k, i), message_key P ck i)) xs) (k', i) =
      (if k' = k \<and> i \<in> set xs then Some (message_key P ck i) else None)" for xs
    by (induction xs) auto
  then show ?thesis by (simp add: skipped_range_def)
qed

lemma length_skipped_range [simp]: "length (skipped_range P ck k m n) = n - m"
  by (simp add: skipped_range_def)

lemma map_of_append_range:
  assumes "\<forall>i \<ge> m. (k, i) \<notin> dom (map_of st)"
  shows "map_of (st @ skipped_range P ck k m n) (k', i) =
    (if k' = k \<and> m \<le> i \<and> i < n then Some (message_key P ck i) else map_of st (k', i))"
  using assms by (auto simp: map_add_def map_of_skipped_range split: option.split)

lemma skipped_ok_append_range:
  assumes "skipped_ok st" and "\<forall>i \<ge> m. (k, i) \<notin> dom (map_of st)"
  shows "skipped_ok (st @ skipped_range P ck k m n)"
proof -
  have "map fst (skipped_range P ck k m n) = map (Pair k) [m..<n]" by (simp add: skipped_range_def comp_def)
  moreover have "(k, i) \<notin> fst ` set st" if "m \<le> i" for i
    using assms(2) that by (simp add: dom_map_of_conv_image_fst)
  then have "set (map fst st) \<inter> set (map (Pair k) [m..<n]) = {}" by fastforce
  moreover have "distinct (map (Pair k) [m..<n])" by (simp add: distinct_map inj_on_def)
  ultimately show ?thesis using assms(1) by (simp only: skipped_ok_def map_append distinct_append)
qed

lemma skip_loop_range:
  assumes "receiving = chain_at P ck (recv_count r)"
    and "\<forall>n \<ge> recv_count r. (k, n) \<notin> dom (map_of (skipped r))"
    and "length (skipped r) + (until - recv_count r) \<le> MAX_SKIPPED_KEYS"
  shows "skip_loop P k until receiving r =
    Ok (chain_at P ck (max until (recv_count r)),
        r\<lparr> skipped := skipped r @ skipped_range P ck k (recv_count r) until, recv_count := max until (recv_count r) \<rparr>)"
  using assms
proof (induction P k until receiving r rule: skip_loop.induct)
  case (1 P k until receiving r)
  show ?case
  proof (cases "recv_count r < until")
    case True
    let ?n = "recv_count r"
    let ?st = "skipped r @ [((k, ?n), message_key P ck ?n)]"
    let ?r = "r\<lparr> skipped := ?st, recv_count := ?n + 1 \<rparr>"
    have ins: "skipped_insert (k, ?n) (message_key P ck ?n) (skipped r) = Ok ?st"
      using "1.prems"(2,3) True by (intro skipped_insert_fresh) auto
    have "skip_loop P k until (chain_at P ck (Suc ?n)) ?r =
        Ok (chain_at P ck (max until (recv_count ?r)),
            ?r\<lparr> skipped := skipped ?r @ skipped_range P ck k (recv_count ?r) until,
                recv_count := max until (recv_count ?r) \<rparr>)"
      by (rule "1.IH" [OF True chain_ratchet_at [of P ck ?n, folded "1.prems"(1), symmetric] refl ins])
        (use "1.prems"(2,3) True in \<open>auto simp: dom_map_of_conv_image_fst\<close>)
    moreover have "skipped_range P ck k ?n until = ((k, ?n), message_key P ck ?n) # skipped_range P ck k (?n + 1) until"
      using True by (simp add: skipped_range_def upt_conv_Cons)
    moreover have "max until (recv_count ?r) = until" and "max until ?n = until" using True by simp_all
    ultimately show ?thesis using True ins
      by (subst skip_loop.simps) (simp add: "1.prems"(1) chain_ratchet_at)
  next
    case False
    then show ?thesis using "1.prems"(1) by (subst skip_loop.simps) (simp add: skipped_range_def max_def)
  qed
qed


subsection \<open>Messages of one chain in any order\<close>

text \<open>The messages numbered \<open>N\<close> (below \<open>b\<close>) of the chain that starts at \<open>ck\<close> under the remote key
  \<open>k\<close> can still be received.\<close>

definition deliverable ::
  "Primitives \<Rightarrow> ChainKey \<Rightarrow> bytes \<Rightarrow> nat set \<Rightarrow> nat \<Rightarrow> DoubleRatchet \<Rightarrow> bool" where
  "deliverable P ck k N b r \<longleftrightarrow>
     dh_remote r = Some k \<and> receiving_chain r = Some (chain_at P ck (recv_count r)) \<and>
     skipped_ok (skipped r) \<and> (\<forall>n \<in> N. n < b) \<and> b < 2 ^ 32 \<and>
     length (skipped r) + (b - recv_count r) \<le> MAX_SKIPPED_KEYS \<and>
     (\<forall>n \<ge> recv_count r. (k, n) \<notin> dom (map_of (skipped r))) \<and>
     (\<forall>n \<in> N. n < recv_count r \<longrightarrow> map_of (skipped r) (k, n) = Some (message_key P ck n))"

text \<open>A message that opens under the key of its number.\<close>

definition sealed ::
  "Primitives \<Rightarrow> ChainKey \<Rightarrow> bytes \<Rightarrow> bytes \<Rightarrow> nat \<Rightarrow> MessageHeader \<times> bytes \<Rightarrow> bytes \<Rightarrow> bool" where
  "sealed P ck k aad n m pt \<longleftrightarrow>
     dh_public (fst m) = k \<and> message_number (fst m) = n \<and>
     aead_decrypt P (message_key P ck n) (snd m) (full_associated_data aad (fst m)) = Ok pt"

lemma delete_absent: "k \<notin> dom (map_of st) \<Longrightarrow> AList.delete k st = st"
  by (simp add: dom_map_of_conv_image_fst)

lemma skip_message_keys_range:
  assumes "dh_remote r = Some k" and "receiving_chain r = Some (chain_at P ck (recv_count r))"
    and "\<forall>n \<ge> recv_count r. (k, n) \<notin> dom (map_of (skipped r))"
    and "length (skipped r) + (until - recv_count r) \<le> MAX_SKIPPED_KEYS"
  shows "skip_message_keys P until r =
    Ok (r\<lparr> skipped := skipped r @ skipped_range P ck k (recv_count r) until, recv_count := max until (recv_count r),
           receiving_chain := Some (chain_at P ck (max until (recv_count r))) \<rparr>)"
  using skip_loop_range [OF refl assms(3,4), where ck = ck] assms(1,2) by (simp add: skip_message_keys_def)

lemma decrypt_stored:
  assumes "map_of (skipped r) (k, n) = Some (message_key P ck n)" and "sealed P ck k aad n m pt"
  shows "decrypt P rnd r (fst m) (snd m) aad = (r\<lparr> skipped := AList.delete (k, n) (skipped r) \<rparr>, Ok pt)"
  using assms by (simp add: decrypt_def decrypt_working_def sealed_def skipped_take_def Let_def)

lemma decrypt_in_chain:
  assumes "dh_remote r = Some k" and "receiving_chain r = Some (chain_at P ck (recv_count r))"
    and "\<forall>i \<ge> recv_count r. (k, i) \<notin> dom (map_of (skipped r))"
    and "length (skipped r) + (n - recv_count r) \<le> MAX_SKIPPED_KEYS"
    and "recv_count r \<le> n" and "n + 1 < 2 ^ 32" and "sealed P ck k aad n m pt"
  shows "decrypt P rnd r (fst m) (snd m) aad =
    (r\<lparr> skipped := skipped r @ skipped_range P ck k (recv_count r) n, recv_count := n + 1,
        receiving_chain := Some (chain_at P ck (n + 1)) \<rparr>, Ok pt)"
proof -
  have absent: "(k, n) \<notin> dom (map_of (skipped r))" using assms(3,5) by blast
  have "skip_message_keys P n r = Ok (r\<lparr> skipped := skipped r @ skipped_range P ck k (recv_count r) n,
      recv_count := n, receiving_chain := Some (chain_at P ck n) \<rparr>)"
    using skip_message_keys_range [OF assms(1-4)] assms(5) by (simp add: max_def)
  then show ?thesis
    using absent assms(1,6,7)
    by (simp add: decrypt_def decrypt_working_def sealed_def skipped_take_def Let_def delete_absent
        same_remote_def chain_ratchet_at domIff)
qed

lemma decrypt_deliverable:
  assumes "deliverable P ck k N b r" and "n \<in> N" and "sealed P ck k aad n m pt"
  shows "\<exists>r'. decrypt P rnd r (fst m) (snd m) aad = (r', Ok pt) \<and> deliverable P ck k (N - {n}) b r'"
proof (cases "n < recv_count r")
  case True
  then have stored: "map_of (skipped r) (k, n) = Some (message_key P ck n)"
    using assms(1,2) by (simp add: deliverable_def)
  have "deliverable P ck k (N - {n}) b (r\<lparr> skipped := AList.delete (k, n) (skipped r) \<rparr>)"
    using assms(1) length_delete_le [of "(k, n)" "skipped r"]
    by (auto simp: deliverable_def skipped_ok_def distinct_delete delete_conv' intro: order_trans)
  then show ?thesis using decrypt_stored [OF stored assms(3)] by blast
next
  case False
  let ?r = "r\<lparr> skipped := skipped r @ skipped_range P ck k (recv_count r) n, recv_count := n + 1,
      receiving_chain := Some (chain_at P ck (n + 1)) \<rparr>"
  note d = assms(1) [unfolded deliverable_def]
  have n: "n < b" "b < 2 ^ 32" using d assms(2) by blast+
  then have "n + 1 < 2 ^ 32" by linarith
  moreover have "length (skipped r) + (n - recv_count r) \<le> MAX_SKIPPED_KEYS" using d n by linarith
  ultimately have "decrypt P rnd r (fst m) (snd m) aad = (?r, Ok pt)"
    using d False assms(3) by (intro decrypt_in_chain) auto
  moreover have "deliverable P ck k (N - {n}) b ?r"
  proof -
    have fresh: "\<forall>i \<ge> recv_count r. (k, i) \<notin> dom (map_of (skipped r))" using d by blast
    note m = map_of_append_range [OF fresh, of P ck n]
    have "length (skipped ?r) + (b - recv_count ?r) \<le> MAX_SKIPPED_KEYS"
    proof -
      have "length (skipped r) + (b - recv_count r) \<le> MAX_SKIPPED_KEYS" using d by blast
      then show ?thesis using n False by simp
    qed
    moreover have "\<forall>i \<ge> recv_count ?r. (k, i) \<notin> dom (map_of (skipped ?r))"
      using fresh False by (simp add: m domIff del: map_of_append)
    moreover have "\<forall>i \<in> N - {n}. i < recv_count ?r \<longrightarrow> map_of (skipped ?r) (k, i) = Some (message_key P ck i)"
      using d False by (auto simp: m simp del: map_of_append)
    ultimately show ?thesis
      using d skipped_ok_append_range [OF _ fresh, of P ck n] by (simp add: deliverable_def)
  qed
  ultimately show ?thesis by blast
qed

subsection \<open>Sequences of messages\<close>

text \<open>Sending plaintexts with their nonces, and receiving messages with the secret drawn for each
  (used when the message starts a new chain).\<close>

fun send_all ::
  "Primitives \<Rightarrow> bytes \<Rightarrow> DoubleRatchet \<Rightarrow> (bytes \<times> bytes) list \<Rightarrow>
    DoubleRatchet \<times> (CryptoError, MessageHeader \<times> bytes) res list" where
  "send_all P aad s [] = (s, [])"
| "send_all P aad s ((nonce, pt) # ms) =
     (let (s, m) = encrypt P nonce s pt aad; (s, rest) = send_all P aad s ms in (s, m # rest))"

fun receive_all ::
  "Primitives \<Rightarrow> bytes \<Rightarrow> DoubleRatchet \<Rightarrow> (bytes \<times> MessageHeader \<times> bytes) list \<Rightarrow>
    DoubleRatchet \<times> (CryptoError, bytes) res list" where
  "receive_all P aad r [] = (r, [])"
| "receive_all P aad r ((rnd, h, ct) # ms) =
     (let (r, m) = decrypt P rnd r h ct aad; (r, rest) = receive_all P aad r ms in (r, m # rest))"

lemma receive_all_deliverable:
  assumes "deliverable P ck k N b r" and "distinct ns" and "set ns \<subseteq> N" and "length rnds = length ns"
    and "\<forall>n \<in> set ns. sealed P ck k aad n (msg n) (pt n)"
  shows "\<exists>r'. receive_all P aad r (zip rnds (map msg ns)) = (r', map (\<lambda>n. Ok (pt n)) ns) \<and>
    deliverable P ck k (N - set ns) b r'"
  using assms
proof (induction ns arbitrary: r N rnds)
  case (Cons n ns)
  obtain rnd rnds' where rnds: "rnds = rnd # rnds'" using Cons.prems(4) by (cases rnds) auto
  obtain r1 where r1: "decrypt P rnd r (fst (msg n)) (snd (msg n)) aad = (r1, Ok (pt n))"
    and d1: "deliverable P ck k (N - {n}) b r1"
    using decrypt_deliverable [OF Cons.prems(1), of n aad "msg n" "pt n" rnd] Cons.prems(3,5) by auto
  obtain r2 where "receive_all P aad r1 (zip rnds' (map msg ns)) = (r2, map (\<lambda>n. Ok (pt n)) ns)"
    and "deliverable P ck k (N - {n} - set ns) b r2"
    using Cons.IH [OF d1, of rnds'] Cons.prems(2-5) rnds by auto
  moreover have "N - {n} - set ns = N - set (n # ns)" by auto
  ultimately show ?case using r1 by (cases "msg n") (simp add: rnds)
qed simp

text \<open>The sender stands at \<open>send_count\<close> of the chain that starts at \<open>ck\<close>.\<close>

definition sends_on :: "Primitives \<Rightarrow> ChainKey \<Rightarrow> DoubleRatchet \<Rightarrow> bool" where
  "sends_on P ck s \<longleftrightarrow> sending_chain s = Some (chain_at P ck (send_count s))"

lemma encrypt_sealed:
  assumes "aead_laws P" and "sends_on P ck s" and "length nonce = 12" and "send_count s + 1 < 2 ^ 32"
    and "encrypt P nonce s pt aad = (s', Ok m)"
  shows "sealed P ck (dh_self_public s) aad (send_count s) m pt \<and>
    previous_chain_length (fst m) = previous_sending_chain_length s \<and>
    s' = s\<lparr> sending_chain := Some (chain_at P ck (send_count s + 1)), send_count := send_count s + 1 \<rparr>"
proof -
  let ?h = "\<lparr> dh_public = dh_self_public s, previous_chain_length = previous_sending_chain_length s,
      message_number = send_count s \<rparr>"
  have chain: "sending_chain s = Some (chain_at P ck (send_count s))" using assms(2) by (simp add: sends_on_def)
  then obtain ct where ct: "aead_encrypt P nonce (message_key P ck (send_count s)) pt (full_associated_data aad ?h) = Ok ct"
    and m: "m = (?h, ct)"
    and s': "s' = s\<lparr> sending_chain := Some (chain_at P ck (Suc (send_count s))), send_count := (send_count s + 1) mod 2 ^ 32 \<rparr>"
    using assms(5) by (auto simp: encrypt_def chain_ratchet_at Let_def bind_res_Ok)
  show ?thesis using aead_roundtrip [OF assms(1,3) ct] assms(4) by (simp add: sealed_def m s')
qed

lemma send_all_sealed:
  assumes "aead_laws P" and "sends_on P ck s" and "\<forall>x \<in> set ms. length (fst x) = 12"
    and "send_count s + length ms < 2 ^ 32" and "send_all P aad s ms = (s', map Ok msgs)"
  shows "length msgs = length ms \<and> (\<forall>i < length ms.
      sealed P ck (dh_self_public s) aad (send_count s + i) (msgs ! i) (snd (ms ! i)) \<and>
      previous_chain_length (fst (msgs ! i)) = previous_sending_chain_length s) \<and>
    s' = s\<lparr> sending_chain := Some (chain_at P ck (send_count s + length ms)), send_count := send_count s + length ms \<rparr>"
  using assms
proof (induction ms arbitrary: s msgs)
  case Nil
  then show ?case by (simp add: sends_on_def)
next
  case (Cons x ms)
  obtain nonce pt where x: "x = (nonce, pt)" by (cases x)
  obtain s1 r1 where enc: "encrypt P nonce s pt aad = (s1, r1)" by (cases "encrypt P nonce s pt aad")
  then obtain m msgs' where msgs: "msgs = m # msgs'" and r1: "r1 = Ok m"
    and rest: "send_all P aad s1 ms = (s', map Ok msgs')"
    using Cons.prems(5) by (auto simp: x split: prod.splits)
  have count: "send_count s + 1 < 2 ^ 32" using Cons.prems(4) by simp
  have nonce: "length nonce = 12" using Cons.prems(3) x by simp
  note e = encrypt_sealed [OF Cons.prems(1,2) nonce count enc [unfolded r1]]
  then have s1: "s1 = s\<lparr> sending_chain := Some (chain_at P ck (send_count s + 1)), send_count := send_count s + 1 \<rparr>"
    by blast
  have "sends_on P ck s1" by (simp add: s1 sends_on_def)
  from Cons.IH [OF Cons.prems(1) this _ _ rest] Cons.prems(3,4) e
  show ?case by (auto simp: msgs x s1 nth_Cons split: nat.split)
qed

subsection \<open>Starting a chain\<close>

lemma length_update_le: "length (AList.update k v st) \<le> length st + 1"
  by (induction st) auto

lemma skip_loop_total:
  assumes "length (skipped r) + (until - recv_count r) \<le> MAX_SKIPPED_KEYS"
  shows "\<exists>ck' st. skip_loop P k until ck r = Ok (ck', r\<lparr> skipped := st, recv_count := max until (recv_count r) \<rparr>) \<and>
    length st \<le> length (skipped r) + (until - recv_count r) \<and> (skipped_ok (skipped r) \<longrightarrow> skipped_ok st) \<and>
    (\<forall>k' i. k' \<noteq> k \<longrightarrow> map_of st (k', i) = map_of (skipped r) (k', i))"
  using assms
proof (induction P k until ck r rule: skip_loop.induct)
  case (1 P k until ck r)
  show ?case
  proof (cases "recv_count r < until")
    case True
    let ?n = "recv_count r"
    obtain mk nck where step: "chain_ratchet P ck = (mk, nck)" by (cases "chain_ratchet P ck")
    let ?st = "AList.update (k, ?n) mk (skipped r)"
    let ?r = "r\<lparr> skipped := ?st, recv_count := ?n + 1 \<rparr>"
    have ins: "skipped_insert (k, ?n) mk (skipped r) = Ok ?st"
      using "1.prems" True by (simp add: skipped_insert_def)
    have len: "length ?st \<le> length (skipped r) + 1" by (rule length_update_le)
    have mx: "max until (?n + 1) = until" "max until ?n = until" using True by simp_all
    have "length (skipped ?r) + (until - recv_count ?r) \<le> MAX_SKIPPED_KEYS"
      using "1.prems" len True by simp
    from "1.IH" [OF True step [symmetric] refl ins this] obtain ck' st where
      "skip_loop P k until nck ?r = Ok (ck', ?r\<lparr> skipped := st, recv_count := max until (recv_count ?r) \<rparr>)"
      and st: "length st \<le> length ?st + (until - (?n + 1))" "skipped_ok ?st \<longrightarrow> skipped_ok st"
        "\<forall>k' i. k' \<noteq> k \<longrightarrow> map_of st (k', i) = map_of ?st (k', i)" by auto
    then have "skip_loop P k until ck r = Ok (ck', r\<lparr> skipped := st, recv_count := max until ?n \<rparr>)"
      using True ins mx by (subst skip_loop.simps) (simp add: step)
    moreover have "length st \<le> length (skipped r) + (until - ?n)" using st(1) len True by linarith
    moreover have "skipped_ok (skipped r) \<longrightarrow> skipped_ok st"
      using st(2) by (simp add: skipped_ok_def distinct_update)
    moreover have "\<forall>k' i. k' \<noteq> k \<longrightarrow> map_of st (k', i) = map_of (skipped r) (k', i)"
      using st(3) by (simp add: update_conv')
    ultimately show ?thesis by blast
  qed (subst skip_loop.simps, auto simp: max_def intro!: exI [of _ "skipped r"])
qed

lemma skip_message_keys_total:
  assumes "length (skipped r) + (until - recv_count r) \<le> MAX_SKIPPED_KEYS"
  obtains r1 where "skip_message_keys P until r = Ok r1"
    and "length (skipped r1) \<le> length (skipped r) + (until - recv_count r)"
    and "skipped_ok (skipped r) \<Longrightarrow> skipped_ok (skipped r1)"
    and "\<And>k i. dh_remote r \<noteq> Some k \<Longrightarrow> map_of (skipped r1) (k, i) = map_of (skipped r) (k, i)"
    and "dh_self r1 = dh_self r" and "root_key r1 = root_key r" and "send_count r1 = send_count r"
proof (cases "\<exists>k c. dh_remote r = Some k \<and> receiving_chain r = Some c")
  case True
  then obtain k c where kc: "dh_remote r = Some k" "receiving_chain r = Some c" by blast
  obtain ck' st where "skip_loop P k until c r = Ok (ck', r\<lparr> skipped := st, recv_count := max until (recv_count r) \<rparr>)"
    and "length st \<le> length (skipped r) + (until - recv_count r)" "skipped_ok (skipped r) \<longrightarrow> skipped_ok st"
      "\<forall>k' i. k' \<noteq> k \<longrightarrow> map_of st (k', i) = map_of (skipped r) (k', i)"
    using skip_loop_total [OF assms, of P k c] by blast
  then show ?thesis using kc
    by (intro that [of "r\<lparr> skipped := st, recv_count := max until (recv_count r), receiving_chain := Some ck' \<rparr>"])
      (auto simp: skip_message_keys_def)
next
  case False
  then have "skip_message_keys P until r = Ok r"
    by (auto simp: skip_message_keys_def split: option.split)
  then show ?thesis by (intro that [of r]) auto
qed

lemma dh_ratchet_step_frame [simp]:
  "dh_remote (dh_ratchet_step P rnd k r) = Some k" "skipped (dh_ratchet_step P rnd k r) = skipped r"
  by (simp_all add: dh_ratchet_step_def Let_def split_beta)

lemma dh_ratchet_step_simps:
  assumes "root_kdf P (root_key r) (x_dh P (dh_self r) k) = (root, ck)"
  shows "dh_ratchet_step P rnd k r = r\<lparr>
    previous_sending_chain_length := send_count r, send_count := 0, recv_count := 0, dh_remote := Some k,
    receiving_chain := Some ck, dh_self := rnd, dh_self_public := x_public P rnd,
    root_key := fst (root_kdf P root (x_dh P rnd k)), sending_chain := Some (snd (root_kdf P root (x_dh P rnd k))) \<rparr>"
  using assms by (simp add: dh_ratchet_step_def Let_def split_beta)

lemma same_remote_self [simp]: "same_remote P (Some k) k"
  by (simp add: same_remote_def)

lemma skipped_unchanged: "skipped r = st \<Longrightarrow> r\<lparr> skipped := st \<rparr> = r"
  by auto

lemma decrypt_switch:
  assumes "\<not> same_remote P (dh_remote r) (dh_public h)"
    and "(dh_public h, message_number h) \<notin> dom (map_of (skipped r))"
    and "skip_message_keys P (previous_chain_length h) r = Ok r1"
    and "(dh_public h, message_number h) \<notin> dom (map_of (skipped r1))"
  shows "decrypt_working P rnd r h ct aad = decrypt_working P rnd (dh_ratchet_step P rnd (dh_public h) r1) h ct aad"
proof -
  show ?thesis using assms
    by (simp add: decrypt_working_def skipped_take_def delete_absent domIff skipped_unchanged)
qed

text \<open>\<open>ahead P s r\<close>: \<open>s\<close> sends on a chain \<open>r\<close> has not seen, which \<open>r\<close>'s next step will derive.
  \<open>in_step P s r\<close>: \<open>r\<close> already follows the chain on which \<open>s\<close> sends.\<close>

definition ahead :: "Primitives \<Rightarrow> DoubleRatchet \<Rightarrow> DoubleRatchet \<Rightarrow> bool" where
  "ahead P s r \<longleftrightarrow>
     dh_self_public s = x_public P (dh_self s) \<and> dh_self_public r = x_public P (dh_self r) \<and>
     dh_remote s = Some (dh_self_public r) \<and> \<not> same_remote P (dh_remote r) (dh_self_public s) \<and>
     (\<exists>ck. root_kdf P (root_key r) (x_dh P (dh_self s) (dh_self_public r)) = (root_key s, ck) \<and> sends_on P ck s) \<and>
     skipped_ok (skipped r) \<and> (\<forall>n. (dh_self_public s, n) \<notin> dom (map_of (skipped r)))"

definition in_step :: "Primitives \<Rightarrow> DoubleRatchet \<Rightarrow> DoubleRatchet \<Rightarrow> bool" where
  "in_step P s r \<longleftrightarrow>
     dh_remote r = Some (dh_self_public s) \<and>
     (\<exists>ck. receiving_chain r = Some (chain_at P ck (recv_count r)) \<and> sends_on P ck s) \<and>
     recv_count r \<le> send_count s \<and> skipped_ok (skipped r) \<and>
     (\<forall>n \<ge> recv_count r. (dh_self_public s, n) \<notin> dom (map_of (skipped r)))"

lemma ahead_step:
  assumes "x25519_laws P" and "ahead P s r"
    and "length (skipped r) + (prev - recv_count r) + b \<le> MAX_SKIPPED_KEYS" and "b < 2 ^ 32" and "N \<subseteq> {..<b}"
  obtains ck r1 where "sends_on P ck s" and "skip_message_keys P prev r = Ok r1"
    and "\<And>n. (dh_self_public s, n) \<notin> dom (map_of (skipped r1))"
    and "\<And>rnd. deliverable P ck (dh_self_public s) N b (dh_ratchet_step P rnd (dh_self_public s) r1)"
proof -
  let ?k = "dh_self_public s"
  note a = assms(2) [unfolded ahead_def]
  have new: "dh_remote r \<noteq> Some ?k" using a by auto
  obtain ck where root: "root_kdf P (root_key r) (x_dh P (dh_self s) (dh_self_public r)) = (root_key s, ck)"
    and sends: "sends_on P ck s" using a by blast
  have "length (skipped r) + (prev - recv_count r) \<le> MAX_SKIPPED_KEYS" using assms(3) by simp
  from skip_message_keys_total [OF this] obtain r1 where
    r1: "skip_message_keys P prev r = Ok r1" "length (skipped r1) \<le> length (skipped r) + (prev - recv_count r)"
      "skipped_ok (skipped r) \<Longrightarrow> skipped_ok (skipped r1)"
      "\<And>k i. dh_remote r \<noteq> Some k \<Longrightarrow> map_of (skipped r1) (k, i) = map_of (skipped r) (k, i)"
      "dh_self r1 = dh_self r" "root_key r1 = root_key r" by metis
  have absent: "(?k, n) \<notin> dom (map_of (skipped r1))" for n
  proof -
    have "(?k, n) \<notin> dom (map_of (skipped r))" using a by blast
    then show ?thesis using r1(4) [OF new] by (simp add: domIff)
  qed
  have "x_dh P (dh_self r) ?k = x_dh P (dh_self s) (dh_self_public r)"
    using a assms(1) by (simp add: x25519_laws_def)
  then have root1: "root_kdf P (root_key r1) (x_dh P (dh_self r1) ?k) = (root_key s, ck)"
    using root r1(5,6) by simp
  have "deliverable P ck ?k N b (dh_ratchet_step P rnd ?k r1)" for rnd
  proof -
    have "skipped_ok (skipped r1)" and "length (skipped r1) + b \<le> MAX_SKIPPED_KEYS"
      using r1(2,3) a assms(3) by auto
    then show ?thesis using absent assms(4,5)
      by (auto simp: deliverable_def dh_ratchet_step_simps [OF root1])
  qed
  then show ?thesis using that [OF sends r1(1) absent] by blast
qed


lemma first_message:
  assumes "ahead P s r" and "skip_message_keys P (previous_chain_length h) r = Ok r1" and "dh_public h = dh_self_public s"
    and "\<And>n. (dh_self_public s, n) \<notin> dom (map_of (skipped r1))"
  shows "decrypt_working P rnd r h ct aad = decrypt_working P rnd (dh_ratchet_step P rnd (dh_public h) r1) h ct aad"
proof (rule decrypt_switch)
  show "\<not> same_remote P (dh_remote r) (dh_public h)" and "(dh_public h, message_number h) \<notin> dom (map_of (skipped r))"
    using assms(1) unfolding ahead_def assms(3) by blast+
qed (use assms(2-4) in auto)

lemma receive_all_switch:
  assumes "decrypt_working P rnd r h ct aad = Ok x" 
    and "decrypt_working P rnd r h ct aad = decrypt_working P rnd r' h ct aad"
  shows "receive_all P aad r ((rnd, h, ct) # ms) = receive_all P aad r' ((rnd, h, ct) # ms)"
  using assms by (simp add: decrypt_def split: res.split prod.split)

lemma decrypt_Ok: "decrypt P rnd r h ct aad = (r', Ok pt) \<longleftrightarrow> decrypt_working P rnd r h ct aad = Ok (r', pt)"
  by (auto simp: decrypt_def split: res.splits prod.splits)

lemma init_simps [simp]:
  "send_count (init_initiator P a secret k) = 0" "previous_sending_chain_length (init_initiator P a secret k) = 0"
  "dh_self_public (init_initiator P a secret k) = x_public P a" "sending_chain (init_initiator P a secret k) \<noteq> None"
  "skipped (init_initiator P a secret k) = []"
  "skipped (init_responder P secret b) = []" "recv_count (init_responder P secret b) = 0"
  "dh_self_public (init_responder P secret b) = x_public P b"
  by (simp_all add: init_initiator_def init_responder_def skipped_new_def split_beta)

text \<open>After the handshake the initiator's first chain is the one the responder will derive.\<close>

lemma ahead_start:
  assumes "x25519_laws P"
  shows "ahead P (init_initiator P a secret (x_public P b)) (init_responder P secret b)"
  by (auto simp: ahead_def init_initiator_def init_responder_def same_remote_def sends_on_def skipped_new_def
      skipped_ok_def split: prod.split)

subsection \<open>What decrypting leaves alone\<close>

lemma skip_loop_frame:
  assumes "skip_loop P k until ck r = Ok (ck', r1)"
  shows "\<exists>st. r1 = r\<lparr> skipped := st, recv_count := max until (recv_count r) \<rparr> \<and>
    (\<forall>k' i. k' \<noteq> k \<or> until \<le> i \<longrightarrow> map_of st (k', i) = map_of (skipped r) (k', i))"
  using assms
proof (induction P k until ck r rule: skip_loop.induct)
  case (1 P k until ck r)
  show ?case
  proof (cases "recv_count r < until")
    case True
    let ?n = "recv_count r"
    obtain mk nck where step: "chain_ratchet P ck = (mk, nck)" by (cases "chain_ratchet P ck")
    obtain st where st: "skipped_insert (k, ?n) mk (skipped r) = Ok st"
      and rest: "skip_loop P k until nck (r\<lparr> skipped := st, recv_count := ?n + 1 \<rparr>) = Ok (ck', r1)"
      using "1.prems" True by (subst (asm) skip_loop.simps) (auto simp: step bind_res_Ok)
    have "st = AList.update (k, ?n) mk (skipped r)" using st by (simp add: skipped_insert_def split: if_splits)
    moreover from "1.IH" [OF True step [symmetric] refl st rest] obtain st' where
      "r1 = r\<lparr> skipped := st', recv_count := max until (?n + 1) \<rparr>"
      and "\<And>k' i. k' \<noteq> k \<or> until \<le> i \<Longrightarrow> map_of st' (k', i) = map_of st (k', i)" by auto
    ultimately show ?thesis using True
      by (intro exI [of _ st'] conjI allI impI) (auto simp: update_conv')
  next
    case False
    then show ?thesis using "1.prems" by (subst (asm) skip_loop.simps) (auto simp: max_def intro!: exI [of _ "skipped r"])
  qed
qed

lemma skip_message_keys_frame:
  assumes "skip_message_keys P until r = Ok r1"
  obtains st n c where "r1 = r\<lparr> skipped := st, recv_count := n, receiving_chain := c \<rparr>"
    and "\<And>k i. dh_remote r \<noteq> Some k \<or> until \<le> i \<Longrightarrow> map_of st (k, i) = map_of (skipped r) (k, i)"
proof (cases "\<exists>k c. dh_remote r = Some k \<and> receiving_chain r = Some c")
  case True
  then obtain k c c' r2 where "dh_remote r = Some k" and loop: "skip_loop P k until c r = Ok (c', r2)"
    and r1: "r1 = r2\<lparr> receiving_chain := Some c' \<rparr>"
    using assms by (auto simp: skip_message_keys_def bind_res_Ok)
  from skip_loop_frame [OF loop] obtain st where "r2 = r\<lparr> skipped := st, recv_count := max until (recv_count r) \<rparr>"
    and "\<forall>k' i. k' \<noteq> k \<or> until \<le> i \<longrightarrow> map_of st (k', i) = map_of (skipped r) (k', i)" by blast
  then show ?thesis using r1 \<open>dh_remote r = Some k\<close>
    by (intro that [where st = st and n = "max until (recv_count r)" and c = "Some c'"]) auto
next
  case False
  then have "r1 = r" using assms by (auto simp: skip_message_keys_def split: option.splits)
  then show ?thesis by (intro that [where st = "skipped r" and n = "recv_count r" and c = "receiving_chain r"]) simp_all
qed

lemma returns_skip_loop: "returns (skip_loop P k until ck r)"
proof (induction P k until ck r rule: skip_loop.induct)
  case (1 P k until ck r)
  show ?case
    using "1.IH" [OF _ refl prod.collapse]
    by (subst skip_loop.simps) (auto simp: Let_def split_beta skipped_insert_def)
qed

lemma returns_skip_message_keys: "returns (skip_message_keys P until r)"
  by (auto simp: skip_message_keys_def returns_skip_loop intro!: returns_bind split: option.split prod.split)

lemma skip_loop_cap:
  "skip_loop P k until ck r = Ok (ck', r1) \<Longrightarrow> length (skipped r) \<le> MAX_SKIPPED_KEYS \<Longrightarrow>
    length (skipped r1) \<le> MAX_SKIPPED_KEYS"
proof (induction P k until ck r rule: skip_loop.induct)
  case (1 P k until ck r)
  show ?case
  proof (cases "recv_count r < until")
    case True
    let ?n = "recv_count r"
    obtain mk nck where step: "chain_ratchet P ck = (mk, nck)" by (cases "chain_ratchet P ck")
    obtain st where st: "skipped_insert (k, ?n) mk (skipped r) = Ok st"
      and rest: "skip_loop P k until nck (r\<lparr> skipped := st, recv_count := ?n + 1 \<rparr>) = Ok (ck', r1)"
      using "1.prems" True by (subst (asm) skip_loop.simps) (auto simp: step bind_res_Ok)
    have "length st \<le> MAX_SKIPPED_KEYS"
      using st length_update_le [of "(k, ?n)" mk "skipped r"] by (auto simp: skipped_insert_def split: if_splits)
    then show ?thesis using "1.IH" [OF True step [symmetric] refl st rest] by simp
  qed (use "1.prems" in \<open>subst (asm) skip_loop.simps, auto\<close>)
qed

lemma skip_message_keys_cap:
  "skip_message_keys P until r = Ok r1 \<Longrightarrow> length (skipped r) \<le> MAX_SKIPPED_KEYS \<Longrightarrow>
    length (skipped r1) \<le> MAX_SKIPPED_KEYS"
  by (auto simp: skip_message_keys_def bind_res_Ok split: option.splits dest: skip_loop_cap)

text \<open>The two ways a message is decrypted: with a stored key, or with the next key of the chain.\<close>

lemma decrypt_cases:
  assumes "decrypt P rnd r h ct aad = (r', Ok pt)"
  obtains (stored) mk where "map_of (skipped r) (dh_public h, message_number h) = Some mk"
      and "r' = r\<lparr> skipped := AList.delete (dh_public h, message_number h) (skipped r) \<rparr>"
  | (chained) r1 r2 r3 ck where "map_of (skipped r) (dh_public h, message_number h) = None"
      and "if same_remote P (dh_remote r) (dh_public h) then r2 = r
           else skip_message_keys P (previous_chain_length h) r = Ok r1 \<and>
             r2 = dh_ratchet_step P rnd (dh_public h) r1"
      and "skip_message_keys P (message_number h) r2 = Ok r3" and "receiving_chain r3 = Some ck"
      and "r' = r3\<lparr> receiving_chain := Some (snd (chain_ratchet P ck)), recv_count := (recv_count r3 + 1) mod 2 ^ 32 \<rparr>"
proof (cases "map_of (skipped r) (dh_public h, message_number h)")
  case None
  then have del: "AList.delete (dh_public h, message_number h) (skipped r) = skipped r"
    by (intro delete_absent) (simp add: domIff)
  have work: "decrypt_working P rnd r h ct aad = Ok (r', pt)" using assms by (simp add: decrypt_Ok)
  let ?start = "if \<not> same_remote P (dh_remote r) (dh_public h)
    then bind_res (skip_message_keys P (previous_chain_length h) r) (\<lambda>w. Ok (dh_ratchet_step P rnd (dh_public h) w))
    else Ok r"
  obtain r2 r3 ck where r2: "?start = Ok r2" and rest: "skip_message_keys P (message_number h) r2 = Ok r3"
    "receiving_chain r3 = Some ck"
    "r' = r3\<lparr> receiving_chain := Some (snd (chain_ratchet P ck)), recv_count := (recv_count r3 + 1) mod 2 ^ 32 \<rparr>"
    using work None
    by (auto simp: decrypt_working_def skipped_take_def del skipped_unchanged bind_res_Ok split_beta Let_def
        simp del: if_split cong: if_cong)
  obtain r1 where "if same_remote P (dh_remote r) (dh_public h) then r2 = r
      else skip_message_keys P (previous_chain_length h) r = Ok r1 \<and> r2 = dh_ratchet_step P rnd (dh_public h) r1"
    using r2 by (auto simp: bind_res_Ok split: if_splits)
  then show ?thesis using rest by (intro chained [OF None])
next
  case (Some mk)
  then show ?thesis using assms
    by (intro stored) (auto simp: decrypt_Ok decrypt_working_def skipped_take_def bind_res_Ok Let_def)
qed

lemma toy_send_all:
  assumes "sending_chain s \<noteq> None"
  shows "\<exists>s' msgs. send_all toy aad s ms = (s', map Ok msgs)"
  using assms
proof (induction ms arbitrary: s)
  case (Cons m ms)
  obtain s1 x where "encrypt toy (fst m) s (snd m) aad = (s1, Ok x)" and "sending_chain s1 \<noteq> None"
    using Cons.prems by (auto simp: encrypt_def aead_encrypt_def Let_def split_beta)
  moreover from Cons.IH [OF this(2)] obtain s' msgs where "send_all toy aad s1 ms = (s', map Ok msgs)" by blast
  ultimately show ?case by (cases m) (auto intro!: exI [of _ "x # msgs"])
qed simp

subsection \<open>Properties\<close>

text \<open>C11: the messages of a new turn are decrypted to what was sent in whatever order they arrive,
  and however many of them are lost, as long as the keys to skip fit into the store.\<close>

theorem new_turn_any_order:
  assumes "aead_laws P" and "x25519_laws P" and "ahead P s r"
    and "\<forall>x \<in> set ms. length (fst x) = 12" and "send_all P aad s ms = (s', map Ok msgs)"
    and "distinct order" and "set order \<subseteq> {..<length ms}" and "length rnds = length order"
    and "length (skipped r) + (previous_sending_chain_length s - recv_count r) + (send_count s + length ms)
      \<le> MAX_SKIPPED_KEYS"
  shows "snd (receive_all P aad r (zip rnds (map (\<lambda>i. msgs ! i) order))) = map (\<lambda>i. Ok (snd (ms ! i))) order"
proof (cases order)
  case (Cons i0 rest)
  let ?k = "dh_self_public s" and ?b = "send_count s + length ms"
  let ?ns = "map (\<lambda>i. send_count s + i) order"
  have b: "?b < 2 ^ 32" using assms(9) by (simp add: MAX_SKIPPED_KEYS_def)
  obtain ck r1 where sends: "sends_on P ck s" and r1: "skip_message_keys P (previous_sending_chain_length s) r = Ok r1"
    and absent: "\<And>n. (?k, n) \<notin> dom (map_of (skipped r1))"
    and deliv: "\<And>rnd. deliverable P ck ?k {..<?b} ?b (dh_ratchet_step P rnd ?k r1)"
    using ahead_step [OF assms(2,3,9) b subset_refl] by metis
  note sealed = send_all_sealed [OF assms(1) sends assms(4) b assms(5)]
  obtain rnd rnds' where rnds: "rnds = rnd # rnds'" using assms(8) Cons by (cases rnds) auto
  obtain h ct where m: "msgs ! i0 = (h, ct)" by (cases "msgs ! i0")
  let ?r2 = "dh_ratchet_step P rnd ?k r1"
  have i0: "i0 < length ms" using assms(7) Cons by simp
  then have h: "dh_public h = ?k" "previous_chain_length h = previous_sending_chain_length s"
    using sealed m by (auto simp: sealed_def)
  have "\<exists>r'. receive_all P aad ?r2 (zip rnds (map (\<lambda>n. msgs ! (n - send_count s)) ?ns)) =
      (r', map (\<lambda>n. Ok (snd (ms ! (n - send_count s)))) ?ns) \<and>
      deliverable P ck ?k ({..<?b} - set ?ns) ?b r'"
    by (rule receive_all_deliverable [OF deliv])
      (use assms(6-8) sealed in \<open>auto simp: distinct_map inj_on_def\<close>)
  then obtain r' where r': "receive_all P aad ?r2 (zip rnds (map (\<lambda>i. msgs ! i) order)) =
      (r', map (\<lambda>i. Ok (snd (ms ! i))) order)" by (auto simp: comp_def)
  then obtain r3 where "decrypt P rnd ?r2 h ct aad = (r3, Ok (snd (ms ! i0)))"
    by (auto simp: Cons rnds m split: prod.splits)
  then have "receive_all P aad r (zip rnds (map (\<lambda>i. msgs ! i) order)) =
      receive_all P aad ?r2 (zip rnds (map (\<lambda>i. msgs ! i) order))"
    using first_message [OF assms(3) r1 [folded h(2)] h(1) absent, of rnd ct aad] h(1)
    by (simp add: Cons rnds m decrypt_Ok receive_all_switch del: receive_all.simps)
  then show ?thesis using r' by simp
qed simp


lemma new_turn_any_order_witness:
  "\<exists>s' msgs. send_all toy [] (init_initiator toy [7] [1, 2] (x_public toy [5]))
      [(replicate 12 0, [10]), (replicate 12 0, [11]), (replicate 12 0, [12])] = (s', map Ok msgs) \<and>
    snd (receive_all toy [] (init_responder toy [1, 2] [5]) (zip [[], []] (map (\<lambda>i. msgs ! i) [2, 0]))) =
      [Ok [12], Ok [10]]"
proof -
  let ?a = "init_initiator toy [7] [1, 2] (x_public toy [5])" and ?b = "init_responder toy [1, 2] [5]"
  let ?ms = "[(replicate 12 0, [10]), (replicate 12 0, [11]), (replicate 12 0, [12])] :: (bytes \<times> bytes) list"
  obtain s' msgs where send: "send_all toy [] ?a ?ms = (s', map Ok msgs)"
    using toy_send_all [OF init_simps(4)] by blast
  have "snd (receive_all toy [] ?b (zip [[], []] (map (\<lambda>i. msgs ! i) [2, 0]))) = map (\<lambda>i. Ok (snd (?ms ! i))) [2, 0]"
    by (rule new_turn_any_order [OF toy_laws(4,2) ahead_start [OF toy_laws(2)] _ send])
      (simp_all add: MAX_SKIPPED_KEYS_def del: toy_simps)
  then show ?thesis using send by auto
qed

text \<open>Later messages of the same turn, too, are decrypted in whatever order they arrive.\<close>

theorem same_turn_any_order:
  assumes "aead_laws P" and "in_step P s r"
    and "\<forall>x \<in> set ms. length (fst x) = 12" and "send_all P aad s ms = (s', map Ok msgs)"
    and "distinct order" and "set order \<subseteq> {..<length ms}" and "length rnds = length order"
    and "send_count s + length ms < 2 ^ 32"
    and "length (skipped r) + (send_count s + length ms - recv_count r) \<le> MAX_SKIPPED_KEYS"
  shows "snd (receive_all P aad r (zip rnds (map (\<lambda>i. msgs ! i) order))) = map (\<lambda>i. Ok (snd (ms ! i))) order"
proof -
  let ?k = "dh_self_public s" and ?b = "send_count s + length ms"
  let ?N = "{send_count s..<?b}" and ?ns = "map (\<lambda>i. send_count s + i) order"
  obtain ck where chains: "receiving_chain r = Some (chain_at P ck (recv_count r))" "sends_on P ck s"
    using assms(2) by (auto simp: in_step_def)
  have "deliverable P ck ?k ?N ?b r" using assms(2,8,9) chains by (auto simp: in_step_def deliverable_def)
  then have "\<exists>r'. receive_all P aad r (zip rnds (map (\<lambda>n. msgs ! (n - send_count s)) ?ns)) =
      (r', map (\<lambda>n. Ok (snd (ms ! (n - send_count s)))) ?ns) \<and> deliverable P ck ?k (?N - set ?ns) ?b r'"
    using assms(5-7) send_all_sealed [OF assms(1) chains(2) assms(3,8,4)]
    by (intro receive_all_deliverable) (auto simp: distinct_map inj_on_def)
  then show ?thesis by (auto simp: comp_def)
qed

lemma same_turn_any_order_witness:
  "\<exists>s s' msgs. send_all toy [] s [(replicate 12 0, [10]), (replicate 12 0, [11])] = (s', map Ok msgs) \<and>
    snd (receive_all toy [] ((init_responder toy [1, 2] [5])\<lparr> dh_remote := Some (dh_self_public s),
        receiving_chain := sending_chain s \<rparr>) (zip [[], []] (map (\<lambda>i. msgs ! i) [1, 0]))) =
      [Ok [11], Ok [10]]"
proof -
  let ?s = "init_initiator toy [7] [1, 2] (x_public toy [5])"
  let ?r = "(init_responder toy [1, 2] [5])\<lparr> dh_remote := Some (dh_self_public ?s), receiving_chain := sending_chain ?s \<rparr>"
  let ?ms = "[(replicate 12 0, [10]), (replicate 12 0, [11])] :: (bytes \<times> bytes) list"
  obtain s' msgs where send: "send_all toy [] ?s ?ms = (s', map Ok msgs)"
    using toy_send_all [OF init_simps(4)] by blast
  have "in_step toy ?s ?r"
    using init_simps(4) [of toy "[7]" "[1, 2]" "x_public toy [5]"]
    by (auto simp: in_step_def sends_on_def skipped_ok_def simp del: toy_simps init_simps(4))
  then have "snd (receive_all toy [] ?r (zip [[], []] (map (\<lambda>i. msgs ! i) [1, 0]))) = map (\<lambda>i. Ok (snd (?ms ! i))) [1, 0]"
    by (rule same_turn_any_order [OF toy_laws(4) _ _ send]) (simp_all add: MAX_SKIPPED_KEYS_def del: toy_simps)
  then show ?thesis using send by (intro exI [of _ ?s] exI [of _ s'] exI [of _ msgs]) simp
qed

text \<open>The receiver of a new turn holds the next turn: the chain it will send on is one the other
  side has not seen and will derive, so the conversation can go back and forth for ever.\<close>

theorem turn_passes:
  assumes "x25519_laws P" and "ahead P s r" and "decrypt P rnd r h ct aad = (r', Ok pt)"
    and "dh_public h = dh_self_public s"
    and "x_canon P (x_public P rnd) \<noteq> x_canon P (dh_self_public r)"
    and "skipped_ok (skipped s)" and "\<And>n. (x_public P rnd, n) \<notin> dom (map_of (skipped s))"
  shows "ahead P r' s"
proof -
  note a = assms(2) [unfolded ahead_def]
  obtain ck where root: "root_kdf P (root_key r) (x_dh P (dh_self s) (dh_self_public r)) = (root_key s, ck)"
    using a by blast
  have "(dh_public h, message_number h) \<notin> dom (map_of (skipped r))" using a unfolding assms(4) by blast
  moreover have "\<not> same_remote P (dh_remote r) (dh_public h)" using a unfolding assms(4) by blast
  ultimately have "\<exists>r1 r3 c n. skip_message_keys P (previous_chain_length h) r = Ok r1 \<and>
      skip_message_keys P (message_number h) (dh_ratchet_step P rnd (dh_public h) r1) = Ok r3 \<and>
      r' = r3\<lparr> receiving_chain := c, recv_count := n \<rparr>"
    by (cases rule: decrypt_cases [OF assms(3)]) auto
  then obtain r1 r2 r3 where r1: "skip_message_keys P (previous_chain_length h) r = Ok r1"
    and r2: "r2 = dh_ratchet_step P rnd (dh_public h) r1" and r3: "skip_message_keys P (message_number h) r2 = Ok r3"
    and r': "\<exists>c n. r' = r3\<lparr> receiving_chain := c, recv_count := n \<rparr>" by blast
  have same: "dh_self r1 = dh_self r" "root_key r1 = root_key r"
    by (rule skip_message_keys_frame [OF r1], simp)+
  have "x_dh P (dh_self r) (dh_public h) = x_dh P (dh_self s) (dh_self_public r)"
    using a assms(1,4) by (simp add: x25519_laws_def)
  then have "root_kdf P (root_key r1) (x_dh P (dh_self r1) (dh_public h)) = (root_key s, ck)"
    using root same by simp
  note r2 = r2 [unfolded dh_ratchet_step_simps [OF this, of rnd]]
  have "\<exists>st n c. r3 = r2\<lparr> skipped := st, recv_count := n, receiving_chain := c \<rparr>"
    by (rule skip_message_keys_frame [OF r3], blast)
  with r' obtain st c n where r'': "r' = r2\<lparr> skipped := st, receiving_chain := c, recv_count := n \<rparr>" by auto
  have "sends_on P (snd (root_kdf P (root_key s) (x_dh P rnd (dh_public h)))) r'"
    by (simp add: sends_on_def r'' r2)
  moreover have "dh_self_public r' = x_public P rnd" "dh_self r' = rnd" "dh_remote r' = Some (dh_self_public s)"
    "root_key r' = fst (root_kdf P (root_key s) (x_dh P rnd (dh_public h)))"
    by (simp_all add: r'' r2 assms(4))
  ultimately show ?thesis using a assms(4-7)
    by (auto simp: ahead_def same_remote_def prod_eq_iff)
qed


lemma first_delivery:
  assumes "aead_laws P" and "x25519_laws P" and "ahead P s r" and "length nonce = 12"
    and "encrypt P nonce s pt aad = (s', Ok m)"
    and "length (skipped r) + (previous_sending_chain_length s - recv_count r) + (send_count s + 1) \<le> MAX_SKIPPED_KEYS"
  shows "\<exists>r'. decrypt P rnd r (fst m) (snd m) aad = (r', Ok pt) \<and> dh_public (fst m) = dh_self_public s"
proof -
  let ?k = "dh_self_public s" and ?b = "send_count s + 1"
  have b: "?b < 2 ^ 32" using assms(6) by (simp add: MAX_SKIPPED_KEYS_def)
  obtain ck r1 where sends: "sends_on P ck s" and r1: "skip_message_keys P (previous_sending_chain_length s) r = Ok r1"
    and absent: "\<And>n. (?k, n) \<notin> dom (map_of (skipped r1))"
    and deliv: "\<And>rnd. deliverable P ck ?k {..<?b} ?b (dh_ratchet_step P rnd ?k r1)"
    using ahead_step [OF assms(2,3,6) b subset_refl] by metis
  note e = encrypt_sealed [OF assms(1) sends assms(4) b assms(5)]
  then have k: "dh_public (fst m) = ?k" and prev: "previous_chain_length (fst m) = previous_sending_chain_length s"
    by (auto simp: sealed_def)
  obtain r' where "decrypt P rnd (dh_ratchet_step P rnd ?k r1) (fst m) (snd m) aad = (r', Ok pt)"
    using decrypt_deliverable [OF deliv [of rnd] _ conjunct1 [OF e], of rnd] by auto
  then show ?thesis
    using first_message [OF assms(3) r1 [folded prev] k absent, of rnd "snd m" aad] k by (auto simp: decrypt_Ok)
qed

lemma turn_passes_witness:
  "\<exists>m r'. decrypt toy [9] (init_responder toy [1, 2] [5]) (fst m) (snd m) [] = (r', Ok [10]) \<and>
    ahead toy r' (init_initiator toy [7] [1, 2] (x_public toy [5]))"
proof -
  let ?s = "init_initiator toy [7] [1, 2] (x_public toy [5])" and ?r = "init_responder toy [1, 2] [5]"
  obtain s' m where enc: "encrypt toy (replicate 12 0) ?s [10] [] = (s', Ok m)"
    using init_simps(4) [of toy "[7]" "[1, 2]" "x_public toy [5]"]
    by (auto simp: encrypt_def aead_encrypt_def Let_def split_beta simp del: init_simps)
  obtain r' where dec: "decrypt toy [9] ?r (fst m) (snd m) [] = (r', Ok [10])" and k: "dh_public (fst m) = dh_self_public ?s"
    using first_delivery [OF toy_laws(4,2) ahead_start [OF toy_laws(2)] _ enc] by (auto simp: MAX_SKIPPED_KEYS_def)
  have "ahead toy r' ?s"
    by (rule turn_passes [OF toy_laws(2) ahead_start [OF toy_laws(2)] dec k]) (simp_all add: skipped_ok_def)
  then show ?thesis using dec by blast
qed


lemma returns_decrypt_working: "returns (decrypt_working P rnd r h ct aad)"
  by (auto simp: decrypt_working_def Let_def split_beta returns_skip_message_keys intro!: returns_bind
      split: option.split)

text \<open>A message that is not decrypted leaves the ratchet exactly as it was, and no message
  makes it panic or loop.\<close>

theorem failed_decrypt_changes_nothing:
  "(\<exists>e. decrypt P rnd r h ct aad = (r, Err e)) \<or> (\<exists>r' pt. decrypt P rnd r h ct aad = (r', Ok pt))"
  using returns_decrypt_working [of P rnd r h ct aad]
  by (cases "decrypt_working P rnd r h ct aad") (auto simp: decrypt_def)

text \<open>C26: a message key is used once: after a message is decrypted its key is no longer stored, and
  the store never grows beyond its cap.\<close>

theorem message_key_used_once:
  assumes "decrypt P rnd r h ct aad = (r', Ok pt)"
  shows "map_of (skipped r') (dh_public h, message_number h) = None \<and>
    (length (skipped r) \<le> MAX_SKIPPED_KEYS \<longrightarrow> length (skipped r') \<le> MAX_SKIPPED_KEYS)"
  using assms
proof (cases rule: decrypt_cases)
  case (stored mk)
  then show ?thesis using length_delete_le [of "(dh_public h, message_number h)" "skipped r"]
    by (auto simp: delete_conv' intro: order_trans)
next
  case (chained r1 r2 r3 ck)
  let ?k = "dh_public h" and ?n = "message_number h"
  have "map_of (skipped r2) (?k, ?n) = None \<and> (length (skipped r) \<le> MAX_SKIPPED_KEYS \<longrightarrow> length (skipped r2) \<le> MAX_SKIPPED_KEYS)"
  proof (cases "same_remote P (dh_remote r) ?k")
    case False
    then have r1: "skip_message_keys P (previous_chain_length h) r = Ok r1" and "skipped r2 = skipped r1"
      and other: "dh_remote r \<noteq> Some ?k" using chained(2) by auto
    moreover have "map_of (skipped r1) (?k, ?n) = None"
      by (rule skip_message_keys_frame [OF r1]) (use other chained(1) in simp)
    ultimately show ?thesis using skip_message_keys_cap [OF r1] by simp
  qed (use chained(1,2) in simp)
  moreover have "map_of (skipped r3) (?k, ?n) = map_of (skipped r2) (?k, ?n)"
    by (rule skip_message_keys_frame [OF chained(3)]) simp
  ultimately show ?thesis using skip_message_keys_cap [OF chained(3)] chained(5) by simp
qed


lemma message_key_used_once_witness:
  "\<exists>m r'. decrypt toy [9] (init_responder toy [1, 2] [5]) (fst m) (snd m) [] = (r', Ok [10]) \<and>
    map_of (skipped r') (dh_public (fst m), message_number (fst m)) = None \<and> length (skipped r') \<le> 2000"
proof -
  let ?s = "init_initiator toy [7] [1, 2] (x_public toy [5])" and ?r = "init_responder toy [1, 2] [5]"
  obtain s' m where enc: "encrypt toy (replicate 12 0) ?s [10] [] = (s', Ok m)"
    using init_simps(4) [of toy "[7]" "[1, 2]" "x_public toy [5]"]
    by (auto simp: encrypt_def aead_encrypt_def Let_def split_beta simp del: init_simps)
  obtain r' where dec: "decrypt toy [9] ?r (fst m) (snd m) [] = (r', Ok [10])"
    using first_delivery [OF toy_laws(4,2) ahead_start [OF toy_laws(2)] _ enc] by (auto simp: MAX_SKIPPED_KEYS_def)
  then show ?thesis using message_key_used_once [OF dec] by (auto simp: MAX_SKIPPED_KEYS_def)
qed

subsection \<open>Persistence of a session\<close>

lemma length_root_kdf:
  "kdf_laws P \<Longrightarrow> root_kdf P rk dh = (r, c) \<Longrightarrow> length r = 32 \<and> length c = 32"
  by (auto simp: root_kdf_def kdf_laws_def Let_def)

lemma length_chain_ratchet:
  "kdf_laws P \<Longrightarrow> chain_ratchet P ck = (mk, ck') \<Longrightarrow> length mk = 32 \<and> length ck' = 32"
  by (auto simp: chain_ratchet_def kdf_laws_def)

definition wf_store :: "SkippedKeyStore \<Rightarrow> bool" where
  "wf_store st \<longleftrightarrow> skipped_ok st \<and> length st < 2 ^ 32 \<and> (\<forall>e \<in> set (skipped_entries st). wf_entry e)"

lemma set_update_subset: "set (AList.update k v st) \<subseteq> insert (k, v) (set st)"
  by (induction st) auto

lemma wf_store_insert:
  assumes "wf_store st" and "length k = 32" and "n < 2 ^ 32" and "length mk = 32" and "skipped_insert (k, n) mk st = Ok st'"
  shows "wf_store st'"
proof -
  have st': "st' = AList.update (k, n) mk st" and "length st < MAX_SKIPPED_KEYS"
    using assms(5) by (auto simp: skipped_insert_def split: if_splits)
  then have "length st' < 2 ^ 32" using length_update_le [of "(k, n)" mk st] by (simp add: MAX_SKIPPED_KEYS_def)
  moreover have "wf_entry e" if "e \<in> set (skipped_entries st')" for e
    using that assms(1-4) set_update_subset [of "(k, n)" mk st]
    by (fastforce simp: wf_store_def skipped_entries_def wf_entry_def st')
  ultimately show ?thesis using assms(1) by (simp add: wf_store_def skipped_ok_def st' distinct_update)
qed

lemma skip_loop_wf:
  assumes "kdf_laws P" and "length k = 32" and "until < 2 ^ 32"
  shows "skip_loop P k until ck r = Ok (ck', r1) \<Longrightarrow> wf_store (skipped r) \<Longrightarrow> length ck = 32 \<Longrightarrow>
    wf_store (skipped r1) \<and> length ck' = 32"
  using assms
proof (induction P k until ck r rule: skip_loop.induct)
  case (1 P k until ck r)
  show ?case
  proof (cases "recv_count r < until")
    case True
    let ?n = "recv_count r"
    obtain mk nck where step: "chain_ratchet P ck = (mk, nck)" by (cases "chain_ratchet P ck")
    obtain st where st: "skipped_insert (k, ?n) mk (skipped r) = Ok st"
      and rest: "skip_loop P k until nck (r\<lparr> skipped := st, recv_count := ?n + 1 \<rparr>) = Ok (ck', r1)"
      using "1.prems" True by (subst (asm) skip_loop.simps) (auto simp: step bind_res_Ok)
    have n: "?n < 2 ^ 32" using True "1.prems"(6) by linarith
    have keys: "length mk = 32" "length nck = 32" using length_chain_ratchet [OF "1.prems"(4) step] by auto
    have "wf_store st" by (rule wf_store_insert [OF "1.prems"(2,5) n keys(1) st])
    then show ?thesis using "1.IH" [OF True step [symmetric] refl st rest] "1.prems" keys(2) by simp
  qed (use "1.prems" in \<open>subst (asm) skip_loop.simps, auto\<close>)
qed

lemma wf_ratchet_store:
  "wf_ratchet P r \<longleftrightarrow> length (dh_self r) = 32 \<and> dh_self_public r = x_public P (dh_self r) \<and>
     (\<forall>x \<in> set_option (dh_remote r). length x = 32) \<and> length (root_key r) = 32 \<and>
     (\<forall>x \<in> set_option (sending_chain r). length x = 32) \<and>
     (\<forall>x \<in> set_option (receiving_chain r). length x = 32) \<and>
     send_count r < 2 ^ 32 \<and> recv_count r < 2 ^ 32 \<and> previous_sending_chain_length r < 2 ^ 32 \<and> wf_store (skipped r)"
  unfolding wf_ratchet_def wf_store_def by blast

lemma skip_message_keys_wf:
  assumes "kdf_laws P" and "until < 2 ^ 32" and "wf_ratchet P r" and "skip_message_keys P until r = Ok r1"
  shows "wf_ratchet P r1"
proof (cases "\<exists>k c. dh_remote r = Some k \<and> receiving_chain r = Some c")
  case True
  then obtain k c c' r2 where k: "dh_remote r = Some k" and c: "receiving_chain r = Some c"
    and loop: "skip_loop P k until c r = Ok (c', r2)" and r1: "r1 = r2\<lparr> receiving_chain := Some c' \<rparr>"
    using assms(4) by (auto simp: skip_message_keys_def bind_res_Ok)
  have "length k = 32" "length c = 32" "wf_store (skipped r)" using assms(3) k c by (simp_all add: wf_ratchet_store)
  from skip_loop_wf [OF assms(1) this(1) assms(2) loop this(3,2)]
  have "wf_store (skipped r2)" "length c' = 32" by auto
  moreover obtain st where "r2 = r\<lparr> skipped := st, recv_count := max until (recv_count r) \<rparr>"
    using skip_loop_frame [OF loop] by blast
  ultimately show ?thesis using assms(2,3) by (simp add: wf_ratchet_store r1)
next
  case False
  then show ?thesis using assms(3,4) by (auto simp: skip_message_keys_def split: option.splits)
qed

lemma dh_ratchet_step_wf:
  assumes "kdf_laws P" and "length rnd = 32" and "length k = 32" and "wf_ratchet P r"
  shows "wf_ratchet P (dh_ratchet_step P rnd k r)"
proof -
  obtain root ck where root: "root_kdf P (root_key r) (x_dh P (dh_self r) k) = (root, ck)"
    by (cases "root_kdf P (root_key r) (x_dh P (dh_self r) k)")
  obtain root' ck' where root': "root_kdf P root (x_dh P rnd k) = (root', ck')" by (cases "root_kdf P root (x_dh P rnd k)")
  show ?thesis
    using assms(2-4) length_root_kdf [OF assms(1) root] length_root_kdf [OF assms(1) root']
    by (simp add: wf_ratchet_store dh_ratchet_step_simps [OF root] root')
qed

lemma decrypt_wf:
  assumes "kdf_laws P" and "length rnd = 32" and "wf_message_header h" and "wf_ratchet P r"
    and "decrypt P rnd r h ct aad = (r', Ok pt)"
  shows "wf_ratchet P r'"
  using assms(5)
proof (cases rule: decrypt_cases)
  case (stored mk)
  let ?k = "(dh_public h, message_number h)"
  have "wf_store (AList.delete ?k (skipped r))"
  proof -
    have ok: "wf_store (skipped r)" using assms(4) by (simp add: wf_ratchet_store)
    have "set (AList.delete ?k (skipped r)) \<subseteq> set (skipped r)" by (auto simp: AList.delete_eq)
    then have "\<forall>e \<in> set (skipped_entries (AList.delete ?k (skipped r))). wf_entry e"
      using ok unfolding wf_store_def skipped_entries_def by fastforce
    then show ?thesis using ok length_delete_le [of ?k "skipped r"]
      by (simp add: wf_store_def skipped_ok_def distinct_delete)
  qed
  then show ?thesis using assms(4) stored(2) by (simp add: wf_ratchet_store)
next
  case (chained r1 r2 r3 ck)
  have h: "length (dh_public h) = 32" "previous_chain_length h < 2 ^ 32" "message_number h < 2 ^ 32"
    using assms(3) by (simp_all add: wf_message_header_def)
  have "wf_ratchet P r2"
    using chained(2) dh_ratchet_step_wf [OF assms(1,2) h(1)] skip_message_keys_wf [OF assms(1) h(2) assms(4)] assms(4)
    by (auto split: if_splits)
  then have "wf_ratchet P r3" by (rule skip_message_keys_wf [OF assms(1) h(3) _ chained(3)])
  moreover have "length (snd (chain_ratchet P ck)) = 32"
    using length_chain_ratchet [OF assms(1) prod.collapse [symmetric]] by blast
  ultimately show ?thesis by (simp add: wf_ratchet_store chained(5))
qed

lemma encrypt_wf:
  assumes "kdf_laws P" and "wf_ratchet P r"
  shows "wf_ratchet P (fst (encrypt P nonce r pt aad))"
proof (cases "sending_chain r")
  case (Some ck)
  have "length (snd (chain_ratchet P ck)) = 32"
    using length_chain_ratchet [OF assms(1) prod.collapse [symmetric]] by blast
  then show ?thesis using assms(2) Some by (simp add: encrypt_def split_beta wf_ratchet_store Let_def)
qed (simp add: encrypt_def assms(2))

text \<open>The ratchets a program can come to hold.\<close>

inductive ratchet_state :: "Primitives \<Rightarrow> DoubleRatchet \<Rightarrow> bool" for P where
  initiator: "length a = 32 \<Longrightarrow> length k = 32 \<Longrightarrow> ratchet_state P (init_initiator P a secret k)"
| responder: "length b = 32 \<Longrightarrow> length secret = 32 \<Longrightarrow> ratchet_state P (init_responder P secret b)"
| encrypted: "ratchet_state P r \<Longrightarrow> ratchet_state P (fst (encrypt P nonce r pt aad))"
| decrypted: "ratchet_state P r \<Longrightarrow> length rnd = 32 \<Longrightarrow> wf_message_header h \<Longrightarrow>
    ratchet_state P (fst (decrypt P rnd r h ct aad))"

lemma wf_store_Nil: "wf_store []"
  by (simp add: wf_store_def skipped_ok_def skipped_entries_def)

lemma ratchet_state_wf:
  assumes "kdf_laws P" and "ratchet_state P r"
  shows "wf_ratchet P r"
  using assms(2)
proof (induction rule: ratchet_state.induct)
  case (initiator a k secret)
  obtain root ck where root: "root_kdf P secret (x_dh P a k) = (root, ck)" by (cases "root_kdf P secret (x_dh P a k)")
  show ?case using initiator length_root_kdf [OF assms(1) root]
    by (simp add: init_initiator_def root wf_ratchet_store wf_store_Nil skipped_new_def)
next
  case (responder b secret)
  then show ?case by (simp add: init_responder_def wf_ratchet_store wf_store_Nil skipped_new_def)
next
  case (encrypted r nonce pt aad)
  then show ?case using encrypt_wf [OF assms(1)] by blast
next
  case (decrypted r rnd h ct aad)
  show ?case
  proof (cases "\<exists>r' pt. decrypt P rnd r h ct aad = (r', Ok pt)")
    case True
    then show ?thesis using decrypt_wf [OF assms(1) decrypted(2,3,4)] by auto
  next
    case False
    then have "fst (decrypt P rnd r h ct aad) = r" by (auto simp: decrypt_def split: res.splits prod.splits)
    then show ?thesis using decrypted.IH by simp
  qed
qed

end
