(* ===== verification/Handshake.thy ===== *)
theory Handshake
  imports Prekeys Session
begin

text \<open>
  \<^verbatim>\<open>packages/crypto-core/src/handshake\<close>: the X3DH handshake (\<^verbatim>\<open>x3dh.rs\<close>) and the secret it
  yields (\<^verbatim>\<open>shared_secret.rs\<close>), and what follows when a session is started on it.
\<close>

subsection \<open>Operations\<close>

datatype SharedSecret = SharedSecret (as_bytes: bytes)

definition shared_secret_from_bytes :: "bytes \<Rightarrow> (CryptoError, SharedSecret) res" where
  "shared_secret_from_bytes bs =
     (if length bs \<noteq> 32 then Err (InvalidKeyLength 32 (length bs)) else Ok (SharedSecret bs))"

record InitialMessage =
  initiator_identity :: IdentityPublicKey
  initiator_agreement_key :: SignedAgreementKeyPublic
  ephemeral_key :: bytes
  used_one_time_prekey :: "bytes option"

record HandshakeResult =
  shared_secret :: SharedSecret
  initial_message :: InitialMessage

definition initial_to_bytes :: "InitialMessage \<Rightarrow> bytes" where
  "initial_to_bytes m =
     verifying_key (initiator_identity m) @ ak_public (initiator_agreement_key m) @
     ak_signature (initiator_agreement_key m) @ ephemeral_key m @
     (case used_one_time_prekey m of Some otp \<Rightarrow> 1 # otp | None \<Rightarrow> [0])"

definition initial_from_bytes :: "Primitives \<Rightarrow> bytes \<Rightarrow> (CryptoError, InitialMessage) res" where
  "initial_from_bytes P input =
     (if length input < 32 + 32 + 64 + 32 + 1 then Err (Decode ''initial message too short'')
      else
        bind_res (identity_public_from_bytes P (slice 0 32 input)) (\<lambda>pk.
        bind_res (x25519_public_from_bytes (slice 32 64 input)) (\<lambda>agreement.
        bind_res (x25519_public_from_bytes (slice 128 160 input)) (\<lambda>ephemeral.
        bind_res
          (if input ! 160 = 0 then Ok None
           else if input ! 160 = 1 then
             bind_res (ok_or (Decode ''truncated one-time prekey reference'') (get_slice 161 193 input)) (\<lambda>otp_bytes.
             bind_res (x25519_public_from_bytes otp_bytes) (\<lambda>otp. Ok (Some otp)))
           else Err (Decode ''invalid one-time-prekey flag byte'')) (\<lambda>otp.
          Ok \<lparr> initiator_identity = pk,
               initiator_agreement_key = \<lparr> ak_public = agreement, ak_signature = slice 64 128 input \<rparr>,
               ephemeral_key = ephemeral, used_one_time_prekey = otp \<rparr>)))))"

definition X3DH_KDF_INFO :: bytes where
  "X3DH_KDF_INFO = ascii ''SpiritChat-X3DH-v1''"

definition derive_shared_secret :: "Primitives \<Rightarrow> bytes \<Rightarrow> bytes \<Rightarrow> bytes \<Rightarrow> bytes option \<Rightarrow> SharedSecret" where
  "derive_shared_secret P dh1 dh2 dh3 dh4 =
     (let ikm = replicate 32 0xff @ dh1 @ dh2 @ dh3 @ (case dh4 of Some dh4 \<Rightarrow> dh4 | None \<Rightarrow> []) in
      SharedSecret (hkdf_sha256 P (replicate 32 0) ikm X3DH_KDF_INFO 32))"

definition initiate ::
  "Primitives \<Rightarrow> bytes \<Rightarrow> IdentityKeyPair \<Rightarrow> AgreementKeyPair \<Rightarrow> PrekeyBundle \<Rightarrow>
    (CryptoError, HandshakeResult) res" where
  "initiate P random_secret my_identity my_agreement their_bundle =
     bind_res (bundle_verify P their_bundle) (\<lambda>_.
       let ephemeral_secret = random_secret;
           ephemeral_public = x_public P ephemeral_secret;
           dh1 = x_dh P (agreement_secret my_agreement) (spk_public (signed_prekey their_bundle));
           dh2 = x_dh P ephemeral_secret (ak_public (identity_agreement_key their_bundle));
           dh3 = x_dh P ephemeral_secret (spk_public (signed_prekey their_bundle));
           dh4 = map_option (x_dh P ephemeral_secret) (one_time_prekey their_bundle) in
       Ok \<lparr> shared_secret = derive_shared_secret P dh1 dh2 dh3 dh4,
            initial_message = \<lparr> initiator_identity = public_key P my_identity,
              initiator_agreement_key = agreement_sign_with P my_agreement my_identity,
              ephemeral_key = ephemeral_public, used_one_time_prekey = one_time_prekey their_bundle \<rparr> \<rparr>)"

definition respond ::
  "Primitives \<Rightarrow> AgreementKeyPair \<Rightarrow> PrekeyStore \<Rightarrow> InitialMessage \<Rightarrow>
    PrekeyStore \<times> (CryptoError, SharedSecret) res" where
  "respond P my_agreement st m =
     (case signed_agreement_verify P (initiator_agreement_key m) (initiator_identity m) of
        Ok _ \<Rightarrow>
          (let (one_time, st) =
             (case used_one_time_prekey m of
                Some key \<Rightarrow>
                  let (found, st) = take_one_time_secret P key st in
                  (bind_res (ok_or PrekeyExhausted found) (\<lambda>secret. Ok (Some secret)), st)
              | None \<Rightarrow> (Ok None, st)) in
           (st, bind_res one_time (\<lambda>one_time_secret.
             let dh1 = x_dh P (signed_prekey_secret st) (ak_public (initiator_agreement_key m));
                 dh2 = x_dh P (agreement_secret my_agreement) (ephemeral_key m);
                 dh3 = x_dh P (signed_prekey_secret st) (ephemeral_key m);
                 dh4 = map_option (\<lambda>secret. x_dh P secret (ephemeral_key m)) one_time_secret in
             Ok (derive_shared_secret P dh1 dh2 dh3 dh4))))
      | Err e \<Rightarrow> (st, Err e)
      | Panic \<Rightarrow> (st, Panic)
      | Diverge \<Rightarrow> (st, Diverge))"


subsection \<open>Agreement\<close>

definition own_card :: "Primitives \<Rightarrow> IdentityKeyPair \<Rightarrow> AgreementKeyPair \<Rightarrow> PrekeyStore \<Rightarrow> PrekeyStore \<times> PrekeyBundle" where
  "own_card P kp agreement st = public_bundle P (public_key P kp) (agreement_sign_with P agreement kp) st"

definition store_signed_by :: "Primitives \<Rightarrow> IdentityKeyPair \<Rightarrow> PrekeyStore \<Rightarrow> bool" where
  "store_signed_by P kp st \<longleftrightarrow>
     signed_prekey_signature st = sign_prekey P kp (x_public P (signed_prekey_secret st)) \<and> pool_ok P (store_pool st)"

lemma own_signature:
  "ed25519_laws P \<Longrightarrow> identity_verify P (public_key P kp) msg (identity_sign P kp msg) = Ok ()"
  by (simp add: identity_verify_def public_key_def identity_sign_def ed25519_laws_def)

lemma ak_public_sign_with: "ak_public (agreement_sign_with P kp owner) = x_public P (agreement_secret kp)"
  by (simp add: agreement_sign_with_def agreement_public_def Let_def)

lemma own_card_verifies:
  assumes "ed25519_laws P" and "store_signed_by P kp st" and "own_card P kp agreement st = (st', b)"
  shows "bundle_verify P b = Ok ()"
  using assms(2,3) own_signature [OF assms(1)]
  by (auto simp: own_card_def public_bundle_def bundle_verify_def signed_agreement_verify_def agreement_sign_with_def
      store_signed_by_def sign_prekey_def Let_def split: if_splits prod.splits)

lemma take_pushed:
  assumes "pool_ok P (pending @ [secret])"
  shows "take_secret P (pool_key P secret) (pending @ [secret]) = (Some secret, pending)"
proof -
  have "\<forall>s \<in> set pending. pool_key P s \<noteq> pool_key P secret" using assms by (simp add: pool_ok_def) (metis imageI)
  moreover from this have "pool_key P secret \<notin> dom (pool_lookup P pending)" by (simp add: domIff pool_lookup_None)
  then have "pool_lookup P (pending @ [secret]) (pool_key P secret) = Some secret"
    by (simp add: pool_lookup_def map_add_dom_app_simps(3))
  ultimately show ?thesis by (simp add: take_secret_eq [OF assms] filter_id_conv)
qed

lemma handshake_secret:
  assumes "ed25519_laws P" and "x25519_laws P" and "store_signed_by P bob st"
    and "own_card P bob bob_agreement st = (st', b)"
  shows "\<exists>result. initiate P rnd alice alice_agreement b = Ok result \<and>
    respond P bob_agreement st' (initial_message result) =
      (st\<lparr> available_one_time_secrets := butlast (available_one_time_secrets st) \<rparr>, Ok (shared_secret result))"
proof -
  have dh: "x_dh P a (x_public P b) = x_dh P b (x_public P a)" for a b
    using assms(2) by (simp add: x25519_laws_def)
  have verified: "signed_agreement_verify P (agreement_sign_with P alice_agreement alice) (public_key P alice) = Ok ()"
    using own_signature [OF assms(1)] by (simp add: signed_agreement_verify_def agreement_sign_with_def Let_def)
  note verify = own_card_verifies [OF assms(1,3,4)]
  show ?thesis
  proof (cases "available_one_time_secrets st" rule: rev_cases)
    case Nil
    then show ?thesis using assms(4)
      by (auto simp: initiate_def verify respond_def verified own_card_def public_bundle_def
          ak_public_sign_with Let_def dh)
  next
    case (snoc xs x)
    have "pool_ok P (pending_one_time_secrets st @ [x])"
      using assms(3) by (auto simp: store_signed_by_def pool_ok_def store_pool_def snoc)
    note tk = take_pushed [OF this, unfolded pool_key_def]
    show ?thesis using assms(4)
      by (auto simp: initiate_def verify respond_def verified own_card_def public_bundle_def
          ak_public_sign_with Let_def dh snoc take_one_time_secret_def tk)
  qed
qed


text \<open>Whoever scans a card and the one who showed it derive the same secret; the card's one-time
  prekey is spent, and nothing else in the store changes.\<close>

theorem handshake_agrees:
  assumes "ed25519_laws P" and "x25519_laws P" and "store_signed_by P bob st"
    and "own_card P bob bob_agreement st = (st', b)"
  shows "\<exists>result. initiate P rnd alice alice_agreement b = Ok result \<and>
    respond P bob_agreement st' (initial_message result) =
      (st\<lparr> available_one_time_secrets := butlast (available_one_time_secrets st) \<rparr>, Ok (shared_secret result))"
  by (rule handshake_secret [OF assms])

text \<open>The parties of the concrete runs.\<close>

definition toy_store :: PrekeyStore where
  "toy_store = prekey_generate toy (IdentityKeyPair [1]) [2] [[3], [4]]"

lemma toy_store_signed: "store_signed_by toy (IdentityKeyPair [1]) toy_store"
  by (simp add: store_signed_by_def toy_store_def prekey_generate_def pool_ok_def store_pool_def pool_key_def)

lemma handshake_agrees_witness:
  "\<exists>result. initiate toy [7] (IdentityKeyPair [5]) (AgreementKeyPair [6])
      (snd (own_card toy (IdentityKeyPair [1]) (AgreementKeyPair [8]) toy_store)) = Ok result \<and>
    respond toy (AgreementKeyPair [8]) (fst (own_card toy (IdentityKeyPair [1]) (AgreementKeyPair [8]) toy_store))
        (initial_message result) =
      (toy_store\<lparr> available_one_time_secrets := [[3]] \<rparr>, Ok (shared_secret result))"
  using handshake_agrees [OF toy_laws(1,2) toy_store_signed prod.collapse [symmetric], of "[7]" "IdentityKeyPair [5]" "AgreementKeyPair [6]" "AgreementKeyPair [8]"]
  by (simp add: toy_store_def prekey_generate_def)

text \<open>C30: what happens to an initial message that is delivered a second time. One that used a one-time
  prekey is refused, because the prekey is gone, and the store stays as it is; one that used none, as
  the card of an exhausted store makes it, is answered again, with the same secret.\<close>

theorem replayed_handshake:
  assumes "pool_ok P (pending_one_time_secrets st)" and "respond P agreement st m = (st', Ok secret)"
  shows "case used_one_time_prekey m of
      Some key \<Rightarrow> respond P agreement st' m = (st', Err PrekeyExhausted)
    | None \<Rightarrow> st' = st \<and> respond P agreement st' m = (st', Ok secret)"
proof (cases "used_one_time_prekey m")
  case None
  then have "st' = st" using assms(2) by (auto simp: respond_def Let_def split: res.splits)
  then show ?thesis using assms(2) None by simp
next
  case (Some key)
  let ?pending = "pending_one_time_secrets st"
  let ?pending' = "snd (take_secret P (x_canon P key) ?pending)"
  have verified: "signed_agreement_verify P (initiator_agreement_key m) (initiator_identity m) = Ok ()"
    and st': "st' = st\<lparr> pending_one_time_secrets := ?pending' \<rparr>"
    using assms(2) Some by (auto simp: respond_def take_one_time_secret_def split: res.splits prod.splits)
  have ok: "pool_ok P ?pending'" by (rule pool.inv_take [OF assms(1)])
  have none: "fst (take_secret P (x_canon P key) ?pending') = None" by (rule pool.take_once [OF assms(1)])
  then have "snd (take_secret P (x_canon P key) ?pending') = ?pending'"
    by (simp add: take_secret_eq [OF ok] filter_id_conv pool_lookup_None)
  then have "take_one_time_secret P key st' = (None, st')"
    using none by (simp add: take_one_time_secret_def st' split_beta)
  then show ?thesis by (simp add: respond_def verified Some)
qed


text \<open>A store in which the first card has been handed out, and the message that answers it.\<close>

lemma toy_handshake:
  "\<exists>result. initiate toy [7] (IdentityKeyPair [5]) (AgreementKeyPair [6])
      (snd (own_card toy (IdentityKeyPair [1]) (AgreementKeyPair [8]) toy_store)) = Ok result \<and>
    used_one_time_prekey (initial_message result) = Some (x_public toy [4]) \<and>
    respond toy (AgreementKeyPair [8]) (fst (own_card toy (IdentityKeyPair [1]) (AgreementKeyPair [8]) toy_store))
        (initial_message result) =
      (toy_store\<lparr> available_one_time_secrets := [[3]] \<rparr>, Ok (shared_secret result))"
proof -
  obtain result where run: "initiate toy [7] (IdentityKeyPair [5]) (AgreementKeyPair [6])
      (snd (own_card toy (IdentityKeyPair [1]) (AgreementKeyPair [8]) toy_store)) = Ok result"
    "respond toy (AgreementKeyPair [8]) (fst (own_card toy (IdentityKeyPair [1]) (AgreementKeyPair [8]) toy_store))
        (initial_message result) =
      (toy_store\<lparr> available_one_time_secrets := [[3]] \<rparr>, Ok (shared_secret result))"
    using handshake_secret [OF toy_laws(1,2) toy_store_signed prod.collapse [symmetric], of "[7]" "IdentityKeyPair [5]" "AgreementKeyPair [6]" "AgreementKeyPair [8]"]
    by (auto simp: toy_store_def prekey_generate_def)
  moreover have "used_one_time_prekey (initial_message result) = Some (x_public toy [4])"
    using run(1) by (auto simp: initiate_def bind_res_Ok Let_def own_card_def public_bundle_def toy_store_def prekey_generate_def)
  ultimately show ?thesis by blast
qed

definition empty_store :: PrekeyStore where
  "empty_store = prekey_generate toy (IdentityKeyPair [1]) [2] []"

lemma replayed_handshake_witness:
  "(\<exists>m st st'. fst (respond toy (AgreementKeyPair [8]) st m) = st' \<and> returns (snd (respond toy (AgreementKeyPair [8]) st m)) \<and>
      respond toy (AgreementKeyPair [8]) st' m = (st', Err PrekeyExhausted)) \<and>
    (\<exists>m secret. used_one_time_prekey m = None \<and> respond toy (AgreementKeyPair [8]) empty_store m = (empty_store, Ok secret))"
proof
  let ?st = "fst (own_card toy (IdentityKeyPair [1]) (AgreementKeyPair [8]) toy_store)"
  obtain result :: HandshakeResult where run: "used_one_time_prekey (initial_message result) = Some (x_public toy [4])"
    "respond toy (AgreementKeyPair [8]) ?st (initial_message result) =
      (toy_store\<lparr> available_one_time_secrets := [[3]] \<rparr>, Ok (shared_secret result))"
    using toy_handshake by blast
  have "pool_ok toy (pending_one_time_secrets ?st)"
    by (simp add: own_card_def public_bundle_def toy_store_def prekey_generate_def pool_ok_def Let_def)
  from replayed_handshake [OF this run(2)] show "\<exists>m st st'. fst (respond toy (AgreementKeyPair [8]) st m) = st' \<and>
      returns (snd (respond toy (AgreementKeyPair [8]) st m)) \<and> respond toy (AgreementKeyPair [8]) st' m = (st', Err PrekeyExhausted)"
    using run by (intro exI [of _ "initial_message result"] exI [of _ ?st] exI [of _ "toy_store\<lparr> available_one_time_secrets := [[3]] \<rparr>"]) simp
next
  have signed: "store_signed_by toy (IdentityKeyPair [1]) empty_store" and empty: "pending_one_time_secrets empty_store = []"
    and same: "empty_store\<lparr>available_one_time_secrets := butlast (available_one_time_secrets empty_store)\<rparr> = empty_store"
    by (simp_all add: store_signed_by_def empty_store_def prekey_generate_def pool_ok_def store_pool_def)
  have card: "own_card toy (IdentityKeyPair [1]) (AgreementKeyPair [8]) empty_store =
      (empty_store, snd (own_card toy (IdentityKeyPair [1]) (AgreementKeyPair [8]) empty_store))"
    by (simp add: own_card_def public_bundle_def empty_store_def prekey_generate_def Let_def)
  from handshake_secret [OF toy_laws(1,2) signed card, of "[7]" "IdentityKeyPair [5]" "AgreementKeyPair [6]"] obtain result where
    r: "initiate toy [7] (IdentityKeyPair [5]) (AgreementKeyPair [6])
        (snd (own_card toy (IdentityKeyPair [1]) (AgreementKeyPair [8]) empty_store)) = Ok result"
    "respond toy (AgreementKeyPair [8]) empty_store (initial_message result) = (empty_store, Ok (shared_secret result))"
    unfolding same by blast
  have none: "used_one_time_prekey (initial_message result) = None"
    using r(1) by (auto simp: initiate_def bind_res_Ok Let_def own_card_def public_bundle_def empty_store_def prekey_generate_def)
  have "pool_ok toy (pending_one_time_secrets empty_store)" by (simp add: empty pool_ok_def)
  from replayed_handshake [OF this r(2)] none
  show "\<exists>m secret. used_one_time_prekey m = None \<and> respond toy (AgreementKeyPair [8]) empty_store m = (empty_store, Ok secret)"
    by auto
qed

subsection \<open>The first message\<close>

text \<open>Contact made offline works end to end: after a card is scanned, the handshake answered and
  both ratchets started, the first message of the initiator is read by the owner of the card.\<close>

theorem first_contact:
  assumes "ed25519_laws P" and "x25519_laws P" and "aead_laws P" and "store_signed_by P bob st"
    and "own_card P bob bob_agreement st = (st', b)"
    and "initiate P e alice alice_agreement b = Ok result"
    and "respond P bob_agreement st' (initial_message result) = (st'', Ok secret)"
    and "encrypt P nonce (init_initiator P a (as_bytes (shared_secret result)) (spk_public (signed_prekey b))) pt aad = (s, Ok m)"
    and "length nonce = 12"
  shows "\<exists>r. decrypt P rnd (init_responder P (as_bytes secret) (signed_prekey_secret st'')) (fst m) (snd m) aad = (r, Ok pt)"
proof -
  from handshake_secret [OF assms(1,2,4,5), of e alice alice_agreement] assms(6,7)
  have same: "secret = shared_secret result" "signed_prekey_secret st'' = signed_prekey_secret st" by auto
  have spk: "spk_public (signed_prekey b) = x_public P (signed_prekey_secret st)"
    using assms(5) by (auto simp: own_card_def public_bundle_def Let_def split: if_splits)
  show ?thesis
    using first_delivery [OF assms(3,2) ahead_start [OF assms(2)] assms(9) assms(8) [unfolded spk]]
    by (auto simp: same MAX_SKIPPED_KEYS_def)
qed

lemma first_contact_witness:
  "\<exists>result secret s m r.
    initiate toy [7] (IdentityKeyPair [5]) (AgreementKeyPair [6])
      (snd (own_card toy (IdentityKeyPair [1]) (AgreementKeyPair [8]) toy_store)) = Ok result \<and>
    encrypt toy (replicate 12 0) (init_initiator toy [9] (as_bytes (shared_secret result)) (x_public toy [2])) [42] [] = (s, Ok m) \<and>
    decrypt toy [10] (init_responder toy (as_bytes secret) [2]) (fst m) (snd m) [] = (r, Ok [42])"
proof -
  let ?card = "own_card toy (IdentityKeyPair [1]) (AgreementKeyPair [8]) toy_store"
  obtain result where run: "initiate toy [7] (IdentityKeyPair [5]) (AgreementKeyPair [6]) (snd ?card) = Ok result"
    "respond toy (AgreementKeyPair [8]) (fst ?card) (initial_message result) =
      (toy_store\<lparr> available_one_time_secrets := [[3]] \<rparr>, Ok (shared_secret result))"
    using toy_handshake by blast
  have spk: "spk_public (signed_prekey (snd ?card)) = x_public toy [2]"
    by (simp add: own_card_def public_bundle_def toy_store_def prekey_generate_def Let_def)
  let ?s = "init_initiator toy [9] (as_bytes (shared_secret result)) (x_public toy [2])"
  obtain s m where enc: "encrypt toy (replicate 12 0) ?s [42] [] = (s, Ok m)"
    using init_simps(4) [of toy "[9]" "as_bytes (shared_secret result)" "x_public toy [2]"]
    by (auto simp: encrypt_def aead_encrypt_def Let_def split_beta simp del: init_simps)
  obtain r where "decrypt toy [10] (init_responder toy (as_bytes (shared_secret result)) [2]) (fst m) (snd m) [] = (r, Ok [42])"
    using first_contact [OF toy_laws(1,2,4) toy_store_signed prod.collapse [symmetric] run enc [folded spk]]
    by (auto simp: toy_store_def prekey_generate_def)
  then show ?thesis using run(1) enc by blast
qed

subsection \<open>Initial messages on the wire\<close>

definition wf_initial :: "Primitives \<Rightarrow> InitialMessage \<Rightarrow> bool" where
  "wf_initial P m \<longleftrightarrow> length (verifying_key (initiator_identity m)) = 32 \<and> vk_valid P (verifying_key (initiator_identity m)) \<and>
     length (ak_public (initiator_agreement_key m)) = 32 \<and> length (ak_signature (initiator_agreement_key m)) = 64 \<and>
     length (ephemeral_key m) = 32 \<and> (\<forall>k \<in> set_option (used_one_time_prekey m). length k = 32)"

text \<open>The message that starts a handshake is read back as it was sent.\<close>

theorem initial_message_roundtrip:
  assumes "wf_initial P m"
  shows "initial_from_bytes P (initial_to_bytes m @ rest) = Ok m"
  using assms
  by (cases m, cases "initiator_identity m", cases "used_one_time_prekey m")
    (auto simp: wf_initial_def initial_from_bytes_def initial_to_bytes_def slice_def get_slice_def
      identity_public_from_bytes_def x25519_public_from_bytes_def nth_append)

lemma initial_message_roundtrip_witness:
  "initial_from_bytes toy (initial_to_bytes \<lparr> initiator_identity = IdentityPublicKey (replicate 32 1),
      initiator_agreement_key = \<lparr> ak_public = replicate 32 2, ak_signature = replicate 64 3 \<rparr>,
      ephemeral_key = replicate 32 4, used_one_time_prekey = None \<rparr> @ [5]) =
    Ok \<lparr> initiator_identity = IdentityPublicKey (replicate 32 1),
      initiator_agreement_key = \<lparr> ak_public = replicate 32 2, ak_signature = replicate 64 3 \<rparr>,
      ephemeral_key = replicate 32 4, used_one_time_prekey = None \<rparr>"
  by (rule initial_message_roundtrip) (simp add: wf_initial_def)

end
