(* ===== verification/Recovery.thy ===== *)
theory Recovery
  imports Identity
begin

text \<open>
  \<^verbatim>\<open>packages/crypto-core/src/identity/fingerprint.rs\<close> and \<^verbatim>\<open>mnemonic.rs\<close>, and
  \<^verbatim>\<open>encoding/base64url.rs\<close>: what a person reads, writes down or scans. Word lists, the seed
  derivation of BIP39 and the base64 alphabet are parameters.
\<close>

subsection \<open>Fingerprints\<close>

text \<open>\<^verbatim>\<open>format!("{:012}")\<close> of a number below \<^verbatim>\<open>10^12\<close>, and the groups of four joined by spaces.\<close>

definition decimal_digit :: "nat \<Rightarrow> byte" where
  "decimal_digit n = word_of_nat (48 + n mod 10)"

definition format_012 :: "nat \<Rightarrow> bytes" where
  "format_012 n = map (\<lambda>i. decimal_digit (n div 10 ^ (11 - i))) [0..<12]"

fun chunks4 :: "bytes \<Rightarrow> bytes list" where
  "chunks4 [] = []"
| "chunks4 (x # xs) = take 4 (x # xs) # chunks4 (drop 3 xs)"

definition fingerprint_of :: "Primitives \<Rightarrow> IdentityPublicKey \<Rightarrow> bytes" where
  "fingerprint_of P pk =
     (let digest = sha256 P (verifying_key pk);
          n = foldl (\<lambda>n b. (n * 256) mod 2 ^ 64 + unat b) 0 (take 5 digest);
          digits = n mod 1000000000000;
          raw = format_012 digits in
      join_with (ascii '' '') (chunks4 raw))"

subsection \<open>Recovery phrases\<close>

datatype RecoveryPhrase = RecoveryPhrase (mnemonic: "bytes list")

definition SLIP10_ED25519_SEED_KEY :: bytes where
  "SLIP10_ED25519_SEED_KEY = ascii ''ed25519 seed''"

definition ENTROPY_BYTES :: nat where
  "ENTROPY_BYTES = 16"

definition slip10_ed25519_master_key :: "Primitives \<Rightarrow> bytes \<Rightarrow> bytes" where
  "slip10_ed25519_master_key P seed = take 32 (hmac_sha512 P SLIP10_ED25519_SEED_KEY seed)"

definition phrase_generate :: "Primitives \<Rightarrow> bytes \<Rightarrow> RecoveryPhrase" where
  "phrase_generate P random = RecoveryPhrase (bip39_words P (take ENTROPY_BYTES random))"

definition phrase_parse :: "Primitives \<Rightarrow> bytes \<Rightarrow> (CryptoError, RecoveryPhrase) res" where
  "phrase_parse P phrase =
     bind_res (map_err InvalidRecoveryPhrase (bip39_parse P phrase)) (\<lambda>ws. Ok (RecoveryPhrase ws))"

definition phrase_words :: "RecoveryPhrase \<Rightarrow> bytes" where
  "phrase_words ph = join_with (ascii '' '') (mnemonic ph)"

definition derive_identity_seed :: "Primitives \<Rightarrow> RecoveryPhrase \<Rightarrow> bytes" where
  "derive_identity_seed P ph = slip10_ed25519_master_key P (bip39_seed P (mnemonic ph))"

text \<open>\<^verbatim>\<open>bip39\<close>: the words of sixteen bytes of entropy, written with spaces, are parsed back.\<close>

definition bip39_laws :: "Primitives \<Rightarrow> bool" where
  "bip39_laws P \<longleftrightarrow>
     (\<forall>e. length e = 16 \<longrightarrow> bip39_parse P (join_with (ascii '' '') (bip39_words P e)) = Ok (bip39_words P e)) \<and>
     (\<forall>k m. length (hmac_sha512 P k m) = 64)"

subsection \<open>Base64\<close>

definition base64url_encode :: "Primitives \<Rightarrow> bytes \<Rightarrow> bytes" where
  "base64url_encode P bs = b64_encode P bs"

definition base64url_decode :: "Primitives \<Rightarrow> bytes \<Rightarrow> (CryptoError, bytes) res" where
  "base64url_decode P txt = ok_or (Decode ''invalid base64url'') (b64_decode P txt)"

subsection \<open>Properties\<close>

lemma length_format_012 [simp]: "length (format_012 n) = 12"
  by (simp add: format_012_def)

lemma list_12:
  assumes "length xs = 12"
  obtains a b c where "xs = a @ b @ c" "length a = 4" "length b = 4" "length c = 4"
  by (rule that [of "take 4 xs" "take 4 (drop 4 xs)" "drop 8 xs"])
    (use assms append_take_drop_id [of 4 xs] append_take_drop_id [of 4 "drop 4 xs"] in simp_all)

lemma chunks4_append: "length a = 4 \<Longrightarrow> chunks4 (a @ xs) = a # chunks4 xs"
  by (cases a) auto

lemma decimal_digit_inj: "decimal_digit m = decimal_digit n \<longleftrightarrow> m mod 10 = n mod 10"
proof
  assume "decimal_digit m = decimal_digit n"
  then have "unat (decimal_digit m) = unat (decimal_digit n)" by simp
  moreover have "(48 + k mod 10) mod 256 = 48 + k mod 10" for k :: nat
    by (rule mod_less) (use mod_less_divisor [of 10 k] in linarith)
  ultimately show "m mod 10 = n mod 10" by (simp only: decimal_digit_def unat_byte)
qed (simp add: decimal_digit_def)

lemma decimal_digits_inj:
  fixes m n :: nat
  assumes "\<forall>j < k. m div 10 ^ j mod 10 = n div 10 ^ j mod 10" and "m < 10 ^ k" and "n < 10 ^ k"
  shows "m = n"
  using assms
proof (induction k arbitrary: m n)
  case (Suc k)
  have "m mod 10 = n mod 10" using Suc.prems(1) [rule_format, of 0] by simp
  moreover have "m div 10 = n div 10"
  proof (rule Suc.IH)
    show "\<forall>j < k. m div 10 div 10 ^ j mod 10 = n div 10 div 10 ^ j mod 10"
    proof (intro allI impI)
      fix j assume "j < k"
      then show "m div 10 div 10 ^ j mod 10 = n div 10 div 10 ^ j mod 10"
        using Suc.prems(1) [rule_format, of "Suc j"] by (simp add: div_mult2_eq)
    qed
  qed (use Suc.prems in \<open>simp_all add: less_mult_imp_div_less mult.commute\<close>)
  ultimately show ?case by (metis div_mult_mod_eq)
qed simp

lemma format_012_inj: "m < 10 ^ 12 \<Longrightarrow> n < 10 ^ 12 \<Longrightarrow> format_012 m = format_012 n \<Longrightarrow> m = n"
proof (rule decimal_digits_inj [of 12])
  assume eq: "format_012 m = format_012 n"
  show "\<forall>j < 12. m div 10 ^ j mod 10 = n div 10 ^ j mod 10"
  proof (intro allI impI)
    fix j :: nat assume "j < 12"
    then have "[0..<12] ! (11 - j) = 11 - j" and "11 - (11 - j) = j" by (simp_all del: upt_Suc)
    then have "format_012 k ! (11 - j) = decimal_digit (k div 10 ^ j)" for k
      by (simp add: format_012_def)
    then show "m div 10 ^ j mod 10 = n div 10 ^ j mod 10" using eq by (metis decimal_digit_inj)
  qed
qed

lemma fold_be: "length bs \<le> 7 \<Longrightarrow> foldl (\<lambda>n b. (n * 256) mod 2 ^ 64 + unat b) 0 bs = of_be bs"
proof (induction bs rule: rev_induct)
  case (snoc b bs)
  have "of_be bs < 256 ^ length bs" by (rule of_be_bound)
  also have "\<dots> \<le> 256 ^ 6" using snoc.prems by (intro power_increasing) simp_all
  finally have "of_be bs * 256 < 2 ^ 64" by simp
  then show ?case using snoc by (simp add: of_be_append)
qed simp

text \<open>What the fingerprint shows of a key.\<close>

definition shown_number :: "Primitives \<Rightarrow> IdentityPublicKey \<Rightarrow> nat" where
  "shown_number P pk = of_be (take 5 (sha256 P (verifying_key pk))) mod 10 ^ 12"

lemma fingerprint_eq: "fingerprint_of P pk = join_with (ascii '' '') (chunks4 (format_012 (shown_number P pk)))"
  using fold_be [of "take 5 (sha256 P (verifying_key pk))"]
  by (simp add: fingerprint_of_def Let_def shown_number_def)

lemma fingerprint_groups:
  obtains a b c where "fingerprint_of P pk = a @ ascii '' '' @ b @ ascii '' '' @ c"
    and "length a = 4" and "length b = 4" and "length c = 4" and "a @ b @ c = format_012 (shown_number P pk)"
proof -
  obtain a b c where abc: "format_012 (shown_number P pk) = a @ b @ c" "length a = 4" "length b = 4" "length c = 4"
    by (rule list_12 [OF length_format_012])
  have "chunks4 (a @ b @ c) = [a, b, c]" using abc(2-4) chunks4_append [of c "[]"] by (simp add: chunks4_append)
  then have "fingerprint_of P pk = a @ ascii '' '' @ b @ ascii '' '' @ c"
    by (simp add: fingerprint_eq abc(1))
  then show ?thesis using that abc by metis
qed

text \<open>A fingerprint is three groups of four digits, and two keys have the same fingerprint exactly
  when the first forty bits of their hashes agree modulo ten to the twelve.\<close>

theorem fingerprint_compares_hashes:
  "length (fingerprint_of P pk) = 14 \<and>
   (fingerprint_of P pk = fingerprint_of P pk' \<longleftrightarrow> shown_number P pk = shown_number P pk')"
proof -
  obtain a b c where f: "fingerprint_of P pk = a @ ascii '' '' @ b @ ascii '' '' @ c"
    "length a = 4" "length b = 4" "length c = 4" "a @ b @ c = format_012 (shown_number P pk)"
    by (rule fingerprint_groups)
  obtain a' b' c' where f': "fingerprint_of P pk' = a' @ ascii '' '' @ b' @ ascii '' '' @ c'"
    "length a' = 4" "length b' = 4" "length c' = 4" "a' @ b' @ c' = format_012 (shown_number P pk')"
    by (rule fingerprint_groups)
  have "shown_number P q < 10 ^ 12" for q by (simp add: shown_number_def)
  moreover have "fingerprint_of P pk = fingerprint_of P pk' \<Longrightarrow> format_012 (shown_number P pk) = format_012 (shown_number P pk')"
    using f f' by auto
  moreover have "fingerprint_of P pk = fingerprint_of P pk'" if "shown_number P pk = shown_number P pk'"
    by (simp add: fingerprint_eq that)
  ultimately show ?thesis using f(1-4) format_012_inj by auto
qed

text \<open>An account recovered from its written phrase has the key pair it was created with.\<close>

theorem recovered_identity_same:
  assumes "bip39_laws P" and "16 \<le> length random"
  shows "bind_res (phrase_parse P (phrase_words (phrase_generate P random)))
      (\<lambda>ph. identity_key_from_bytes (derive_identity_seed P ph)) =
    Ok (IdentityKeyPair (derive_identity_seed P (phrase_generate P random)))"
  using assms
  by (simp add: phrase_parse_def phrase_words_def phrase_generate_def bip39_laws_def ENTROPY_BYTES_def
      derive_identity_seed_def slip10_ed25519_master_key_def identity_key_from_bytes_def)

lemma recovered_identity_same_witness:
  "bind_res (phrase_parse toy (phrase_words (phrase_generate toy (replicate 16 3))))
      (\<lambda>ph. identity_key_from_bytes (derive_identity_seed toy ph)) =
    Ok (IdentityKeyPair (derive_identity_seed toy (phrase_generate toy (replicate 16 3))))"
  by (rule recovered_identity_same) (simp_all add: bip39_laws_def toy_def)

end
