(* ===== verification/Hash.thy ===== *)
theory Hash
  imports Prelude "HOL-Library.List_Lexorder"
begin

text \<open>
  \<^verbatim>\<open>packages/ledger-core/src/hash.rs\<close>: the 32-byte digest type and its order, which is also
  the proof-of-work comparison. SHA-256 itself (crate \<^verbatim>\<open>sha2\<close>) is a parameter.
\<close>

datatype Hash32 = Hash32 (hash_bytes: bytes)

definition wf_hash :: "Hash32 \<Rightarrow> bool" where
  "wf_hash h \<longleftrightarrow> length (hash_bytes h) = 32"

definition ZERO :: Hash32 where
  "ZERO = Hash32 (replicate 32 0)"

text \<open>\<^verbatim>\<open>Hash32::of\<close>; \<open>sha\<close> stands for \<^verbatim>\<open>Sha256::digest\<close>.\<close>

definition hash_of :: "(bytes \<Rightarrow> bytes) \<Rightarrow> bytes \<Rightarrow> Hash32" where
  "hash_of sha bs = Hash32 (sha bs)"

text \<open>The derived \<^verbatim>\<open>Ord\<close> of a newtype over \<^verbatim>\<open>[u8; 32]\<close>: lexicographic on the bytes.\<close>

instantiation Hash32 :: linorder
begin

definition less_eq_Hash32 :: "Hash32 \<Rightarrow> Hash32 \<Rightarrow> bool" where
  "less_eq_Hash32 a b \<longleftrightarrow> hash_bytes a \<le> hash_bytes b"

definition less_Hash32 :: "Hash32 \<Rightarrow> Hash32 \<Rightarrow> bool" where
  "less_Hash32 a b \<longleftrightarrow> hash_bytes a < hash_bytes b"

instance
  by standard (auto simp: less_eq_Hash32_def less_Hash32_def intro: Hash32.expand)

end

definition meets_target :: "Hash32 \<Rightarrow> Hash32 \<Rightarrow> bool" where
  "meets_target h target \<longleftrightarrow> h \<le> target"

text \<open>What \<^verbatim>\<open>sha2\<close> documents and the code relies on: a digest has 32 bytes.\<close>

definition digest32 :: "(bytes \<Rightarrow> bytes) \<Rightarrow> bool" where
  "digest32 sha \<longleftrightarrow> (\<forall>bs. length (sha bs) = 32)"

lemma wf_hash_of: "digest32 sha \<Longrightarrow> wf_hash (hash_of sha bs)"
  by (simp add: digest32_def wf_hash_def hash_of_def)

lemma wf_ZERO [simp]: "wf_hash ZERO"
  by (simp add: wf_hash_def ZERO_def)

subsection \<open>The byte order is the numeric order\<close>

definition hash_value :: "Hash32 \<Rightarrow> nat" where
  "hash_value h = of_be (hash_bytes h)"

lemma hash_value_bound: "wf_hash h \<Longrightarrow> hash_value h < 2 ^ 256"
  using of_be_bound [of "hash_bytes h"] by (simp add: wf_hash_def hash_value_def)

lemma hash_value_ZERO [simp]: "hash_value ZERO = 0"
  by (simp add: hash_value_def ZERO_def)

lemma hash_value_inj: "wf_hash a \<Longrightarrow> wf_hash b \<Longrightarrow> hash_value a = hash_value b \<Longrightarrow> a = b"
  using of_be_inj [of "hash_bytes a" "hash_bytes b"]
  by (simp add: wf_hash_def hash_value_def Hash32.expand)

lemma digit_less:
  fixes x y a b k :: nat
  assumes "x < y" and "a < k"
  shows "x * k + a < y * k + b"
proof -
  have "x * k + a < Suc x * k" using assms(2) by simp
  also have "\<dots> \<le> y * k" using assms(1) by (intro mult_right_mono) simp_all
  finally show ?thesis by simp
qed

lemma lexicographic_less_iff:
  fixes xs ys :: bytes
  shows "length xs = length ys \<Longrightarrow> xs < ys \<longleftrightarrow> of_be xs < of_be ys"
proof (induction xs ys rule: list_induct2)
  case (Cons x xs y ys)
  consider "x < y" | "y < x" | "x = y" by (rule linorder_less_linear [of x y, THEN disjE]) auto
  then show ?case
  proof cases
    case 1
    then have "unat x < unat y" by (simp add: word_less_nat_alt)
    then have "of_be (x # xs) < of_be (y # ys)"
      using of_be_bound [of xs] Cons.hyps by (simp add: digit_less)
    with 1 show ?thesis by simp
  next
    case 2
    then have "unat y < unat x" by (simp add: word_less_nat_alt)
    then have "of_be (y # ys) < of_be (x # xs)"
      using of_be_bound [of ys] Cons.hyps by (simp add: digit_less)
    with 2 show ?thesis by auto
  next
    case 3
    with Cons show ?thesis by simp
  qed
qed simp

lemma hash_le_iff: "wf_hash a \<Longrightarrow> wf_hash b \<Longrightarrow> a \<le> b \<longleftrightarrow> hash_value a \<le> hash_value b"
  using lexicographic_less_iff [of "hash_bytes b" "hash_bytes a"]
  by (simp add: wf_hash_def hash_value_def less_eq_Hash32_def linorder_not_less [symmetric])

end
