(* ===== verification/Transaction.thy ===== *)
theory Transaction
  imports Identity Hash
begin

text \<open>
  \<^verbatim>\<open>packages/ledger-core/src/transaction.rs\<close> and \<^verbatim>\<open>error.rs\<close>: the signed username claim.
\<close>

subsection \<open>Errors\<close>

datatype LedgerError =
    InvalidUsername string
  | SignatureInvalid
  | TooManyTransactions nat nat
  | BlockTooLarge nat nat
  | TxCommitmentMismatch
  | ProofOfWorkInvalid
  | DifficultyMismatch nat
  | UnknownParent Hash32
  | HeightMismatch nat nat
  | TimestampTooOld
  | TimestampTooFarInFuture
  | AnchorInvalid
  | UsernameAlreadyClaimed bytes
  | DuplicateClaimInBlock bytes
  | UnknownBlock Hash32
  | HeightNotFound nat
  | GenesisMismatch
  | Storage string

subsection \<open>Usernames\<close>

definition MIN_USERNAME_LEN :: nat where
  "MIN_USERNAME_LEN = 5"

definition MAX_USERNAME_LEN :: nat where
  "MAX_USERNAME_LEN = 32"

definition is_ascii_space :: "byte \<Rightarrow> bool" where
  "is_ascii_space b \<longleftrightarrow> b = 32 \<or> 9 \<le> b \<and> b \<le> 13"

definition is_ascii_uppercase :: "byte \<Rightarrow> bool" where
  "is_ascii_uppercase b \<longleftrightarrow> 65 \<le> b \<and> b \<le> 90"

definition is_ascii_lowercase :: "byte \<Rightarrow> bool" where
  "is_ascii_lowercase b \<longleftrightarrow> 97 \<le> b \<and> b \<le> 122"

definition is_ascii_digit :: "byte \<Rightarrow> bool" where
  "is_ascii_digit b \<longleftrightarrow> 48 \<le> b \<and> b \<le> 57"

definition ascii_lower :: "byte \<Rightarrow> byte" where
  "ascii_lower b = (if is_ascii_uppercase b then b + 32 else b)"

definition ascii_trim :: "bytes \<Rightarrow> bytes" where
  "ascii_trim u = rev (dropWhile is_ascii_space (rev (dropWhile is_ascii_space u)))"

text \<open>\<^verbatim>\<open>trim().to_lowercase()\<close>, exact on ASCII; elsewhere the Unicode tables decide.\<close>

definition normalize_username :: "Primitives \<Rightarrow> bytes \<Rightarrow> bytes" where
  "normalize_username P username =
     (if \<forall>b \<in> set username. b < 128 then map ascii_lower (ascii_trim username)
      else unicode_trim_lower P username)"

definition username_byte :: "byte \<Rightarrow> bool" where
  "username_byte b \<longleftrightarrow> is_ascii_lowercase b \<or> is_ascii_digit b \<or> b = 95"

definition validate_username_format :: "bytes \<Rightarrow> (LedgerError, unit) res" where
  "validate_username_format username =
     (if length username < MIN_USERNAME_LEN
      then Err (InvalidUsername ''shorter than the 5-character minimum'')
      else if MAX_USERNAME_LEN < length username
      then Err (InvalidUsername ''longer than the 32-character maximum'')
      else if \<not> list_all username_byte username
      then Err (InvalidUsername ''must be lowercase letters, digits, or '_' only'')
      else Ok ())"

subsection \<open>Transactions\<close>

record Transaction =
  tx_version :: byte
  username :: bytes
  owner_public_key :: bytes
  claimed_at_height_hint :: nat
  anchor_block_hash :: Hash32
  tx_nonce :: bytes
  signature :: bytes

definition CLAIM_DOMAIN_TAG :: bytes where
  "CLAIM_DOMAIN_TAG = ascii ''spiritchat-ledger-claim-v1''"

definition signing_preimage :: "bytes \<Rightarrow> bytes \<Rightarrow> nat \<Rightarrow> Hash32 \<Rightarrow> bytes \<Rightarrow> bytes" where
  "signing_preimage name owner height_hint anchor nonce =
     CLAIM_DOMAIN_TAG @ le_bytes 2 (length name) @ name @ owner @
     le_bytes 8 height_hint @ hash_bytes anchor @ nonce"

definition tx_preimage :: "Transaction \<Rightarrow> bytes" where
  "tx_preimage tx = signing_preimage (username tx) (owner_public_key tx)
     (claimed_at_height_hint tx) (anchor_block_hash tx) (tx_nonce tx)"

definition new_claim ::
  "Primitives \<Rightarrow> IdentityKeyPair \<Rightarrow> bytes \<Rightarrow> nat \<Rightarrow> Hash32 \<Rightarrow> bytes \<Rightarrow> (LedgerError, Transaction) res" where
  "new_claim P identity name height_hint anchor nonce =
     (let name = normalize_username P name in
      bind_res (validate_username_format name) (\<lambda>_.
        let owner = verifying_key (public_key P identity);
            preimage = signing_preimage name owner height_hint anchor nonce in
        Ok \<lparr> tx_version = 1, username = name, owner_public_key = owner,
             claimed_at_height_hint = height_hint, anchor_block_hash = anchor,
             tx_nonce = nonce, signature = identity_sign P identity preimage \<rparr>))"

definition tx_canonical_bytes :: "Transaction \<Rightarrow> bytes" where
  "tx_canonical_bytes tx = tx_preimage tx @ signature tx"

definition signature_array :: "Transaction \<Rightarrow> (LedgerError, bytes) res" where
  "signature_array tx =
     (if length (signature tx) = 64 then Ok (signature tx) else Err SignatureInvalid)"

definition tx_id :: "Primitives \<Rightarrow> Transaction \<Rightarrow> Hash32" where
  "tx_id P tx = hash_of (sha256 P) (tx_canonical_bytes tx)"

definition verify_self_contained :: "Primitives \<Rightarrow> Transaction \<Rightarrow> (LedgerError, unit) res" where
  "verify_self_contained P tx =
     bind_res (validate_username_format (username tx)) (\<lambda>_.
     if username tx \<noteq> normalize_username P (username tx)
     then Err (InvalidUsername ''not already normalized'')
     else
       bind_res (map_err (\<lambda>_. SignatureInvalid) (identity_public_from_bytes P (owner_public_key tx))) (\<lambda>pk.
       bind_res (signature_array tx) (\<lambda>sig.
       map_err (\<lambda>_. SignatureInvalid) (identity_verify P pk (tx_preimage tx) sig))))"

subsection \<open>Username format\<close>

lemma validate_username_format_Ok:
  "validate_username_format u = Ok x \<longleftrightarrow>
     5 \<le> length u \<and> length u \<le> 32 \<and> list_all username_byte u"
  by (auto simp: validate_username_format_def MIN_USERNAME_LEN_def MAX_USERNAME_LEN_def)

lemma returns_validate_username_format [simp]: "returns (validate_username_format u)"
  by (simp add: validate_username_format_def)

lemma username_byte_cases:
  assumes "username_byte b"
  shows "b < 128" and "\<not> is_ascii_space b" and "ascii_lower b = b"
proof -
  have b: "97 \<le> unat b \<and> unat b \<le> 122 \<or> 48 \<le> unat b \<and> unat b \<le> 57 \<or> unat b = 95"
    using assms by (auto simp: username_byte_def is_ascii_lowercase_def is_ascii_digit_def word_le_nat_alt)
  show "b < 128" using b by (auto simp: word_less_nat_alt)
  show "\<not> is_ascii_space b" using b by (auto simp: is_ascii_space_def word_le_nat_alt)
  show "ascii_lower b = b" using b by (auto simp: ascii_lower_def is_ascii_uppercase_def word_le_nat_alt)
qed

lemma dropWhile_none: "list_all (\<lambda>x. \<not> P x) xs \<Longrightarrow> dropWhile P xs = xs"
  by (cases xs) auto

lemma ascii_trim_none:
  assumes "list_all (\<lambda>b. \<not> is_ascii_space b) u"
  shows "ascii_trim u = u"
proof -
  have "list_all (\<lambda>b. \<not> is_ascii_space b) (rev u)" using assms by simp
  then show ?thesis by (simp add: ascii_trim_def dropWhile_none assms)
qed

lemma normalize_valid:
  assumes "list_all username_byte u"
  shows "normalize_username P u = u"
proof -
  note b = username_byte_cases
  have "list_all (\<lambda>b. \<not> is_ascii_space b) u" using assms b(2) by (simp add: list_all_iff)
  then have "map ascii_lower (ascii_trim u) = u"
    using assms b(3) by (simp add: ascii_trim_none list_all_iff map_idI)
  moreover have "\<forall>b \<in> set u. b < 128" using assms b(1) by (simp add: list_all_iff)
  ultimately show ?thesis by (simp add: normalize_username_def)
qed

subsection \<open>Claims\<close>

text \<open>The lengths the Rust types fix.\<close>

definition wf_tx :: "Transaction \<Rightarrow> bool" where
  "wf_tx tx \<longleftrightarrow> length (username tx) < 2 ^ 16 \<and> length (owner_public_key tx) = 32 \<and>
     claimed_at_height_hint tx < 2 ^ 64 \<and> wf_hash (anchor_block_hash tx) \<and> length (tx_nonce tx) = 8"

lemma returns_verify_self_contained [simp]: "returns (verify_self_contained P tx)"
  by (auto simp: verify_self_contained_def identity_public_from_bytes_def signature_array_def
      identity_verify_def intro!: returns_bind)

lemma verify_self_contained_Ok:
  "verify_self_contained P tx = Ok () \<longleftrightarrow>
     5 \<le> length (username tx) \<and> length (username tx) \<le> 32 \<and> list_all username_byte (username tx) \<and>
     length (owner_public_key tx) = 32 \<and> vk_valid P (owner_public_key tx) \<and>
     length (signature tx) = 64 \<and>
     ed_verify P (owner_public_key tx) (tx_preimage tx) (signature tx)"
  by (auto simp: verify_self_contained_def bind_res_Ok validate_username_format_Ok normalize_valid
      identity_public_from_bytes_def signature_array_def identity_verify_def)

lemma length_signing_preimage:
  "length (signing_preimage u k n h nonce) = 36 + length u + length k + length (hash_bytes h) + length nonce"
  by (simp add: signing_preimage_def CLAIM_DOMAIN_TAG_def)

text \<open>A verified claim of the Rust type's lengths has at most 204 canonical bytes.\<close>

lemma verified_size:
  "verify_self_contained P tx = Ok () \<Longrightarrow> wf_tx tx \<Longrightarrow> length (tx_canonical_bytes tx) \<le> 204"
  by (simp add: verify_self_contained_Ok wf_tx_def wf_hash_def tx_canonical_bytes_def tx_preimage_def
      length_signing_preimage)

lemma signing_preimage_inj:
  assumes eq: "signing_preimage u k n h nonce @ rest = signing_preimage u' k' n' h' nonce' @ rest'"
    and "length u < 2 ^ 16" "length u' < 2 ^ 16" and "length k = length k'"
    and "n < 2 ^ 64" "n' < 2 ^ 64" and "wf_hash h" "wf_hash h'" and "length nonce = length nonce'"
  shows "u = u' \<and> k = k' \<and> n = n' \<and> h = h' \<and> nonce = nonce' \<and> rest = rest'"
proof -
  have parts: "le_bytes 2 (length u) = le_bytes 2 (length u')"
    "u @ k @ le_bytes 8 n @ hash_bytes h @ nonce @ rest = u' @ k' @ le_bytes 8 n' @ hash_bytes h' @ nonce' @ rest'"
    using eq by (simp_all add: signing_preimage_def append_eq_append_conv del: le_bytes_numeral)
  have "length u = length u'" using parts(1) assms(2,3) by (intro le_bytes_inj [of 2]) simp_all
  with parts(2) assms have "u = u'" "k = k'" "le_bytes 8 n = le_bytes 8 n'" "hash_bytes h = hash_bytes h'"
    "nonce = nonce'" "rest = rest'"
    by (simp_all add: append_eq_append_conv wf_hash_def del: le_bytes_numeral)
  moreover from this(3) assms(5,6) have "n = n'" by (intro le_bytes_inj [of 8]) simp_all
  ultimately show ?thesis by (simp add: Hash32.expand)
qed

subsection \<open>Properties\<close>

text \<open>A claim built by \<open>new_claim\<close> passes the self-contained checks, whatever name, anchor
  and nonce it was asked for.\<close>

theorem new_claim_verifies:
  assumes "ed25519_laws P" and "new_claim P identity name hint anchor nonce = Ok tx"
  shows "verify_self_contained P tx = Ok ()"
  using assms
  by (auto simp: new_claim_def Let_def bind_res_Ok validate_username_format_Ok verify_self_contained_Ok
      ed25519_laws_def public_key_def identity_sign_def tx_preimage_def)

lemma new_claim_verifies_witness:
  "\<exists>tx. new_claim toy (IdentityKeyPair (replicate 32 7)) (ascii '' Alice '') 3 ZERO (replicate 8 1) = Ok tx \<and>
     verify_self_contained toy tx = Ok ()"
proof -
  have n: "normalize_username toy (ascii '' Alice '') = ascii ''alice''"
    by (simp add: normalize_username_def ascii_def ascii_trim_def is_ascii_space_def ascii_lower_def
        is_ascii_uppercase_def of_char_def)
  have v: "validate_username_format (ascii ''alice'') = Ok ()"
    by (simp add: validate_username_format_Ok ascii_def username_byte_def is_ascii_lowercase_def of_char_def)
  obtain tx where "new_claim toy (IdentityKeyPair (replicate 32 7)) (ascii '' Alice '') 3 ZERO (replicate 8 1) = Ok tx"
    by (simp add: new_claim_def n v Let_def)
  with new_claim_verifies [OF toy_ed25519_laws this] show ?thesis by blast
qed

text \<open>The canonical bytes determine every field of a claim except its version, which they
  leave out.\<close>

theorem canonical_bytes_determine:
  assumes "wf_tx a" and "wf_tx b"
  shows "tx_canonical_bytes a = tx_canonical_bytes b \<longleftrightarrow> a = b\<lparr>tx_version := tx_version a\<rparr>"
proof
  assume "tx_canonical_bytes a = tx_canonical_bytes b"
  then have "username a = username b \<and> owner_public_key a = owner_public_key b \<and>
      claimed_at_height_hint a = claimed_at_height_hint b \<and> anchor_block_hash a = anchor_block_hash b \<and>
      tx_nonce a = tx_nonce b \<and> signature a = signature b"
    using assms unfolding tx_canonical_bytes_def tx_preimage_def
    by (intro signing_preimage_inj) (simp_all add: wf_tx_def)
  then show "a = b\<lparr>tx_version := tx_version a\<rparr>" by simp
next
  assume "a = b\<lparr>tx_version := tx_version a\<rparr>"
  then have "tx_canonical_bytes a = tx_canonical_bytes (b\<lparr>tx_version := tx_version a\<rparr>)" by simp
  then show "tx_canonical_bytes a = tx_canonical_bytes b" by (simp add: tx_canonical_bytes_def tx_preimage_def)
qed

lemma canonical_bytes_determine_witness:
  "tx_canonical_bytes \<lparr>tx_version = 1, username = [97], owner_public_key = replicate 32 0,
     claimed_at_height_hint = 0, anchor_block_hash = ZERO, tx_nonce = replicate 8 0, signature = []\<rparr> =
   tx_canonical_bytes \<lparr>tx_version = 2, username = [97], owner_public_key = replicate 32 0,
     claimed_at_height_hint = 0, anchor_block_hash = ZERO, tx_nonce = replicate 8 0, signature = []\<rparr>"
  by (subst canonical_bytes_determine) (simp_all add: wf_tx_def)

end
