(* ===== verification/F64.thy ===== *)
theory F64
  imports Prelude Complex_Main "HOL-Library.Log_Nat"
begin

text \<open>
  The \<^verbatim>\<open>f64\<close> operations the ledger's difficulty code uses, with the IEEE 754 semantics Rust
  gives them: the exact rational result, rounded to the nearest 53-bit value, ties to even.
  A finite double is kept as the rational it denotes (so the two zeros are one value); the
  infinities and NaN are constructors of their own.

  The lemmas show that rounding is monotone, that it leaves a representable value alone, and
  that \<^verbatim>\<open>f64\<close> comparison is a total order on the values other than NaN.
\<close>

datatype f64 = Fin rat | PInf | NInf | NaN

subsection \<open>Rounding\<close>

text \<open>Round half to even.\<close>

definition rne :: "rat \<Rightarrow> int" where
  "rne x = (let f = \<lfloor>x\<rfloor>; d = x - of_int f in
     if d < 1 / 2 then f else if 1 / 2 < d then f + 1 else if even f then f else f + 1)"

text \<open>The binary exponent of a positive rational: the \<open>e\<close> with \<open>2 ^ e \<le> x < 2 ^ (e + 1)\<close>.\<close>

definition ilog2 :: "rat \<Rightarrow> int" where
  "ilog2 x = (case quotient_of x of (p, q) \<Rightarrow>
     let e = bitlen p - bitlen q in if 2 powi e \<le> x then e else e - 1)"

text \<open>The exponent of the last place of the double nearest to \<open>x\<close>; subnormals share \<open>-1074\<close>.\<close>

definition ulp_exp :: "rat \<Rightarrow> int" where
  "ulp_exp x = max (ilog2 x - 52) (- 1074)"

definition round_pos :: "rat \<Rightarrow> rat" where
  "round_pos x = of_int (rne (x / 2 powi ulp_exp x)) * 2 powi ulp_exp x"

definition round_f64 :: "rat \<Rightarrow> f64" where
  "round_f64 x =
     (if x = 0 then Fin 0
      else if 0 < x then (if 2 ^ 1024 \<le> round_pos x then PInf else Fin (round_pos x))
      else (if 2 ^ 1024 \<le> round_pos (- x) then NInf else Fin (- round_pos (- x))))"

subsection \<open>Arithmetic\<close>

fun f64_neg :: "f64 \<Rightarrow> f64" where
  "f64_neg (Fin x) = Fin (- x)"
| "f64_neg PInf = NInf"
| "f64_neg NInf = PInf"
| "f64_neg NaN = NaN"

fun f64_add :: "f64 \<Rightarrow> f64 \<Rightarrow> f64" where
  "f64_add (Fin x) (Fin y) = round_f64 (x + y)"
| "f64_add NaN y = NaN"
| "f64_add x NaN = NaN"
| "f64_add PInf NInf = NaN"
| "f64_add NInf PInf = NaN"
| "f64_add PInf y = PInf"
| "f64_add x PInf = PInf"
| "f64_add NInf y = NInf"
| "f64_add x NInf = NInf"

definition inf_times :: "bool \<Rightarrow> rat \<Rightarrow> f64" where
  "inf_times neg x = (if x = 0 then NaN else if (x < 0) = neg then PInf else NInf)"

fun f64_mul :: "f64 \<Rightarrow> f64 \<Rightarrow> f64" where
  "f64_mul (Fin x) (Fin y) = round_f64 (x * y)"
| "f64_mul NaN y = NaN"
| "f64_mul x NaN = NaN"
| "f64_mul PInf (Fin x) = inf_times False x"
| "f64_mul (Fin x) PInf = inf_times False x"
| "f64_mul NInf (Fin x) = inf_times True x"
| "f64_mul (Fin x) NInf = inf_times True x"
| "f64_mul PInf PInf = PInf"
| "f64_mul NInf NInf = PInf"
| "f64_mul x y = NInf"

text \<open>Division; a zero divisor stands for \<open>+0\<close>, the only zero the code divides by.\<close>

fun f64_div :: "f64 \<Rightarrow> f64 \<Rightarrow> f64" where
  "f64_div (Fin x) (Fin y) =
     (if y = 0 then (if x = 0 then NaN else if 0 < x then PInf else NInf) else round_f64 (x / y))"
| "f64_div NaN y = NaN"
| "f64_div x NaN = NaN"
| "f64_div (Fin x) y = Fin 0"
| "f64_div PInf (Fin y) = (if y < 0 then NInf else PInf)"
| "f64_div NInf (Fin y) = (if y < 0 then PInf else NInf)"
| "f64_div x y = NaN"

text \<open>The remainder \<^verbatim>\<open>%\<close> has the sign of the dividend and is exact.\<close>

definition rat_trunc :: "rat \<Rightarrow> int" where
  "rat_trunc x = (if 0 \<le> x then \<lfloor>x\<rfloor> else \<lceil>x\<rceil>)"

fun f64_rem :: "f64 \<Rightarrow> f64 \<Rightarrow> f64" where
  "f64_rem (Fin x) (Fin y) = (if y = 0 then NaN else Fin (x - y * of_int (rat_trunc (x / y))))"
| "f64_rem (Fin x) PInf = Fin x"
| "f64_rem (Fin x) NInf = Fin x"
| "f64_rem x y = NaN"

text \<open>\<^verbatim>\<open>f64::floor\<close> is exact.\<close>

fun f64_floor :: "f64 \<Rightarrow> f64" where
  "f64_floor (Fin x) = Fin (of_int \<lfloor>x\<rfloor>)"
| "f64_floor x = x"

text \<open>Casts: \<^verbatim>\<open>i64 as f64\<close> and \<^verbatim>\<open>u8 as f64\<close> round, \<^verbatim>\<open>f64 as u8\<close> truncates and saturates.\<close>

definition f64_of_int :: "int \<Rightarrow> f64" where
  "f64_of_int n = round_f64 (of_int n)"

fun f64_as_u8 :: "f64 \<Rightarrow> byte" where
  "f64_as_u8 (Fin x) = word_of_int (max 0 (min 255 (rat_trunc x)))"
| "f64_as_u8 PInf = 255"
| "f64_as_u8 NInf = 0"
| "f64_as_u8 NaN = 0"

definition f64_max_value :: f64 where
  "f64_max_value = Fin ((2 ^ 53 - 1) * 2 ^ 971)"

subsection \<open>Comparison\<close>

fun f64_le :: "f64 \<Rightarrow> f64 \<Rightarrow> bool" where
  "f64_le NaN y = False"
| "f64_le x NaN = False"
| "f64_le NInf y = True"
| "f64_le x PInf = True"
| "f64_le (Fin x) (Fin y) = (x \<le> y)"
| "f64_le x y = False"

fun f64_lt :: "f64 \<Rightarrow> f64 \<Rightarrow> bool" where
  "f64_lt NaN y = False"
| "f64_lt x NaN = False"
| "f64_lt NInf NInf = False"
| "f64_lt NInf y = True"
| "f64_lt PInf y = False"
| "f64_lt (Fin x) PInf = True"
| "f64_lt (Fin x) (Fin y) = (x < y)"
| "f64_lt (Fin x) NInf = False"

text \<open>\<^verbatim>\<open>f64::clamp\<close>.\<close>

definition f64_clamp :: "f64 \<Rightarrow> f64 \<Rightarrow> f64 \<Rightarrow> f64" where
  "f64_clamp lo hi x = (if f64_lt x lo then lo else if f64_lt hi x then hi else x)"

lemma f64_le_refl: "x \<noteq> NaN \<Longrightarrow> f64_le x x"
  by (cases x) simp_all

lemma f64_le_trans: "f64_le x y \<Longrightarrow> f64_le y z \<Longrightarrow> f64_le x z"
  by (cases x; cases y; cases z) simp_all

lemma f64_not_le: "x \<noteq> NaN \<Longrightarrow> y \<noteq> NaN \<Longrightarrow> \<not> f64_le x y \<longleftrightarrow> f64_lt y x"
  by (cases x; cases y) auto

lemma f64_lt_imp_le: "f64_lt x y \<Longrightarrow> f64_le x y"
  by (cases x; cases y) simp_all

lemma f64_lt_le_trans: "f64_lt x y \<Longrightarrow> f64_le y z \<Longrightarrow> f64_lt x z"
  by (cases x; cases y; cases z) simp_all

lemma f64_le_not_NaN: "f64_le x y \<Longrightarrow> x \<noteq> NaN \<and> y \<noteq> NaN"
  by (cases x; cases y) simp_all

subsection \<open>Rounding to integers\<close>

lemma rne_of_int [simp]: "rne (of_int n) = n"
  by (simp add: rne_def)

lemma rne_bounds: "of_int (rne x) \<le> x + 1 / 2 \<and> x - 1 / 2 \<le> of_int (rne x)"
proof -
  have "of_int \<lfloor>x\<rfloor> \<le> x" and "x < of_int \<lfloor>x\<rfloor> + 1" by linarith+
  then show ?thesis unfolding rne_def Let_def by (simp split: if_split del: of_int_floor_le)
qed

lemma rne_mono: "x \<le> y \<Longrightarrow> rne x \<le> rne y"
proof -
  assume le: "x \<le> y"
  then have fl: "\<lfloor>x\<rfloor> \<le> \<lfloor>y\<rfloor>" by (rule floor_mono)
  show ?thesis
  proof (cases "\<lfloor>x\<rfloor> = \<lfloor>y\<rfloor>")
    case True
    with le show ?thesis by (auto simp: rne_def Let_def)
  next
    case False
    with fl have "\<lfloor>x\<rfloor> + 1 \<le> \<lfloor>y\<rfloor>" by simp
    moreover have "rne x \<le> \<lfloor>x\<rfloor> + 1" and "\<lfloor>y\<rfloor> \<le> rne y" by (simp_all add: rne_def Let_def)
    ultimately show ?thesis by linarith
  qed
qed

lemma rne_le_of_int: "x \<le> of_int n \<Longrightarrow> rne x \<le> n"
  using rne_mono [of x "of_int n"] by simp

lemma rne_ge_of_int: "of_int n \<le> x \<Longrightarrow> n \<le> rne x"
  using rne_mono [of "of_int n" x] by simp

subsection \<open>The binary exponent\<close>

lemma pow2_le_iff [simp]: "(2 powi m :: rat) \<le> 2 powi n \<longleftrightarrow> m \<le> n"
  using power_int_strict_increasing [of n m "2 :: rat"] power_int_increasing [of m n "2 :: rat"]
  by (auto simp: not_le [symmetric])

lemma pow2_less_iff [simp]: "(2 powi m :: rat) < 2 powi n \<longleftrightarrow> m < n"
  by (simp only: not_le [symmetric] pow2_le_iff)

lemma pow2_as_int: "0 \<le> n \<Longrightarrow> (2 powi n :: rat) = of_int (2 ^ nat n)"
  by (simp add: power_int_def)

lemma bitlen_powi:
  assumes "0 < p"
  shows "2 powi (bitlen p - 1) \<le> (of_int p :: rat)" and "(of_int p :: rat) < 2 powi (bitlen p)"
proof -
  have b: "0 < bitlen p" using assms bitlen_nonneg [of p] bitlen_eq_zero_iff [of p] by linarith
  have "(of_int (2 ^ nat (bitlen p - 1)) :: rat) \<le> of_int p"
    using bitlen_bounds [OF assms] by (simp only: of_int_le_iff)
  then show "2 powi (bitlen p - 1) \<le> (of_int p :: rat)" using b by (simp add: pow2_as_int)
  have "(of_int p :: rat) < of_int (2 ^ nat (bitlen p))"
    using bitlen_bounds [OF assms] by (simp only: of_int_less_iff)
  then show "(of_int p :: rat) < 2 powi (bitlen p)" using b by (simp add: pow2_as_int)
qed

lemma ilog2_bounds:
  assumes "0 < x"
  shows "2 powi ilog2 x \<le> x" and "x < 2 powi (ilog2 x + 1)"
proof -
  obtain p q where pq: "quotient_of x = (p, q)" by (cases "quotient_of x") auto
  have x: "x = of_int p / of_int q" and q: "0 < q"
    using quotient_of_div [OF pq] quotient_of_denom_pos [OF pq] by simp_all
  then have p: "0 < p" using assms by (simp add: zero_less_divide_iff)
  let ?e = "bitlen p - bitlen q"
  have hi: "x < 2 powi (?e + 1)"
  proof -
    have "x < 2 powi bitlen p / 2 powi (bitlen q - 1)"
      unfolding x using bitlen_powi(2) [OF p] bitlen_powi(1) [OF q] p
      by (intro frac_less) simp_all
    also have "\<dots> = 2 powi (bitlen p - (bitlen q - 1))" by (simp add: power_int_diff)
    finally show ?thesis by (simp add: algebra_simps)
  qed
  have lo: "2 powi (?e - 1) \<le> x"
  proof -
    have "(2 powi (?e - 1) :: rat) = 2 powi ((bitlen p - 1) - bitlen q)" by (simp add: algebra_simps)
    also have "\<dots> = 2 powi (bitlen p - 1) / 2 powi bitlen q" by (simp add: power_int_diff)
    also have "\<dots> \<le> x"
      unfolding x using bitlen_powi(1) [OF p] bitlen_powi(2) [OF q] q p
      by (intro frac_le) simp_all
    finally show ?thesis .
  qed
  show "2 powi ilog2 x \<le> x" using lo by (simp add: ilog2_def pq Let_def)
  show "x < 2 powi (ilog2 x + 1)" using hi by (simp add: ilog2_def pq Let_def not_le)
qed

lemma ilog2_eqI: "2 powi e \<le> x \<Longrightarrow> x < 2 powi (e + 1) \<Longrightarrow> ilog2 x = e"
proof -
  assume lo: "2 powi e \<le> x" and hi: "x < 2 powi (e + 1)"
  have pos: "0 < x" using lo zero_less_power_int [of "2 :: rat" e] by linarith
  have "(2 powi e :: rat) < 2 powi (ilog2 x + 1)" using lo ilog2_bounds(2) [OF pos] by (rule le_less_trans)
  moreover have "(2 powi ilog2 x :: rat) < 2 powi (e + 1)"
    using ilog2_bounds(1) [OF pos] hi by (rule le_less_trans)
  ultimately show ?thesis by simp
qed

lemma ilog2_mono: "0 < x \<Longrightarrow> x \<le> y \<Longrightarrow> ilog2 x \<le> ilog2 y"
proof -
  assume "0 < x" "x \<le> y"
  then have "(2 powi ilog2 x :: rat) < 2 powi (ilog2 y + 1)"
    using ilog2_bounds(1) [of x] ilog2_bounds(2) [of y] by linarith
  then show ?thesis by simp
qed

lemma ilog2_less: "0 < x \<Longrightarrow> x < 2 powi e \<Longrightarrow> ilog2 x < e"
  using ilog2_bounds(1) [of x] le_less_trans by fastforce

subsection \<open>Rounding of positive values\<close>

text \<open>A positive rational that is a finite double: a 53-bit integer times a power of two.\<close>

definition f64_rep :: "rat \<Rightarrow> bool" where
  "f64_rep x \<longleftrightarrow> (\<exists>m e. x = of_int m * 2 powi e \<and> 0 < m \<and> m < 2 ^ 53 \<and> - 1074 \<le> e)"

lemma f64_repI: "0 < m \<Longrightarrow> m < 2 ^ 53 \<Longrightarrow> - 1074 \<le> e \<Longrightarrow> f64_rep (of_int m * 2 powi e)"
  by (auto simp: f64_rep_def)

lemma f64_rep_nat_power:
  "0 < m \<Longrightarrow> m < 2 ^ 53 \<Longrightarrow> f64_rep (of_nat m * 2 ^ k)"
  using f64_repI [of "int m" "int k"] by simp

lemma round_pos_exact:
  assumes "f64_rep x"
  shows "round_pos x = x"
proof -
  obtain m e where x: "x = of_int m * 2 powi e" and m: "0 < m" "m < 2 ^ 53" and e: "- 1074 \<le> e"
    using assms by (auto simp: f64_rep_def)
  have pos: "0 < x" using m by (simp add: x)
  have "(of_int m :: rat) < of_int (2 ^ 53)" using m by (simp only: of_int_less_iff)
  then have "x < of_int (2 ^ 53) * 2 powi e" unfolding x by (intro mult_strict_right_mono) simp_all
  also have "\<dots> = 2 powi (53 + e)" by (simp add: power_int_add)
  finally have "ilog2 x < 53 + e" using pos by (intro ilog2_less)
  then have le: "ulp_exp x \<le> e" using e by (simp add: ulp_exp_def)
  have "x / 2 powi ulp_exp x = of_int m * 2 powi (e - ulp_exp x)"
    by (simp add: x power_int_diff)
  also have "\<dots> = of_int (m * 2 ^ nat (e - ulp_exp x))" using le by (simp add: pow2_as_int)
  finally have "x / 2 powi ulp_exp x = of_int (m * 2 ^ nat (e - ulp_exp x))" .
  then have "of_int (rne (x / 2 powi ulp_exp x)) = x / 2 powi ulp_exp x" by (simp only: rne_of_int)
  then show ?thesis by (simp add: round_pos_def)
qed

lemma ulp_exp_mono: "0 < x \<Longrightarrow> x \<le> y \<Longrightarrow> ulp_exp x \<le> ulp_exp y"
  using ilog2_mono by (fastforce simp: ulp_exp_def)

lemma round_pos_le_pow2:
  assumes "x \<le> 2 powi k" and "ulp_exp x \<le> k"
  shows "round_pos x \<le> 2 powi k"
proof -
  have "x / 2 powi ulp_exp x \<le> 2 powi k / 2 powi ulp_exp x"
    using assms(1) by (intro divide_right_mono) simp_all
  also have "\<dots> = of_int (2 ^ nat (k - ulp_exp x))"
    using assms(2) by (simp add: pow2_as_int flip: power_int_diff)
  finally have "rne (x / 2 powi ulp_exp x) \<le> 2 ^ nat (k - ulp_exp x)" by (rule rne_le_of_int)
  then have "(of_int (rne (x / 2 powi ulp_exp x)) :: rat) \<le> 2 powi (k - ulp_exp x)"
    using assms(2) by (simp add: pow2_as_int flip: of_int_le_iff)
  then show ?thesis by (simp add: round_pos_def power_int_diff pos_le_divide_eq)
qed

lemma round_pos_ge_pow2:
  assumes "2 powi k \<le> x" and "ulp_exp x \<le> k"
  shows "2 powi k \<le> round_pos x"
proof -
  have "(of_int (2 ^ nat (k - ulp_exp x)) :: rat) = 2 powi k / 2 powi ulp_exp x"
    using assms(2) by (simp add: pow2_as_int flip: power_int_diff)
  also have "\<dots> \<le> x / 2 powi ulp_exp x"
    using assms(1) by (intro divide_right_mono) simp_all
  finally have "2 ^ nat (k - ulp_exp x) \<le> rne (x / 2 powi ulp_exp x)" by (rule rne_ge_of_int)
  then have "(2 powi (k - ulp_exp x) :: rat) \<le> of_int (rne (x / 2 powi ulp_exp x))"
    using assms(2) by (simp add: pow2_as_int flip: of_int_le_iff)
  then show ?thesis by (simp add: round_pos_def power_int_diff pos_divide_le_eq)
qed

lemma round_pos_mono:
  assumes "0 < x" and "x \<le> y"
  shows "round_pos x \<le> round_pos y"
proof (cases "ulp_exp x = ulp_exp y")
  case True
  have "rne (x / 2 powi ulp_exp y) \<le> rne (y / 2 powi ulp_exp y)"
    using assms by (intro rne_mono divide_right_mono) simp_all
  with True show ?thesis by (simp add: round_pos_def mult_right_mono)
next
  case False
  with ulp_exp_mono [OF assms] have less: "ulp_exp x < ulp_exp y" by simp
  then have y: "ulp_exp y = ilog2 y - 52" and "ilog2 x < ilog2 y" by (auto simp: ulp_exp_def)
  then have "x \<le> 2 powi ilog2 y"
    using ilog2_bounds(2) [OF assms(1)] pow2_le_iff [of "ilog2 x + 1" "ilog2 y"] by linarith
  then have "round_pos x \<le> 2 powi ilog2 y" using less y by (intro round_pos_le_pow2) simp_all
  also have "\<dots> \<le> round_pos y"
    using ilog2_bounds(1) [of y] assms y by (intro round_pos_ge_pow2) simp_all
  finally show ?thesis .
qed

lemma round_pos_le: "0 < x \<Longrightarrow> x \<le> y \<Longrightarrow> f64_rep y \<Longrightarrow> round_pos x \<le> y"
  using round_pos_mono [of x y] round_pos_exact [of y] by simp

lemma round_pos_ge: "0 < y \<Longrightarrow> y \<le> x \<Longrightarrow> f64_rep y \<Longrightarrow> y \<le> round_pos x"
  using round_pos_mono [of y x] round_pos_exact [of y] by simp

text \<open>Rounding a non-negative value below \<open>2 ^ 1023\<close> stays finite.\<close>

lemma round_f64_pos:
  assumes "0 < x" and "x \<le> 2 ^ 1023"
  shows "round_f64 x = Fin (round_pos x)"
proof -
  have "round_pos x \<le> 2 ^ 1023"
    using assms f64_rep_nat_power [of 1 1023] by (intro round_pos_le) simp_all
  then have "round_pos x < 2 ^ 1024" by (rule le_less_trans) simp
  then show ?thesis using assms by (simp add: round_f64_def not_le)
qed

lemma round_f64_0 [simp]: "round_f64 0 = Fin 0"
  by (simp add: round_f64_def)

lemma round_f64_exact: "f64_rep x \<Longrightarrow> x \<le> 2 ^ 1023 \<Longrightarrow> round_f64 x = Fin x"
proof -
  assume rep: "f64_rep x" and "x \<le> 2 ^ 1023"
  moreover have "0 < x" using rep by (auto simp: f64_rep_def)
  ultimately show ?thesis by (simp add: round_f64_pos round_pos_exact)
qed

lemma round_f64_not_NaN [simp]: "round_f64 x \<noteq> NaN"
  by (simp add: round_f64_def)

end
