(* ===== verification/Difficulty.thy ===== *)
theory Difficulty
  imports Hash F64
begin

unbundle bit_operations_syntax

text \<open>
  \<^verbatim>\<open>packages/ledger-core/src/difficulty.rs\<close>: the compact target encoding, the conversion of a
  target to \<^verbatim>\<open>f64\<close> and back, retargeting and the work of a block.
\<close>

type_synonym CompactTarget = "32 word"

definition INITIAL_DIFFICULTY_BITS :: CompactTarget where
  "INITIAL_DIFFICULTY_BITS = 0x1effffff"

definition TARGET_BLOCK_TIME_SECS :: int where
  "TARGET_BLOCK_TIME_SECS = 300"

definition RETARGET_INTERVAL_BLOCKS :: nat where
  "RETARGET_INTERVAL_BLOCKS = 288"

definition RETARGET_CLAMP_MIN :: f64 where
  "RETARGET_CLAMP_MIN = Fin (1 / 4)"

definition RETARGET_CLAMP_MAX :: f64 where
  "RETARGET_CLAMP_MAX = Fin 4"

text \<open>The loop of \<open>expand_target\<close> that places the mantissa bytes.\<close>

fun place_bytes :: "nat \<Rightarrow> bytes \<Rightarrow> bytes \<Rightarrow> bytes" where
  "place_bytes idx [] out = out"
| "place_bytes idx (b # bs) out =
     place_bytes (Suc idx) bs (if idx < 32 then out[idx := b] else out)"

definition expand_target :: "CompactTarget \<Rightarrow> Hash32" where
  "expand_target bits =
     (let exponent = unat (drop_bit 24 bits);
          mantissa = bits AND 0x00ffffff;
          out = replicate 32 0 in
      if mantissa = 0 then Hash32 out
      else
        let mantissa_bytes =
          [ucast (drop_bit 16 mantissa), ucast (drop_bit 8 mantissa), ucast mantissa] in
        if 3 \<le> exponent then
          (if 32 < exponent then Hash32 out
           else Hash32 (place_bytes (32 - exponent) mantissa_bytes out))
        else
          let shift_bits = 8 * (3 - exponent);
              shifted = drop_bit shift_bits (ucast mantissa :: 64 word) in
          Hash32 (take 24 out @ be_bytes 8 (unat shifted)))"

text \<open>\<^verbatim>\<open>Iterator::position\<close> and \<^verbatim>\<open>slice::get(..).unwrap_or(0)\<close>.\<close>

fun position :: "('a \<Rightarrow> bool) \<Rightarrow> 'a list \<Rightarrow> nat option" where
  "position P [] = None"
| "position P (x # xs) = (if P x then Some 0 else map_option Suc (position P xs))"

definition get_or_0 :: "bytes \<Rightarrow> nat \<Rightarrow> byte" where
  "get_or_0 bs i = (if i < length bs then bs ! i else 0)"

definition compact_from_target :: "Hash32 \<Rightarrow> CompactTarget" where
  "compact_from_target target =
     (let bytes = hash_bytes target in
      case position (\<lambda>b. b \<noteq> 0) bytes of
        None \<Rightarrow> 0
      | Some first_nonzero \<Rightarrow>
          let exponent = 32 - first_nonzero;
              b0 = get_or_0 bytes first_nonzero;
              b1 = get_or_0 bytes (first_nonzero + 1);
              b2 = get_or_0 bytes (first_nonzero + 2);
              mantissa = push_bit 16 (ucast b0) OR push_bit 8 (ucast b1) OR ucast b2 in
          push_bit 24 (word_of_nat exponent) OR mantissa)"

definition target_as_f64 :: "Hash32 \<Rightarrow> f64" where
  "target_as_f64 target =
     foldl (\<lambda>value byte. f64_add (f64_mul value (Fin 256)) (f64_of_int (uint byte)))
       (Fin 0) (hash_bytes target)"

text \<open>The digits \<open>f64_as_target\<close> produces, last byte first.\<close>

primrec f64_digits :: "nat \<Rightarrow> f64 \<Rightarrow> bytes" where
  "f64_digits 0 v = []"
| "f64_digits (Suc n) v =
     f64_as_u8 (f64_rem v (Fin 256)) # f64_digits n (f64_floor (f64_div v (Fin 256)))"

definition f64_as_target :: "f64 \<Rightarrow> Hash32" where
  "f64_as_target value =
     (let v0 = (if f64_lt value (Fin 0) then Fin 0 else value);
          max = target_as_f64 (Hash32 (replicate 32 0xff));
          v1 = (if f64_lt max v0 then max else v0) in
      Hash32 (rev (f64_digits 32 v1)))"

definition retarget :: "CompactTarget \<Rightarrow> int \<Rightarrow> int \<Rightarrow> CompactTarget" where
  "retarget bits actual_span_secs expected_span_secs =
     (let ratio = f64_clamp RETARGET_CLAMP_MIN RETARGET_CLAMP_MAX
            (f64_div (f64_of_int actual_span_secs) (f64_of_int expected_span_secs));
          target = expand_target bits;
          scaled = f64_mul (target_as_f64 target) ratio in
      compact_from_target (f64_as_target scaled))"

definition work_of :: "CompactTarget \<Rightarrow> f64" where
  "work_of bits =
     (let target = target_as_f64 (expand_target bits) in
      if f64_le target (Fin 0) then f64_max_value
      else f64_div (target_as_f64 (Hash32 (replicate 32 0xff))) (f64_add target (Fin 1)))"

subsection \<open>The exact value of a compact target\<close>

definition expo :: "CompactTarget \<Rightarrow> nat" where
  "expo bits = unat (drop_bit 24 bits)"

definition mant :: "CompactTarget \<Rightarrow> nat" where
  "mant bits = unat (bits AND 0x00ffffff)"

lemma mask24: "(0x00ffffff :: 32 word) = mask 24"
  by (simp add: mask_eq_exp_minus_1)

lemma unat_drop_bit: "unat (drop_bit k w) = unat w div 2 ^ k"
  by (simp add: unat_drop_bit_eq flip: drop_bit_eq_div)

lemma mant_eq: "mant bits = unat bits mod 2 ^ 24"
  unfolding mant_def mask24 take_bit_eq_mask [symmetric] unsigned_take_bit_eq
  by (simp only: take_bit_eq_mod)

lemma mant_bound: "mant bits < 2 ^ 24"
  by (simp add: mant_eq)

lemma byte_of_word:
  "unat (ucast (drop_bit k w :: 32 word) :: byte) = unat w div 2 ^ k mod 256"
proof -
  have "unat (ucast (drop_bit k w) :: byte) = unat (drop_bit k w) mod 256"
    by (simp only: unsigned_ucast_eq) (simp add: take_bit_eq_mod del: unsigned_drop_bit_eq)
  then show ?thesis by (simp only: unat_drop_bit)
qed

lemma three_digits:
  fixes m :: nat
  assumes "m < 2 ^ 24"
  shows "m div 2 ^ 16 mod 256 * 65536 + m div 2 ^ 8 mod 256 * 256 + m mod 256 = m"
proof -
  have "m div 65536 < 256" using assms by simp
  moreover have "m mod 65536 = 256 * (m div 256 mod 256) + m mod 256"
    using mod_mult2_eq [of m 256 256] by simp
  moreover have "m = m div 65536 * 65536 + m mod 65536" by simp
  ultimately show ?thesis by simp
qed

lemma place_bytes_append:
  "idx + length bs \<le> 32 \<Longrightarrow> length out = 32 \<Longrightarrow>
    place_bytes idx bs out = take idx out @ bs @ drop (idx + length bs) out"
proof (induction bs arbitrary: idx out)
  case (Cons b bs)
  then have "place_bytes (Suc idx) bs (out[idx := b]) =
      take (Suc idx) (out[idx := b]) @ bs @ drop (Suc idx + length bs) (out[idx := b])"
    by (intro Cons.IH) simp_all
  with Cons.prems show ?case by (simp add: take_Suc_conv_app_nth)
qed simp

lemma of_be_pad: "of_be (replicate a 0 @ bs @ replicate b 0) = of_be bs * 256 ^ b"
  by (simp add: of_be_append)

lemma of_be_3: "of_be [a, b, c] = unat a * 65536 + unat b * 256 + unat c"
  by simp

lemma expand_large:
  assumes "3 \<le> expo bits" and "expo bits \<le> 32"
  shows "hash_value (expand_target bits) = mant bits * 256 ^ (expo bits - 3)"
proof (cases "bits AND 0x00ffffff = 0")
  case True
  then show ?thesis by (simp add: expand_target_def Let_def hash_value_def mant_def)
next
  case False
  let ?m = "bits AND 0x00ffffff"
  let ?bs = "[ucast (drop_bit 16 ?m), ucast (drop_bit 8 ?m), ucast ?m] :: bytes"
  have byte_2: "unat (ucast ?m :: byte) = mant bits mod 256"
    using byte_of_word [of 0 ?m] by (simp add: mant_def)
  have dig: "of_be ?bs = mant bits"
    unfolding of_be_3 byte_of_word byte_2 mant_def [symmetric] by (rule three_digits [OF mant_bound])
  have hb: "hash_bytes (expand_target bits) =
      replicate (32 - expo bits) 0 @ ?bs @ replicate (expo bits - 3) 0"
    using assms False
    by (simp add: expand_target_def Let_def expo_def [symmetric] place_bytes_append del: place_bytes.simps)
  show ?thesis unfolding hash_value_def hb of_be_pad dig ..
qed

lemma expand_small:
  assumes "expo bits < 3"
  shows "hash_value (expand_target bits) = mant bits div 256 ^ (3 - expo bits)"
proof (cases "bits AND 0x00ffffff = 0")
  case True
  then show ?thesis by (simp add: expand_target_def Let_def hash_value_def mant_def)
next
  case False
  let ?k = "8 * (3 - expo bits)"
  let ?s = "drop_bit ?k (ucast (bits AND 0x00ffffff) :: 64 word)"
  have "unat (ucast (bits AND 0x00ffffff) :: 64 word) = mant bits"
    using mant_bound [of bits] by (simp add: unsigned_ucast_eq mant_def take_bit_nat_eq_self)
  then have s: "unat ?s = mant bits div 2 ^ ?k"
    by (simp only: unat_drop_bit)
  have "unat ?s < 2 ^ 64" using unsigned_less [of ?s] by simp
  then have "of_be (be_bytes 8 (unat ?s)) = unat ?s" by (simp add: of_be_be_bytes)
  moreover have "hash_bytes (expand_target bits) = take 24 (replicate 32 0) @ be_bytes 8 (unat ?s)"
    using assms False by (simp add: expand_target_def Let_def expo_def [symmetric])
  ultimately show ?thesis by (simp add: hash_value_def of_be_append s power_mult)
qed

lemma expand_zero: "32 < expo bits \<Longrightarrow> hash_value (expand_target bits) = 0"
  by (simp add: expand_target_def Let_def expo_def hash_value_def)

lemma wf_expand_target [simp]: "wf_hash (expand_target bits)"
proof -
  have "length (place_bytes idx bs out) = length out" for idx bs out
    by (induction idx bs out rule: place_bytes.induct) simp_all
  then show ?thesis by (simp add: expand_target_def Let_def wf_hash_def del: place_bytes.simps)
qed

lemma compact_fields:
  fixes b0 b1 b2 :: byte
  assumes "e < 256"
  defines "w \<equiv> push_bit 24 (word_of_nat e) OR
      (push_bit 16 (ucast b0) OR push_bit 8 (ucast b1) OR ucast b2 :: 32 word)"
  shows "expo w = e" and "mant w = unat b0 * 65536 + unat b1 * 256 + unat b2"
proof -
  have hi: "bit b n \<Longrightarrow> n < 8" for b :: byte and n
    using bit_imp_le_length [of b n] by simp
  have "take_bit 8 e = e" using assms(1) by (simp add: take_bit_nat_eq_self)
  then have e: "bit e n \<Longrightarrow> n < 8" for n by (metis bit_take_bit_iff)
  have "ucast (drop_bit 24 w) = (word_of_nat e :: byte)"
    by (rule bit_word_eqI) (auto simp: w_def bit_simps dest: hi e)
  then have "expo w mod 256 = e"
    using byte_of_word [of 24 w] assms(1) by (simp add: expo_def unat_drop_bit unat_of_nat)
  moreover have "expo w < 256"
    unfolding expo_def unat_drop_bit
  proof -
    have "unat w < 2 ^ 32" using unsigned_less [of w] by simp
    then show "unat w div 2 ^ 24 < 256" by simp
  qed
  ultimately show "expo w = e" by simp
  let ?m = "w AND 0x00ffffff"
  have b0: "ucast (drop_bit 16 ?m) = b0"
    by (rule bit_word_eqI) (auto simp: w_def mask24 bit_simps dest: hi)
  have b1: "ucast (drop_bit 8 ?m) = b1"
    by (rule bit_word_eqI) (auto simp: w_def mask24 bit_simps dest: hi)
  have b2: "ucast (drop_bit 0 ?m) = b2"
    by (rule bit_word_eqI) (auto simp: w_def mask24 bit_simps dest: hi)
  have "mant w = unat (ucast (drop_bit 16 ?m) :: byte) * 65536 +
      unat (ucast (drop_bit 8 ?m) :: byte) * 256 + unat (ucast (drop_bit 0 ?m) :: byte)"
    unfolding byte_of_word mant_def [symmetric] power_0 div_by_1
    by (rule three_digits [OF mant_bound, symmetric])
  then show "mant w = unat b0 * 65536 + unat b1 * 256 + unat b2" by (simp only: b0 b1 b2)
qed

subsection \<open>Compact encoding truncates to the leading three bytes\<close>

lemma position_nonzero:
  "position (\<lambda>b. b \<noteq> 0) bs = Some f \<Longrightarrow>
    \<exists>b rest. bs = replicate f 0 @ b # rest \<and> b \<noteq> (0 :: byte)"
proof (induction bs arbitrary: f)
  case (Cons x bs)
  show ?case
  proof (cases "x = 0")
    case True
    with Cons.prems obtain g where "position (\<lambda>b. b \<noteq> 0) bs = Some g" and f: "f = Suc g"
      by auto
    from Cons.IH [OF this(1)] obtain b rest where "bs = replicate g 0 @ b # rest" "b \<noteq> 0" by blast
    then show ?thesis using True f by auto
  next
    case False
    with Cons.prems show ?thesis by auto
  qed
qed simp

lemma position_None: "position P bs = None \<longleftrightarrow> (\<forall>b \<in> set bs. \<not> P b)"
  by (induction bs) auto

lemma of_be_zero: "(\<forall>b \<in> set bs. b = 0) \<Longrightarrow> of_be bs = 0"
  by (induction bs) auto

text \<open>The value of \<open>expand_target (compact_from_target h)\<close>: all but the leading three bytes
  (of \<open>L\<close> significant ones) are cleared.\<close>

lemma compact_value:
  assumes "wf_hash h" and "hash_value h \<noteq> 0"
  obtains L where "1 \<le> L" and "L \<le> 32" and "256 ^ (L - 1) \<le> hash_value h" and "hash_value h < 256 ^ L"
    and "hash_value (expand_target (compact_from_target h)) = hash_value h - hash_value h mod 256 ^ (L - 3)"
proof -
  obtain bs where h: "h = Hash32 bs" by (cases h)
  have len: "length bs = 32" using assms(1) by (simp add: h wf_hash_def)
  have "position (\<lambda>b. b \<noteq> 0) bs \<noteq> None"
  proof
    assume "position (\<lambda>b. b \<noteq> 0) bs = None"
    then have "of_be bs = 0" by (intro of_be_zero) (simp add: position_None)
    with assms(2) show False by (simp add: h hash_value_def)
  qed
  then obtain f where f: "position (\<lambda>b. b \<noteq> 0) bs = Some f" by auto
  obtain b0 rest where bs: "bs = replicate f 0 @ b0 # rest" and b0: "b0 \<noteq> 0"
    using position_nonzero [OF f] by blast
  have L: "length rest = 31 - f" and f32: "f < 32" using len by (simp_all add: bs)
  have u0: "1 \<le> unat b0" using b0 by (simp add: unat_gt_0 Suc_leI)
  have v: "hash_value h = unat b0 * 256 ^ (31 - f) + of_be rest"
    by (simp add: h hash_value_def bs of_be_append L)
  have b0': "get_or_0 bs f = b0" by (simp add: get_or_0_def bs nth_append)
  define b1 b2 where "b1 = get_or_0 bs (f + 1)" and "b2 = get_or_0 bs (f + 2)"
  have w: "compact_from_target h = push_bit 24 (word_of_nat (32 - f)) OR
      (push_bit 16 (ucast b0) OR push_bit 8 (ucast b1) OR ucast b2 :: 32 word)"
    by (simp add: compact_from_target_def h f Let_def b1_def b2_def b0')
  have e: "expo (compact_from_target h) = 32 - f"
    and m: "mant (compact_from_target h) = unat b0 * 65536 + unat b1 * 256 + unat b2"
    unfolding w using compact_fields [of "32 - f" b0 b1 b2] by simp_all
  have lo: "256 ^ (31 - f) \<le> hash_value h"
    using u0 mult_right_mono [of 1 "unat b0" "256 ^ (31 - f)"] by (simp add: v trans_le_add1)
  have hi: "hash_value h < 256 ^ (32 - f)"
  proof -
    have "of_be bs < 256 ^ length (b0 # rest)"
      using of_be_bound [of "b0 # rest"] by (simp only: bs of_be_append of_be_replicate_0 mult_0 add_0)
    moreover have "length (b0 # rest) = 32 - f" using f32 L by simp
    ultimately show ?thesis by (simp only: h hash_value_def Hash32.sel)
  qed
  have "hash_value (expand_target (compact_from_target h)) =
      hash_value h - hash_value h mod 256 ^ (32 - f - 3)"
  proof (cases "f \<le> 29")
    case True
    then obtain c1 c2 tl where rest: "rest = c1 # c2 # tl" and tl: "length tl = 29 - f"
      using L by (cases rest; cases "List.tl rest") auto
    have "31 - f = 2 + (29 - f)" using True by simp
    then have p: "(256 :: nat) ^ (31 - f) = 65536 * 256 ^ (29 - f)" by (simp only: power_add) simp
    have "b1 = c1" and "b2 = c2" by (simp_all add: b1_def b2_def get_or_0_def bs rest nth_append)
    then have "hash_value h = mant (compact_from_target h) * 256 ^ (29 - f) + of_be tl"
      by (simp add: v m rest tl p algebra_simps)
    moreover have "of_be tl < 256 ^ (29 - f)" using of_be_bound [of tl] tl by simp
    ultimately show ?thesis
      using expand_large [of "compact_from_target h"] True by (simp add: e)
  next
    case False
    then consider "f = 30" | "f = 31" using f32 by linarith
    then show ?thesis
    proof cases
      case 1
      then obtain c1 where rest: "rest = [c1]" using L by (cases rest) auto
      have "b1 = c1" and "b2 = 0" using 1 by (simp_all add: b1_def b2_def get_or_0_def bs rest nth_append)
      then show ?thesis using expand_small [of "compact_from_target h"] 1
        by (simp add: e m v rest)
    next
      case 2
      then have rest: "rest = []" using L by simp
      have "b1 = 0" and "b2 = 0" using 2 by (simp_all add: b1_def b2_def get_or_0_def bs rest)
      then show ?thesis using expand_small [of "compact_from_target h"] 2
        by (simp add: e m v rest)
    qed
  qed
  with lo hi f32 show ?thesis by (intro that [of "32 - f"]) simp_all
qed

subsection \<open>Reading a target as a double\<close>

definition rep0 :: "rat \<Rightarrow> bool" where
  "rep0 x \<longleftrightarrow> x = 0 \<or> f64_rep x"

lemma rep0_round: "rep0 x \<Longrightarrow> x \<le> 2 ^ 1023 \<Longrightarrow> round_f64 x = Fin x"
  by (auto simp: rep0_def round_f64_exact)

lemma rep0_nat: "m < 2 ^ 53 \<Longrightarrow> rep0 (of_nat m * 2 ^ k)"
  using f64_rep_nat_power [of m k] by (cases "m = 0") (auto simp: rep0_def)

lemma of_nat_le_2_1023: "m < 2 ^ 256 \<Longrightarrow> (of_nat m :: rat) \<le> 2 ^ 1023"
proof -
  assume "m < 2 ^ 256"
  then have "m \<le> 2 ^ 1023" by (rule less_imp_le [THEN order.trans]) (rule power_increasing; simp)
  then have "(of_nat m :: rat) \<le> of_nat (2 ^ 1023)" by (simp only: of_nat_le_iff)
  then show ?thesis by simp
qed

lemma byte_as_f64: "f64_of_int (uint (b :: byte)) = Fin (of_nat (unat b))"
proof -
  have b: "unat b < 256" by (rule unat_byte_less)
  have "rep0 (of_nat (unat b) * 2 ^ 0)" using b by (intro rep0_nat) (rule less_trans, assumption, simp)
  moreover have "(of_nat (unat b) :: rat) \<le> 2 ^ 1023"
    using b by (intro of_nat_le_2_1023) (rule less_trans, assumption, simp)
  ultimately have "round_f64 (of_nat (unat b)) = Fin (of_nat (unat b))" by (simp only: rep0_round power_0 mult_1_right)
  moreover have "(of_int (uint b) :: rat) = of_nat (unat b)" by simp
  ultimately show ?thesis by (simp only: f64_of_int_def)
qed

abbreviation target_step :: "f64 \<Rightarrow> byte \<Rightarrow> f64" where
  "target_step value b \<equiv> f64_add (f64_mul value (Fin 256)) (f64_of_int (uint b))"

lemma target_step_exact:
  assumes "rep0 (of_nat n * 256)" and "rep0 (of_nat (n * 256 + unat b))"
    and "n * 256 + unat b < 2 ^ 256"
  shows "target_step (Fin (of_nat n)) b = Fin (of_nat (n * 256 + unat b))"
proof -
  note le = of_nat_le_2_1023
  have "f64_mul (Fin (of_nat n)) (Fin 256) = Fin (of_nat n * 256)"
    using assms(1,3) le [of "n * 256"] by (simp add: rep0_round)
  then show ?thesis
    using assms(2,3) le [of "n * 256 + unat b"] by (simp add: byte_as_f64 rep0_round)
qed

text \<open>The fold is exact when every leading part of the bytes is a double.\<close>

lemma target_fold_exact:
  assumes "\<And>j. j \<le> length bs \<Longrightarrow> rep0 (of_nat (of_be (take j bs)))"
    and "\<And>j. j \<le> length bs \<Longrightarrow> rep0 (of_nat (of_be (take j bs)) * 256)"
    and "length bs \<le> 32"
  shows "foldl target_step (Fin 0) bs = Fin (of_nat (of_be bs))"
  using assms
proof (induction bs rule: rev_induct)
  case (snoc b bs)
  have IH: "foldl target_step (Fin 0) bs = Fin (of_nat (of_be bs))"
  proof (rule snoc.IH)
    fix j assume j: "j \<le> length bs"
    then show "rep0 (of_nat (of_be (take j bs)))" "rep0 (of_nat (of_be (take j bs)) * 256)"
      using snoc.prems(1,2) [of j] by simp_all
  qed (use snoc.prems in simp)
  have val: "of_be (bs @ [b]) = of_be bs * 256 + unat b" by (simp add: of_be_append)
  have "of_be (bs @ [b]) < 256 ^ length (bs @ [b])" by (rule of_be_bound)
  also have "\<dots> \<le> 256 ^ 32" using snoc.prems(3) by (intro power_increasing) simp_all
  finally have bound: "of_be bs * 256 + unat b < 2 ^ 256" by (simp add: val)
  have "foldl target_step (Fin 0) (bs @ [b]) = target_step (Fin (of_nat (of_be bs))) b" using IH by simp
  also have "\<dots> = Fin (of_nat (of_be bs * 256 + unat b))"
  proof (rule target_step_exact)
    show "rep0 (of_nat (of_be bs) * 256)" using snoc.prems(2) [of "length bs"] by simp
    show "rep0 (of_nat (of_be bs * 256 + unat b))"
      using snoc.prems(1) [of "length (bs @ [b])"] by (simp only: take_all order.refl val)
  qed (rule bound)
  finally show ?case by (simp only: val)
qed simp

lemma of_be_take:
  assumes "j \<le> length bs"
  shows "of_be (take j bs) = of_be bs div 256 ^ (length bs - j)"
proof -
  have "of_be bs = of_be (take j bs) * 256 ^ (length bs - j) + of_be (drop j bs)"
    using of_be_append [of "take j bs" "drop j bs"] by simp
  moreover have "of_be (drop j bs) < 256 ^ (length bs - j)" using of_be_bound [of "drop j bs"] by simp
  ultimately show ?thesis by simp
qed

lemma pow256: "(256 :: 'a :: comm_semiring_1) ^ k = 2 ^ (8 * k)"
  by (simp add: power_mult)

text \<open>A value of at most 24 significant bits: what a compact target denotes.\<close>

definition short24 :: "nat \<Rightarrow> bool" where
  "short24 v \<longleftrightarrow> (\<exists>m k. v = m * 256 ^ k \<and> m < 2 ^ 24)"

lemma short24_div: "short24 v \<Longrightarrow> \<exists>m k. v div 256 ^ j = m * 2 ^ k \<and> m < 2 ^ 24"
proof -
  assume "short24 v"
  then obtain m k where v: "v = m * 256 ^ k" and m: "m < 2 ^ 24" by (auto simp: short24_def)
  show ?thesis
  proof (cases "j \<le> k")
    case True
    then have "(256 :: nat) ^ k = 256 ^ (k - j) * 256 ^ j" by (simp flip: power_add)
    then have "v div 256 ^ j = m * 256 ^ (k - j)" by (simp add: v flip: mult.assoc)
    with m show ?thesis by (metis pow256)
  next
    case False
    then have "(256 :: nat) ^ j = 256 ^ k * 256 ^ (j - k)" by (simp flip: power_add)
    then have "v div 256 ^ j = m div 256 ^ (j - k)" by (simp add: v div_mult2_eq)
    moreover have "m div 256 ^ (j - k) < 2 ^ 24" using m div_le_dividend le_less_trans by blast
    ultimately show ?thesis by (metis mult.right_neutral power_0)
  qed
qed

lemma short24_rep0: "short24 v \<Longrightarrow> rep0 (of_nat (v div 256 ^ j) * 2 ^ i)"
proof -
  assume "short24 v"
  then obtain m k where eq: "v div 256 ^ j = m * 2 ^ k" and "m < 2 ^ 24"
    using short24_div by blast
  then have "rep0 (of_nat m * 2 ^ (k + i))" by (intro rep0_nat) simp
  then show ?thesis by (simp add: eq power_add mult.assoc)
qed

lemma target_as_f64_exact:
  assumes "wf_hash h" and "short24 (hash_value h)"
  shows "target_as_f64 h = Fin (of_nat (hash_value h))"
proof -
  have len: "length (hash_bytes h) = 32" using assms(1) by (simp add: wf_hash_def)
  have "rep0 (of_nat (of_be (take j (hash_bytes h))) * 2 ^ i)" if "j \<le> 32" for i j
    using that short24_rep0 [OF assms(2), of "32 - j" i] by (simp add: of_be_take len hash_value_def)
  from this [of _ 0] this [of _ 8] show ?thesis
    unfolding target_as_f64_def hash_value_def
    by (intro target_fold_exact) (simp_all add: len)
qed

lemma short24_expand: "short24 (hash_value (expand_target bits))"
proof -
  consider "expo bits < 3" | "3 \<le> expo bits" "expo bits \<le> 32" | "32 < expo bits" by linarith
  then show ?thesis
  proof cases
    case 1
    have "mant bits div 256 ^ (3 - expo bits) < 2 ^ 24"
      using mant_bound [of bits] div_le_dividend le_less_trans by blast
    with 1 show ?thesis
      unfolding short24_def expand_small [OF 1] by (metis mult.right_neutral power_0)
  next
    case 2
    then show ?thesis unfolding short24_def using expand_large mant_bound by blast
  next
    case 3
    then show ?thesis by (auto simp: short24_def expand_zero)
  qed
qed

lemma target_as_f64_expand:
  "target_as_f64 (expand_target bits) = Fin (of_nat (hash_value (expand_target bits)))"
  by (simp add: target_as_f64_exact short24_expand)

subsection \<open>The largest target rounds up to \<open>2 ^ 256\<close>\<close>

lemma rne_small: "0 \<le> d \<Longrightarrow> d < 1 / 2 \<Longrightarrow> rne (of_int k + d) = k"
proof -
  assume d: "0 \<le> d" "d < 1 / 2"
  then have "\<lfloor>of_int k + d\<rfloor> = k" by (intro floor_unique) simp_all
  with d show ?thesis by (simp add: rne_def Let_def)
qed

lemma round_f64_pow2_plus:
  assumes "64 \<le> n" and "n \<le> 1000" and "0 \<le> c" and "c < 256"
  shows "round_f64 (2 ^ n + c) = Fin (2 ^ n)"
proof -
  have "(2 :: rat) ^ 8 \<le> 2 ^ n" using assms(1) by (intro power_increasing) simp_all
  then have c: "c < 2 ^ n" using assms by simp
  have lo: "2 powi int n \<le> 2 ^ n + c" and hi: "2 ^ n + c < 2 powi (int n + 1)"
    using c assms by (simp_all add: power_int_add)
  have e: "ulp_exp (2 ^ n + c) = int n - 52"
    using ilog2_eqI [OF lo hi] assms by (simp add: ulp_exp_def)
  have p: "2 powi (int n - 52) = (2 :: rat) ^ (n - 52)"
    using assms by (simp add: power_int_def nat_diff_distrib)
  have "(2 :: rat) ^ 12 \<le> 2 ^ (n - 52)" using assms(1) by (intro power_increasing) simp_all
  then have small: "c / 2 ^ (n - 52) < 1 / 2" using assms by (simp add: divide_simps)
  have split: "(2 :: rat) ^ n = 2 ^ 52 * 2 ^ (n - 52)" using assms power_add [of "2 :: rat" 52 "n - 52"] by simp
  have "(2 ^ n + c) / 2 ^ (n - 52) = of_int (2 ^ 52) + c / 2 ^ (n - 52)"
    by (simp add: split add_divide_distrib)
  then have "rne ((2 ^ n + c) / 2 ^ (n - 52)) = 2 ^ 52"
    using rne_small [of "c / 2 ^ (n - 52)" "2 ^ 52"] small assms by simp
  then have r: "round_pos (2 ^ n + c) = 2 ^ n" unfolding round_pos_def e p using split by simp
  have "2 ^ n + c \<le> 2 * 2 ^ n" using c by simp
  also have "\<dots> = (2 :: rat) ^ Suc n" by simp
  also have "\<dots> \<le> 2 ^ 1023" using assms by (intro power_increasing) simp_all
  finally show ?thesis using assms r by (simp add: round_f64_pos add_pos_nonneg)
qed

lemma target_step_pow2:
  assumes "56 \<le> n" and "n \<le> 900"
  shows "target_step (Fin (2 ^ n)) 0xff = Fin (2 ^ (n + 8))"
proof -
  have "round_f64 (2 ^ (n + 8) + 0) = Fin (2 ^ (n + 8))"
    using assms by (intro round_f64_pow2_plus) simp_all
  then have m: "f64_mul (Fin (2 ^ n)) (Fin 256) = Fin (2 ^ (n + 8))" by (simp add: power_add)
  have b: "f64_of_int (uint (0xff :: byte)) = Fin 255" using byte_as_f64 [of "0xff"] by simp
  have "round_f64 (2 ^ (n + 8) + 255) = Fin (2 ^ (n + 8))"
    using assms by (intro round_f64_pow2_plus) simp_all
  then show ?thesis by (simp only: m b f64_add.simps)
qed

lemma target_fold_pow2:
  "56 \<le> n \<Longrightarrow> n + 8 * k \<le> 900 \<Longrightarrow>
    foldl target_step (Fin (2 ^ n)) (replicate k 0xff) = Fin (2 ^ (n + 8 * k))"
proof (induction k arbitrary: n)
  case (Suc k)
  then have "foldl target_step (Fin (2 ^ (n + 8))) (replicate k 0xff) = Fin (2 ^ (n + 8 + 8 * k))"
    by (intro Suc.IH) simp_all
  moreover have "target_step (Fin (2 ^ n)) 0xff = Fin (2 ^ (n + 8))"
    using Suc.prems by (intro target_step_pow2) simp_all
  ultimately show ?case by (simp del: f64_add.simps f64_mul.simps add: add.assoc)
qed simp

lemma target_step_seven: "target_step (Fin (2 ^ 48 - 1)) 0xff = Fin (2 ^ 56)"
proof -
  have "rep0 (of_nat (2 ^ 48 - 1) * 2 ^ 8)" by (intro rep0_nat) simp
  then have m: "f64_mul (Fin (2 ^ 48 - 1)) (Fin 256) = Fin (2 ^ 56 - 256)"
    using rep0_round [of "of_nat (2 ^ 48 - 1) * 2 ^ 8"] by simp
  have b: "f64_of_int (uint (0xff :: byte)) = Fin 255" using byte_as_f64 [of "0xff"] by simp
  have "ilog2 (2 ^ 56 - 1) = 55" by (rule ilog2_eqI) simp_all
  then have "ulp_exp (2 ^ 56 - 1) = 3" by (simp add: ulp_exp_def)
  moreover have "rne ((2 ^ 56 - 1) / 8) = 2 ^ 53"
  proof -
    have "\<lfloor>(2 ^ 56 - 1) / 8 :: rat\<rfloor> = 2 ^ 53 - 1" by (rule floor_unique) simp_all
    then show ?thesis by (simp add: rne_def Let_def)
  qed
  ultimately have "round_pos (2 ^ 56 - 1) = 2 ^ 56" by (simp add: round_pos_def)
  then have "round_f64 (2 ^ 56 - 1) = Fin (2 ^ 56)" by (subst round_f64_pos) simp_all
  then show ?thesis by (simp only: m b f64_add.simps) simp
qed

lemma of_be_replicate_255: "of_be (replicate k (0xff :: byte)) = 256 ^ k - 1"
proof (induction k)
  case (Suc k)
  have "(0 :: nat) < 256 ^ k" by simp
  with Suc show ?case by simp
qed simp

lemma max_target_f64: "target_as_f64 (Hash32 (replicate 32 0xff)) = Fin (2 ^ 256)"
proof -
  have six: "foldl target_step (Fin 0) (replicate 6 0xff) = Fin (2 ^ 48 - 1)"
  proof -
    have val: "of_be (replicate 6 (0xff :: byte)) = 2 ^ 48 - 1"
      by (simp only: of_be_replicate_255) simp
    have small: "of_be (take j (replicate 6 (0xff :: byte))) < 2 ^ 53" for j
    proof -
      have "of_be (take j (replicate 6 (0xff :: byte))) < 256 ^ length (take j (replicate 6 (0xff :: byte)))"
        by (rule of_be_bound)
      also have "\<dots> \<le> 256 ^ 6" by (intro power_increasing) simp_all
      finally show ?thesis by simp
    qed
    have "foldl target_step (Fin 0) (replicate 6 0xff) = Fin (of_nat (of_be (replicate 6 (0xff :: byte))))"
    proof (rule target_fold_exact)
      fix j
      show "rep0 (of_nat (of_be (take j (replicate 6 (0xff :: byte)))))"
        "rep0 (of_nat (of_be (take j (replicate 6 (0xff :: byte)))) * 256)"
        using rep0_nat [OF small, of j 0] rep0_nat [OF small, of j 8] by simp_all
    qed simp
    then show ?thesis by (simp add: val)
  qed
  have "replicate 32 (0xff :: byte) = replicate 6 0xff @ 0xff # replicate 25 0xff"
    using replicate_add [of 6 26 "0xff :: byte"] by (simp flip: replicate_Suc)
  then have "foldl target_step (Fin 0) (replicate 32 0xff) =
      foldl target_step (target_step (foldl target_step (Fin 0) (replicate 6 0xff)) 0xff) (replicate 25 0xff)"
    by (simp only: foldl_append foldl_Cons)
  also have "\<dots> = foldl target_step (Fin (2 ^ 56)) (replicate 25 0xff)" by (simp only: six target_step_seven)
  also have "\<dots> = Fin (2 ^ (56 + 8 * 25))" by (rule target_fold_pow2) simp_all
  finally show ?thesis by (simp add: target_as_f64_def)
qed

subsection \<open>Writing a double as a target\<close>

text \<open>Zero, or a double well above the subnormal range.\<close>

definition dig :: "rat \<Rightarrow> bool" where
  "dig x \<longleftrightarrow> x = 0 \<or> (\<exists>m e. x = of_int m * 2 powi e \<and> 0 < m \<and> m < 2 ^ 53 \<and> - 1000 \<le> e)"

lemma dig_nonneg: "dig x \<Longrightarrow> 0 \<le> x"
  by (auto simp: dig_def)

lemma dig_div: "dig x \<Longrightarrow> x \<le> 2 ^ 1023 \<Longrightarrow> f64_div (Fin x) (Fin 256) = Fin (x / 256)"
proof -
  assume "dig x" and le: "x \<le> 2 ^ 1023"
  then consider "x = 0" | m e where "x = of_int m * 2 powi e" "0 < m" "m < 2 ^ 53" "- 1000 \<le> e"
    by (auto simp: dig_def)
  then show ?thesis
  proof cases
    case 2
    then have "x / 256 = of_int m * 2 powi (e - 8)" by (simp add: power_int_diff)
    then have "f64_rep (x / 256)" using 2 by (simp only:) (rule f64_repI; simp)
    moreover have "x / 256 \<le> 2 ^ 1023" using le dig_nonneg [OF \<open>dig x\<close>] by simp
    ultimately show ?thesis by (simp add: round_f64_exact)
  qed simp
qed

lemma dig_floor: "dig x \<Longrightarrow> dig (of_int \<lfloor>x\<rfloor>)"
proof -
  assume "dig x"
  then consider "x = 0" | m e where "x = of_int m * 2 powi e" "0 < m" "m < 2 ^ 53" "- 1000 \<le> e"
    by (auto simp: dig_def)
  then show ?thesis
  proof cases
    case 2
    show ?thesis
    proof (cases "0 \<le> e")
      case True
      then have "x = of_int (m * 2 ^ nat e)" using 2 by (simp add: pow2_as_int)
      then show ?thesis using \<open>dig x\<close> by simp
    next
      case False
      then have "(2 :: rat) powi e \<le> 2 powi 0" by (simp only: pow2_le_iff)
      then have "x \<le> of_int m" using 2 by simp
      then have "\<lfloor>x\<rfloor> \<le> m" by (simp add: floor_le_iff)
      with 2 have "\<lfloor>x\<rfloor> < 2 ^ 53" using 2 by linarith
      moreover have "0 \<le> \<lfloor>x\<rfloor>" using dig_nonneg [OF \<open>dig x\<close>] by simp
      ultimately have "\<lfloor>x\<rfloor> = 0 \<or> 0 < \<lfloor>x\<rfloor> \<and> \<lfloor>x\<rfloor> < 2 ^ 53" by linarith
      then show ?thesis unfolding dig_def by (rule disj_forward) (simp, rule exI [of _ "\<lfloor>x\<rfloor>"], rule exI [of _ 0], simp)
    qed
  qed (simp add: dig_def)
qed

lemma dig_div_256: "dig x \<Longrightarrow> dig (of_int \<lfloor>x / 256\<rfloor>)"
proof -
  assume "dig x"
  then consider "x = 0" | m e where "x = of_int m * 2 powi e" "0 < m" "m < 2 ^ 53" "- 1000 \<le> e"
    by (auto simp: dig_def)
  then show ?thesis
  proof cases
    case 2
    show ?thesis
    proof (cases "-900 \<le> e")
      case True
      then have "dig (x / 256)" unfolding dig_def using 2
        by (intro disjI2 exI [of _ m] exI [of _ "e - 8"]) (simp add: power_int_diff)
      then show ?thesis by (rule dig_floor)
    next
      case False
      have "(of_int m :: rat) < of_int (2 ^ 53)" using 2(3) by (simp only: of_int_less_iff)
      then have "x < of_int (2 ^ 53) * 2 powi e" using 2(1) by (simp only:) (rule mult_strict_right_mono; simp)
      also have "\<dots> = 2 powi (53 + e)" by (simp add: power_int_add)
      also have "\<dots> \<le> 2 powi 0" using False by (simp only: pow2_le_iff)
      finally have "x < 1" by simp
      moreover have "0 \<le> x" using dig_nonneg [OF \<open>dig x\<close>] .
      ultimately have "\<lfloor>x / 256\<rfloor> = 0" by (intro floor_unique) simp_all
      then show ?thesis by (simp add: dig_def)
    qed
  qed (simp add: dig_def)
qed

lemma floor_div_256: "\<lfloor>x / 256 :: rat\<rfloor> = \<lfloor>x\<rfloor> div 256"
proof (rule floor_unique)
  have fl: "of_int \<lfloor>x\<rfloor> \<le> x" and fu: "x < of_int \<lfloor>x\<rfloor> + 1" by linarith+
  have "\<lfloor>x\<rfloor> div 256 * 256 \<le> \<lfloor>x\<rfloor>" and "\<lfloor>x\<rfloor> + 1 \<le> (\<lfloor>x\<rfloor> div 256 + 1) * 256" by presburger+
  then have "(of_int (\<lfloor>x\<rfloor> div 256 * 256) :: rat) \<le> of_int \<lfloor>x\<rfloor>"
    and "of_int (\<lfloor>x\<rfloor> + 1) \<le> (of_int ((\<lfloor>x\<rfloor> div 256 + 1) * 256) :: rat)" by (simp_all only: of_int_le_iff)
  then show "of_int (\<lfloor>x\<rfloor> div 256) \<le> x / 256" and "x / 256 < of_int (\<lfloor>x\<rfloor> div 256) + 1"
    using fl fu by (simp_all del: of_int_floor_le)
qed

lemma digit_as_u8: "0 \<le> x \<Longrightarrow> unat (f64_as_u8 (f64_rem (Fin x) (Fin 256))) = nat \<lfloor>x\<rfloor> mod 256"
proof -
  assume x: "0 \<le> x"
  have "rat_trunc (x / 256) = \<lfloor>x\<rfloor> div 256" using x by (simp add: rat_trunc_def floor_div_256)
  then have r: "f64_rem (Fin x) (Fin 256) = Fin (x - of_int (256 * (\<lfloor>x\<rfloor> div 256)))" by simp
  have fl: "\<lfloor>x - of_int (256 * (\<lfloor>x\<rfloor> div 256))\<rfloor> = \<lfloor>x\<rfloor> mod 256"
    by (simp only: floor_diff_of_int minus_mult_div_eq_mod)
  moreover have "0 \<le> \<lfloor>x\<rfloor> mod 256" by simp
  ultimately have "0 \<le> x - of_int (256 * (\<lfloor>x\<rfloor> div 256))" by (metis zero_le_floor)
  then have t: "rat_trunc (x - of_int (256 * (\<lfloor>x\<rfloor> div 256))) = \<lfloor>x\<rfloor> mod 256" using fl by (simp only: rat_trunc_def if_True)
  have "max 0 (min 255 (\<lfloor>x\<rfloor> mod 256)) = \<lfloor>x\<rfloor> mod 256"
    using pos_mod_bound [of 256 "\<lfloor>x\<rfloor>"] by simp
  then have "f64_as_u8 (f64_rem (Fin x) (Fin 256)) = word_of_int (\<lfloor>x\<rfloor> mod 256)" by (simp only: r f64_as_u8.simps t)
  also have "\<dots> = word_of_nat (nat \<lfloor>x\<rfloor> mod 256)"
    using x by (metis nat_mod_as_int int_nat_eq of_int_of_nat_eq zero_le_floor zmod_int of_nat_numeral)
  finally show ?thesis by (simp only: unat_byte) simp
qed

lemma of_le_f64_digits:
  "dig x \<Longrightarrow> x \<le> 2 ^ 1023 \<Longrightarrow> of_le (f64_digits n (Fin x)) = nat \<lfloor>x\<rfloor> mod 256 ^ n"
proof (induction n arbitrary: x)
  case (Suc n)
  have x0: "0 \<le> x" using Suc.prems(1) by (rule dig_nonneg)
  have step: "f64_floor (f64_div (Fin x) (Fin 256)) = Fin (of_int \<lfloor>x / 256\<rfloor>)"
    by (simp only: dig_div [OF Suc.prems] f64_floor.simps)
  have "of_int \<lfloor>x / 256\<rfloor> \<le> x / 256" by (rule of_int_floor_le)
  also have "\<dots> \<le> x" using x0 by simp
  finally have "of_le (f64_digits n (Fin (of_int \<lfloor>x / 256\<rfloor>))) = nat \<lfloor>x / 256\<rfloor> mod 256 ^ n"
    using Suc.IH [OF dig_div_256 [OF Suc.prems(1)]] Suc.prems(2) by simp
  moreover have "nat \<lfloor>x / 256\<rfloor> = nat \<lfloor>x\<rfloor> div 256" by (simp add: floor_div_256 nat_div_distrib')
  ultimately have "of_le (f64_digits (Suc n) (Fin x)) = nat \<lfloor>x\<rfloor> mod 256 + 256 * (nat \<lfloor>x\<rfloor> div 256 mod 256 ^ n)"
    by (simp only: f64_digits.simps of_le.simps step digit_as_u8 [OF x0])
  also have "\<dots> = nat \<lfloor>x\<rfloor> mod 256 ^ Suc n"
    using mod_mult2_eq [of "nat \<lfloor>x\<rfloor>" 256 "256 ^ n"] by simp
  finally show ?case .
qed simp

lemma length_f64_digits [simp]: "length (f64_digits n v) = n"
  by (induction n arbitrary: v) simp_all

lemma wf_f64_as_target [simp]: "wf_hash (f64_as_target v)"
  by (simp add: f64_as_target_def wf_hash_def Let_def)

lemma f64_as_target_value:
  assumes "dig x"
  shows "hash_value (f64_as_target (Fin x)) = (if x < 2 ^ 256 then nat \<lfloor>x\<rfloor> else 0)"
proof -
  have big: "(2 :: rat) ^ 256 \<le> 2 ^ 1023" by (rule power_increasing) simp_all
  have "dig (2 ^ 256)" unfolding dig_def by (intro disjI2 exI [of _ 1] exI [of _ 256]) simp
  show ?thesis
  proof (cases "x < 2 ^ 256")
    case True
    then have "f64_as_target (Fin x) = Hash32 (rev (f64_digits 32 (Fin x)))"
      using dig_nonneg [OF assms] by (simp add: f64_as_target_def Let_def max_target_f64 del: f64_digits.simps)
    moreover have "x \<le> 2 ^ 1023" using True big by linarith
    ultimately have "hash_value (f64_as_target (Fin x)) = nat \<lfloor>x\<rfloor> mod 256 ^ 32"
      using of_le_f64_digits [OF assms, of 32]
      by (simp only: hash_value_def of_be_def Hash32.sel rev_rev_ident)
    moreover have "\<lfloor>x\<rfloor> < 2 ^ 256" using True by (simp only: floor_less_iff of_int_power of_int_numeral)
    then have "nat \<lfloor>x\<rfloor> < nat (2 ^ 256)" by (simp only: nat_mono_iff zero_less_power zero_less_numeral)
    then have "nat \<lfloor>x\<rfloor> < 256 ^ 32" by simp
    ultimately show ?thesis using True by simp
  next
    case False
    then have "f64_as_target (Fin x) = Hash32 (rev (f64_digits 32 (Fin (2 ^ 256))))"
      using dig_nonneg [OF assms] by (simp add: f64_as_target_def Let_def max_target_f64 del: f64_digits.simps)
    then have "hash_value (f64_as_target (Fin x)) = nat \<lfloor>2 ^ 256 :: rat\<rfloor> mod 256 ^ 32"
      using of_le_f64_digits [OF \<open>dig (2 ^ 256)\<close>, of 32] big
      by (simp only: hash_value_def of_be_def Hash32.sel rev_rev_ident)
    moreover have "\<lfloor>2 ^ 256 :: rat\<rfloor> = 2 ^ 256" by (metis floor_of_int of_int_numeral of_int_power)
    ultimately show ?thesis using False by simp
  qed
qed

subsection \<open>Truncation by the compact form\<close>

lemma compact_ZERO: "wf_hash h \<Longrightarrow> hash_value h = 0 \<Longrightarrow> compact_from_target h = 0"
proof -
  assume "wf_hash h" and "hash_value h = 0"
  then have h: "h = ZERO" by (intro hash_value_inj) simp_all
  have "position (\<lambda>b. b \<noteq> 0) (hash_bytes ZERO) = None" by (simp add: position_None ZERO_def)
  then show ?thesis by (simp add: compact_from_target_def h Let_def)
qed

lemma expand_0 [simp]: "hash_value (expand_target 0) = 0"
  using expand_small [of 0] by (simp add: expo_def mant_def)

abbreviation recompact :: "Hash32 \<Rightarrow> nat" where
  "recompact h \<equiv> hash_value (expand_target (compact_from_target h))"

lemma recompact_le: "wf_hash h \<Longrightarrow> recompact h \<le> hash_value h"
proof (cases "hash_value h = 0")
  case False
  then show "wf_hash h \<Longrightarrow> ?thesis" by (elim compact_value) simp_all
qed (simp add: compact_ZERO)

lemma recompact_ge: "wf_hash h \<Longrightarrow> hash_value h * 65535 \<le> recompact h * 65536"
proof (cases "hash_value h = 0")
  case False
  assume "wf_hash h"
  from compact_value [OF this False] obtain L where
    lo: "256 ^ (L - 1) \<le> hash_value h" and r: "recompact h = hash_value h - hash_value h mod 256 ^ (L - 3)"
    by metis
  have "hash_value h mod 256 ^ (L - 3) * 65536 \<le> hash_value h"
  proof (cases "3 \<le> L")
    case True
    then have "L - 1 = (L - 3) + 2" by simp
    then have "(256 :: nat) ^ (L - 1) = 256 ^ (L - 3) * 65536" by (simp only: power_add) simp
    moreover have "hash_value h mod 256 ^ (L - 3) \<le> 256 ^ (L - 3)" by simp
    ultimately show ?thesis using lo by (metis mult_le_mono1 order.trans)
  qed simp
  moreover have "hash_value h mod 256 ^ (L - 3) \<le> hash_value h" by simp
  ultimately show ?thesis unfolding r by (simp add: diff_mult_distrib)
qed (simp add: compact_ZERO)

text \<open>Truncation never goes below a short value it started above.\<close>

lemma short24_dvd:
  assumes "short24 v" and "256 ^ (L - 1) \<le> v"
  shows "256 ^ (L - 3) dvd v"
proof -
  obtain m k where v: "v = m * 256 ^ k" and m: "m < 2 ^ 24" using assms(1) by (auto simp: short24_def)
  have "v < 2 ^ 24 * 256 ^ k" unfolding v using m by (intro mult_strict_right_mono) simp_all
  also have "\<dots> = 256 ^ (k + 3)" by (simp add: power_add)
  finally have "v < 256 ^ (k + 3)" .
  with assms(2) have "(256 :: nat) ^ (L - 1) < 256 ^ (k + 3)" by (rule le_less_trans)
  then have "L - 1 < k + 3" by (rule power_less_imp_less_exp [rotated]) simp
  then have "(256 :: nat) ^ (L - 3) dvd 256 ^ k" by (intro le_imp_power_dvd) simp
  then show ?thesis unfolding v by (rule dvd_mult)
qed

lemma recompact_above:
  assumes "wf_hash h" and "short24 t" and "t \<le> hash_value h"
  shows "t \<le> recompact h"
proof (cases "hash_value h = 0")
  case False
  from compact_value [OF assms(1) this] obtain L where L: "1 \<le> L" and
    lo: "256 ^ (L - 1) \<le> hash_value h" and r: "recompact h = hash_value h - hash_value h mod 256 ^ (L - 3)"
    by metis
  let ?d = "256 ^ (L - 3) :: nat"
  have rr: "recompact h = hash_value h div ?d * ?d" unfolding r by (simp add: minus_mod_eq_div_mult)
  show ?thesis
  proof (cases "256 ^ (L - 1) \<le> t")
    case True
    then obtain q where t: "t = ?d * q" using short24_dvd [OF assms(2)] by blast
    then have "q \<le> hash_value h div ?d" using assms(3) by (simp add: less_eq_div_iff_mult_less_eq mult.commute)
    then show ?thesis unfolding rr t by (simp add: mult.commute)
  next
    case False
    have "?d dvd 256 ^ (L - 1)" by (intro le_imp_power_dvd) simp
    then obtain q where p: "256 ^ (L - 1) = ?d * q" by blast
    then have "q \<le> hash_value h div ?d" using lo by (simp add: less_eq_div_iff_mult_less_eq mult.commute)
    then have "256 ^ (L - 1) \<le> recompact h" unfolding rr p by (simp add: mult.commute)
    with False show ?thesis by simp
  qed
qed (use assms in \<open>simp add: compact_ZERO\<close>)

lemma recompact_expand: "recompact (expand_target bits) = hash_value (expand_target bits)"
  by (intro order.antisym recompact_le recompact_above short24_expand) simp_all

subsection \<open>Retargeting\<close>

lemma round_pos_dig:
  assumes "2 powi (- 900) \<le> x" and "x \<le> 2 ^ 1023"
  shows "dig (round_pos x)"
proof -
  have pos: "0 < x" using assms(1) by (rule less_le_trans [rotated]) simp
  let ?u = "ulp_exp x"
  have "ilog2 (2 powi (- 900)) \<le> ilog2 x" using assms(1) by (intro ilog2_mono) simp_all
  moreover have "ilog2 (2 powi (- 900)) = - 900" by (intro ilog2_eqI) (simp_all only: pow2_le_iff pow2_less_iff)
  ultimately have u: "?u = ilog2 x - 52" and uge: "- 952 \<le> ?u" by (simp_all add: ulp_exp_def)
  have "x \<le> 2 powi (ilog2 x + 1)" using ilog2_bounds(2) [OF pos] by simp
  also have "\<dots> = 2 powi (53 + ?u)" by (simp add: u add.commute)
  also have "\<dots> = 2 ^ 53 * 2 powi ?u" by (simp add: power_int_add)
  finally have "x / 2 powi ?u \<le> of_int (2 ^ 53)" by (simp add: pos_divide_le_eq)
  then have hi: "rne (x / 2 powi ?u) \<le> 2 ^ 53" by (rule rne_le_of_int)
  have lo: "0 \<le> rne (x / 2 powi ?u)" using pos rne_ge_of_int [of 0] by simp
  consider "rne (x / 2 powi ?u) = 0" | "0 < rne (x / 2 powi ?u)" "rne (x / 2 powi ?u) < 2 ^ 53"
    | "rne (x / 2 powi ?u) = 2 ^ 53" using hi lo by linarith
  then show ?thesis
  proof cases
    case 1 then show ?thesis by (simp add: round_pos_def dig_def)
  next
    case 2 then show ?thesis unfolding round_pos_def dig_def using uge
      by (intro disjI2 exI [of _ "rne (x / 2 powi ?u)"] exI [of _ ?u]) simp
  next
    case 3 then show ?thesis unfolding round_pos_def dig_def using uge
      by (intro disjI2 exI [of _ 1] exI [of _ "53 + ?u"]) (simp add: power_int_add)
  qed
qed

lemma rep0_quarter: "short24 T \<Longrightarrow> T \<noteq> 0 \<Longrightarrow> f64_rep (of_nat T / 4)"
proof -
  assume "short24 T" and "T \<noteq> 0"
  then obtain m k where T: "T = m * 256 ^ k" and m: "m < 2 ^ 24" "0 < m" by (auto simp: short24_def)
  have "(2 powi (int (8 * k) - 2) :: rat) = 2 ^ (8 * k) / 4"
    by (simp add: power_int_diff del: of_nat_mult)
  then have "(of_nat T / 4 :: rat) = of_int (int m) * 2 powi (int (8 * k) - 2)"
    by (simp add: T pow256 del: of_nat_mult) simp
  then show ?thesis using m by (simp only:) (rule f64_repI; simp)
qed

text \<open>The scaled target for a ratio between \<open>1 / 4\<close> and \<open>4\<close>.\<close>

lemma scaled_bounds:
  assumes "short24 T" and "T < 2 ^ 256" and "1 / 4 \<le> r" and "r \<le> 4"
  obtains s where "f64_mul (Fin (of_nat T)) (Fin r) = Fin s" and "dig s"
    and "of_nat T / 4 \<le> s" and "s \<le> 4 * of_nat T"
    and "1 \<le> r \<Longrightarrow> of_nat T \<le> s" and "r \<le> 1 \<Longrightarrow> s \<le> of_nat T" and "r = 4 \<Longrightarrow> s = 4 * of_nat T"
proof (cases "T = 0")
  case True
  then show ?thesis using that [of 0] by (simp add: dig_def)
next
  case False
  let ?x = "of_nat T * r"
  have T1: "1 \<le> (of_nat T :: rat)" using False by simp
  have rep: "f64_rep (of_nat T)" "f64_rep (4 * of_nat T)"
    using short24_rep0 [OF assms(1), of 0 0] short24_rep0 [OF assms(1), of 0 2] False by (simp_all add: rep0_def mult.commute)
  have lo: "of_nat T / 4 \<le> ?x" and hi: "?x \<le> 4 * of_nat T"
    using mult_left_mono [OF assms(3), of "of_nat T"] mult_left_mono [OF assms(4), of "of_nat T"] by simp_all
  have pos: "0 < ?x" using lo T1 by linarith
  have "(of_nat T :: rat) \<le> of_nat (2 ^ 256)" using assms(2) by (simp only: of_nat_le_iff)
  then have "?x \<le> 2 ^ 258" using hi by simp
  also have "\<dots> \<le> (2 :: rat) ^ 1023" by (rule power_increasing) simp_all
  finally have bound: "?x \<le> 2 ^ 1023" .
  then have m: "f64_mul (Fin (of_nat T)) (Fin r) = Fin (round_pos ?x)" using pos by (simp add: round_f64_pos)
  have "(2 powi (- 900) :: rat) \<le> 2 powi (- 2)" by (simp only: pow2_le_iff)
  also have "\<dots> = 1 / 4" by (simp add: power_int_def power2_eq_square)
  also have "\<dots> \<le> ?x" using lo T1 by linarith
  finally have dig: "dig (round_pos ?x)" using bound by (rule round_pos_dig)
  show ?thesis
  proof (rule that [OF m dig])
    show "of_nat T / 4 \<le> round_pos ?x" using lo T1 rep0_quarter [OF assms(1) False] by (intro round_pos_ge) simp_all
    show "round_pos ?x \<le> 4 * of_nat T" using hi pos rep by (intro round_pos_le) simp_all
    show "of_nat T \<le> round_pos ?x" if "1 \<le> r" using that T1 rep mult_left_mono [OF that, of "of_nat T"] by (intro round_pos_ge) simp_all
    show "round_pos ?x \<le> of_nat T" if "r \<le> 1" using that pos rep mult_left_mono [OF that, of "of_nat T"] by (intro round_pos_le) simp_all
    show "round_pos ?x = 4 * of_nat T" if "r = 4" using rep(2) that by (simp add: round_pos_exact mult.commute)
  qed
qed

text \<open>The clamped ratio of two spans.\<close>

abbreviation span_ratio :: "int \<Rightarrow> int \<Rightarrow> f64" where
  "span_ratio a e \<equiv> f64_clamp RETARGET_CLAMP_MIN RETARGET_CLAMP_MAX
     (f64_div (f64_of_int a) (f64_of_int e))"

lemma pow_1023: "n < 2 ^ 64 \<Longrightarrow> (of_int n :: rat) \<le> 2 ^ 1023"
proof -
  assume "n < 2 ^ 64"
  then have "n \<le> 2 ^ 1023" by (rule less_imp_le [THEN order.trans]) (rule power_increasing; simp)
  then have "(of_int n :: rat) \<le> of_int (2 ^ 1023)" by (simp only: of_int_le_iff)
  then show ?thesis by simp
qed

lemma f64_rep_1: "f64_rep 1"
  using f64_rep_nat_power [of 1 0] by simp

lemma f64_of_pos_int: "0 < n \<Longrightarrow> n < 2 ^ 64 \<Longrightarrow> f64_of_int n = Fin (round_pos (of_int n))"
  using pow_1023 [of n] by (simp add: f64_of_int_def round_f64_pos)

lemma round_pos_int_ge_1: "0 < n \<Longrightarrow> 1 \<le> round_pos (of_int n)"
  by (intro round_pos_ge f64_rep_1) simp_all

lemma round_f64_neg: "x < 0 \<Longrightarrow> f64_le (round_f64 x) (Fin 0)"
proof -
  assume "x < 0"
  then have "of_int 0 \<le> - x / 2 powi ulp_exp (- x)" by (simp add: divide_nonpos_pos)
  then have "0 \<le> rne (- x / 2 powi ulp_exp (- x))" by (rule rne_ge_of_int)
  then have "0 \<le> round_pos (- x)" by (simp add: round_pos_def)
  with \<open>x < 0\<close> show ?thesis by (simp add: round_f64_def)
qed

lemma span_ratio_cases:
  assumes e: "0 < e" "e < 2 ^ 63" and a: "- (2 ^ 63) \<le> a" "a < 2 ^ 63"
  obtains r where "span_ratio a e = Fin r" and "1 / 4 \<le> r" and "r \<le> 4"
    and "e \<le> a \<Longrightarrow> 1 \<le> r" and "a \<le> e \<Longrightarrow> r \<le> 1"
    and "f64_rep (of_int e) \<Longrightarrow> 4 * e \<le> a \<Longrightarrow> r = 4"
proof -
  note defs = f64_clamp_def RETARGET_CLAMP_MIN_def RETARGET_CLAMP_MAX_def
  let ?y = "round_pos (of_int e)"
  have y: "f64_of_int e = Fin ?y" and y1: "1 \<le> ?y"
    using e by (simp_all add: f64_of_pos_int round_pos_int_ge_1)
  have ec: "(of_int e :: rat) \<le> 2 ^ 1023" using e by (intro pow_1023) simp
  consider "a = 0" | "a < 0" | "0 < a" by linarith
  then show ?thesis
  proof cases
    case 1
    then have "f64_of_int a = Fin 0" by (simp add: f64_of_int_def)
    then have "span_ratio a e = Fin (1 / 4)" using y1 by (simp add: y defs)
    then show ?thesis using that [of "1 / 4"] 1 e by simp
  next
    case 2
    have n: "f64_le (f64_of_int a) (Fin 0)" using 2 round_f64_neg [of "of_int a"] by (simp add: f64_of_int_def)
    have q: "f64_le (f64_div (f64_of_int a) (Fin ?y)) (Fin 0)"
    proof (cases "f64_of_int a")
      case (Fin x)
      then have x: "x \<le> 0" using n by simp
      show ?thesis
      proof (cases "x = 0")
        case False
        with x y1 have "x / ?y < 0" by (simp add: divide_neg_pos)
        with round_f64_neg [OF this] y1 show ?thesis by (simp add: Fin)
      qed (use y1 in \<open>simp add: Fin\<close>)
    qed (use n y1 in simp_all)
    then have "span_ratio a e = Fin (1 / 4)"
      by (cases "f64_div (f64_of_int a) (Fin ?y)") (simp_all add: y defs)
    then show ?thesis using that [of "1 / 4"] 2 e by simp
  next
    case 3
    let ?x = "round_pos (of_int a)"
    have x: "f64_of_int a = Fin ?x" and x1: "1 \<le> ?x"
      using 3 a by (simp_all add: f64_of_pos_int round_pos_int_ge_1)
    have q: "0 < ?x / ?y" using x1 y1 by simp
    have ac: "(of_int a :: rat) \<le> 2 ^ 1023" using a by (intro pow_1023) simp
    have "?x \<le> 2 ^ 1023" using ac 3 f64_rep_nat_power [of 1 1023] by (intro round_pos_le) simp_all
    moreover have "?x / ?y \<le> ?x" using x1 y1 by (simp add: pos_divide_le_eq)
    ultimately have d: "f64_div (Fin ?x) (Fin ?y) = Fin (round_pos (?x / ?y))"
      using q y1 by (simp add: round_f64_pos)
    let ?q = "round_pos (?x / ?y)"
    define r where "r = max (1 / 4) (min 4 ?q)"
    have "span_ratio a e = Fin r" by (auto simp: x y d defs r_def simp del: f64_div.simps)
    moreover have "1 \<le> r" if "e \<le> a"
    proof -
      have "?y \<le> ?x" using that e by (intro round_pos_mono) simp_all
      then have "1 \<le> ?x / ?y" using y1 by (simp add: pos_le_divide_eq)
      then have "1 \<le> ?q" by (intro round_pos_ge f64_rep_1) simp_all
      then show ?thesis by (simp add: r_def)
    qed
    moreover have "r \<le> 1" if "a \<le> e"
    proof -
      have "?x \<le> ?y" using that 3 by (intro round_pos_mono) simp_all
      then have "?x / ?y \<le> 1" using y1 by (simp add: pos_divide_le_eq)
      then have "?q \<le> 1" using q by (intro round_pos_le f64_rep_1)
      then show ?thesis by (simp add: r_def)
    qed
    moreover have "r = 4" if rep: "f64_rep (of_int e)" and "4 * e \<le> a"
    proof -
      have ye: "?y = of_int e" using rep by (rule round_pos_exact)
      obtain m k where mk: "(of_int e :: rat) = of_int m * 2 powi k" "0 < m" "m < 2 ^ 53" "- 1074 \<le> k"
        using rep by (auto simp: f64_rep_def)
      then have "(of_int (4 * e) :: rat) = of_int m * 2 powi (k + 2)" by (simp add: power_int_add)
      then have "f64_rep (of_int (4 * e))" using mk by (simp only:) (rule f64_repI; simp)
      moreover have "(of_int (4 * e) :: rat) \<le> of_int a" using that(2) by (simp only: of_int_le_iff)
      ultimately have "of_int (4 * e) \<le> ?x" using e by (intro round_pos_ge) simp_all
      then have "4 \<le> ?x / ?y" using y1 by (simp add: ye pos_le_divide_eq)
      then have "4 \<le> ?q" using f64_rep_nat_power [of 1 2] by (intro round_pos_ge) simp_all
      then show ?thesis by (simp add: r_def)
    qed
    ultimately show ?thesis using that [of r] by (simp add: r_def)
  qed
qed

abbreviation target_value :: "CompactTarget \<Rightarrow> nat" where
  "target_value bits \<equiv> hash_value (expand_target bits)"

lemma target_value_bound: "target_value bits < 2 ^ 256"
  by (intro hash_value_bound) simp

text \<open>The result of a retarget is the scaled target, floored and truncated, when it stays
  below \<open>2 ^ 256\<close>.\<close>

lemma retarget_scaled:
  assumes "span_ratio a e = Fin r" and "f64_mul (Fin (of_nat (target_value bits))) (Fin r) = Fin s"
  shows "retarget bits a e = compact_from_target (f64_as_target (Fin s))"
  by (simp only: retarget_def Let_def assms target_as_f64_expand)

lemma floor_nat_bounds:
  fixes s :: rat
  shows "of_nat n \<le> s \<Longrightarrow> n \<le> nat \<lfloor>s\<rfloor>" and "s \<le> of_nat n \<Longrightarrow> nat \<lfloor>s\<rfloor> \<le> n"
   apply (simp add: le_nat_iff le_floor_iff)
  apply (simp add: nat_le_iff floor_le_iff)
  done

lemma retarget_bounds_aux:
  fixes bits :: CompactTarget
  assumes "0 < e" "e < 2 ^ 63" "- (2 ^ 63) \<le> a" "a < 2 ^ 63"
  defines "T \<equiv> target_value bits"
  obtains v where "target_value (retarget bits a e) \<le> v" and "v * 65535 \<le> target_value (retarget bits a e) * 65536"
    and "\<And>t. short24 t \<Longrightarrow> t \<le> v \<Longrightarrow> t \<le> target_value (retarget bits a e)"
    and "v \<le> 4 * T" and "a \<le> e \<Longrightarrow> v \<le> T"
    and "4 * T < 2 ^ 256 \<or> a \<le> e \<Longrightarrow> T div 4 \<le> v"
    and "4 * T < 2 ^ 256 \<Longrightarrow> e \<le> a \<Longrightarrow> T \<le> v"
    and "f64_rep (of_int e) \<Longrightarrow> 4 * e \<le> a \<Longrightarrow> 2 ^ 256 \<le> 4 * T \<Longrightarrow> v = 0"
proof -
  have short: "short24 T" and bound: "T < 2 ^ 256" unfolding T_def by (rule short24_expand, rule target_value_bound)
  obtain r where r: "span_ratio a e = Fin r" and r4: "1 / 4 \<le> r" "r \<le> 4"
    and up: "e \<le> a \<Longrightarrow> 1 \<le> r" and down: "a \<le> e \<Longrightarrow> r \<le> 1" and four: "f64_rep (of_int e) \<Longrightarrow> 4 * e \<le> a \<Longrightarrow> r = 4"
    using span_ratio_cases [OF assms(1-4)] by metis
  obtain s where s: "f64_mul (Fin (of_nat T)) (Fin r) = Fin s" and dig: "dig s"
    and lo: "of_nat T / 4 \<le> s" and hi: "s \<le> 4 * of_nat T"
    and s_up: "1 \<le> r \<Longrightarrow> of_nat T \<le> s" and s_down: "r \<le> 1 \<Longrightarrow> s \<le> of_nat T" and s_four: "r = 4 \<Longrightarrow> s = 4 * of_nat T"
    using scaled_bounds [OF short bound r4] by metis
  define h where "h = f64_as_target (Fin s)"
  have res: "retarget bits a e = compact_from_target h"
    using retarget_scaled [OF r s [unfolded T_def]] by (simp add: h_def)
  have wf: "wf_hash h" by (simp add: h_def)
  have val: "hash_value h = (if s < 2 ^ 256 then nat \<lfloor>s\<rfloor> else 0)" unfolding h_def by (rule f64_as_target_value [OF dig])
  have below: "s < 2 ^ 256" if "s \<le> of_nat n" "n < 2 ^ 256" for n
  proof -
    have "(of_nat n :: rat) < of_nat (2 ^ 256)" using that(2) by (simp only: of_nat_less_iff)
    with that(1) show ?thesis by simp
  qed
  have q: "of_nat (T div 4) \<le> (of_nat T / 4 :: rat)"
  proof -
    have "T div 4 * 4 \<le> T" by simp
    then have "of_nat (T div 4 * 4) \<le> (of_nat T :: rat)" by (simp only: of_nat_le_iff)
    then show ?thesis by simp
  qed
  show ?thesis
  proof (rule that [of "hash_value h"])
    show "hash_value h \<le> 4 * T" using floor_nat_bounds(2) [of s "4 * T"] hi by (simp add: val)
    show "hash_value h \<le> T" if "a \<le> e" using floor_nat_bounds(2) [of s T] s_down down that by (simp add: val)
    show "T div 4 \<le> hash_value h" if "4 * T < 2 ^ 256 \<or> a \<le> e"
    proof -
      have "s < 2 ^ 256" using that below [of "4 * T"] below [of T] hi s_down down bound by auto
      then show ?thesis using floor_nat_bounds(1) [of "T div 4" s] q lo by (simp add: val)
    qed
    show "T \<le> hash_value h" if "4 * T < 2 ^ 256" "e \<le> a"
    proof -
      have "s < 2 ^ 256" using that below [of "4 * T"] hi by simp
      then show ?thesis using floor_nat_bounds(1) [of T s] s_up up that by (simp add: val)
    qed
    show "hash_value h = 0" if "f64_rep (of_int e)" "4 * e \<le> a" "2 ^ 256 \<le> 4 * T"
    proof -
      have "(of_nat (2 ^ 256) :: rat) \<le> of_nat (4 * T)" using that(3) by (simp only: of_nat_le_iff)
      then show ?thesis using s_four four that by (simp add: val)
    qed
  qed (use wf recompact_le recompact_ge recompact_above in \<open>simp_all add: res\<close>)
qed

subsection \<open>The work of a block\<close>

definition work_value :: "nat \<Rightarrow> rat" where
  "work_value T = (if T = 0 then (2 ^ 53 - 1) * 2 ^ 971 else round_pos (2 ^ 256 / round_pos (of_nat T + 1)))"

lemma round_succ_ge: "1 \<le> round_pos (of_nat T + 1)"
  by (intro round_pos_ge f64_rep_1) simp_all

lemma of_nat_succ_le: "T < 2 ^ 256 \<Longrightarrow> (of_nat T + 1 :: rat) \<le> 2 ^ 256"
proof -
  assume "T < 2 ^ 256"
  then have "(of_nat (T + 1) :: rat) \<le> of_nat (2 ^ 256)" by (simp only: of_nat_le_iff)
  then show ?thesis by simp
qed

lemma round_succ_le: "T < 2 ^ 256 \<Longrightarrow> round_pos (of_nat T + 1) \<le> 2 ^ 256"
  using f64_rep_nat_power [of 1 256] of_nat_succ_le by (intro round_pos_le) (simp_all add: add_nonneg_pos)

lemma quotient_le: "2 ^ 256 / round_pos (of_nat T + 1) \<le> 2 ^ 256"
  using round_succ_ge [of T] by (simp add: pos_divide_le_eq)

lemma work_of_value: "work_of bits = Fin (work_value (target_value bits))"
proof (cases "target_value bits = 0")
  case False
  let ?T = "target_value bits"
  have big: "(2 :: rat) ^ 256 \<le> 2 ^ 1023" by (rule power_increasing) simp_all
  have a: "round_f64 (of_nat ?T + 1) = Fin (round_pos (of_nat ?T + 1))"
    using big of_nat_succ_le [OF target_value_bound, of bits] by (intro round_f64_pos) (simp_all add: add_nonneg_pos)
  have "round_f64 (2 ^ 256 / round_pos (of_nat ?T + 1)) = Fin (round_pos (2 ^ 256 / round_pos (of_nat ?T + 1)))"
    using big round_succ_ge [of ?T] quotient_le [of ?T] by (intro round_f64_pos) simp_all
  then show ?thesis using False round_succ_ge [of ?T] a
    by (simp add: work_of_def Let_def target_as_f64_expand max_target_f64 work_value_def)
qed (simp add: work_of_def Let_def target_as_f64_expand f64_max_value_def work_value_def)

lemma work_value_le_top: "work_value T \<le> work_value 0"
proof (cases "T = 0")
  case False
  have "0 < 2 ^ 256 / round_pos (of_nat T + 1)" using round_succ_ge [of T] by simp
  then have "work_value T \<le> 2 ^ 256" using False quotient_le [of T] f64_rep_nat_power [of 1 256]
    by (simp only: work_value_def if_False) (intro round_pos_le; simp)
  also have "\<dots> \<le> work_value 0" by (simp add: work_value_def)
  finally show ?thesis .
qed simp

lemma work_value_antimono: "T \<le> T' \<Longrightarrow> T' < 2 ^ 256 \<Longrightarrow> work_value T' \<le> work_value T"
proof (cases "T = 0")
  case True then show ?thesis using work_value_le_top by simp
next
  case False
  assume le: "T \<le> T'" and T': "T' < 2 ^ 256"
  have "round_pos (of_nat T + 1) \<le> round_pos (of_nat T' + 1)"
    using le by (intro round_pos_mono) (simp_all add: add_nonneg_pos)
  then have "2 ^ 256 / round_pos (of_nat T' + 1) \<le> 2 ^ 256 / round_pos (of_nat T + 1)"
    using round_succ_ge [of T] by (intro divide_left_mono) simp_all
  moreover have "0 < 2 ^ 256 / round_pos (of_nat T' + 1)" using round_succ_ge [of T'] by simp
  ultimately show ?thesis using False le by (simp add: work_value_def round_pos_mono)
qed

lemma work_value_ge_1: "T < 2 ^ 256 \<Longrightarrow> 1 \<le> work_value T"
proof (cases "T = 0")
  case False
  assume "T < 2 ^ 256"
  then have "1 \<le> 2 ^ 256 / round_pos (of_nat T + 1)"
    using round_succ_ge [of T] round_succ_le [of T] by (simp add: pos_le_divide_eq)
  then show ?thesis using False by (simp add: work_value_def round_pos_ge f64_rep_1)
qed (simp add: work_value_def)

subsection \<open>Properties\<close>

text \<open>Expanding the compact form of an expanded target gives the target back.\<close>

theorem expand_compact_expand:
  "expand_target (compact_from_target (expand_target bits)) = expand_target bits"
  using recompact_expand [of bits] by (intro hash_value_inj) simp_all

text \<open>C24: away from the ceiling a retarget moves the target by at most a factor of four in
  either direction (up to the truncation of the compact form), upwards after a slow interval
  and downwards after a fast one.\<close>

theorem retarget_bounds:
  assumes "0 < e" "e < 2 ^ 63" "- (2 ^ 63) \<le> a" "a < 2 ^ 63" and "4 * target_value bits < 2 ^ 256"
  shows "target_value (retarget bits a e) \<le> 4 * target_value bits \<and>
    target_value bits div 4 * 65535 \<le> target_value (retarget bits a e) * 65536 \<and>
    (e \<le> a \<longrightarrow> target_value bits \<le> target_value (retarget bits a e)) \<and>
    (a \<le> e \<longrightarrow> target_value (retarget bits a e) \<le> target_value bits)"
proof -
  obtain v where v: "target_value (retarget bits a e) \<le> v" "v * 65535 \<le> target_value (retarget bits a e) * 65536"
    "\<And>t. short24 t \<Longrightarrow> t \<le> v \<Longrightarrow> t \<le> target_value (retarget bits a e)"
    "v \<le> 4 * target_value bits" "a \<le> e \<Longrightarrow> v \<le> target_value bits"
    "4 * target_value bits < 2 ^ 256 \<or> a \<le> e \<Longrightarrow> target_value bits div 4 \<le> v"
    "4 * target_value bits < 2 ^ 256 \<Longrightarrow> e \<le> a \<Longrightarrow> target_value bits \<le> v"
    using retarget_bounds_aux [OF assms(1-4), of bits] by metis
  have "target_value bits div 4 * 65535 \<le> v * 65535" using v(6) assms(5) by (intro mult_right_mono) simp_all
  then show ?thesis using v assms(5) short24_expand [of bits] by auto
qed

lemma retarget_bounds_witness:
  "target_value (retarget 0x1effffff 600 300) \<le> 4 * target_value 0x1effffff"
proof -
  have "4 * target_value 0x1effffff < 2 ^ 256"
    using expand_large [of "0x1effffff"] by (simp add: expo_def mant_def)
  from retarget_bounds [OF _ _ _ _ this, of 300 600] show ?thesis by simp
qed

text \<open>C28: near the ceiling, a retarget after an interval four times too long does not ease the
  target but yields the all-zero one, which no digest but zero meets.\<close>

theorem retarget_ceiling:
  assumes "0 < e" and "e < 2 ^ 51" and "4 * e \<le> a" and "a < 2 ^ 63" and "2 ^ 256 \<le> 4 * target_value bits"
  shows "target_value (retarget bits a e) = 0 \<and>
    (\<forall>h. wf_hash h \<longrightarrow> meets_target h (expand_target (retarget bits a e)) \<longrightarrow> h = ZERO)"
proof -
  have "f64_rep (of_int e)" using f64_repI [of e 0] assms(1,2) by simp
  moreover have "e < 2 ^ 63" "- (2 ^ 63) \<le> a" using assms by simp_all
  ultimately have T: "target_value (retarget bits a e) = 0"
    using retarget_bounds_aux [of e a bits] assms by (metis le_zero_eq)
  moreover have "h = ZERO" if "wf_hash h" "meets_target h (expand_target (retarget bits a e))" for h
  proof -
    have "hash_value h = 0" using that T by (simp add: meets_target_def hash_le_iff)
    then show ?thesis using that(1) by (intro hash_value_inj) simp_all
  qed
  ultimately show ?thesis by blast
qed

lemma retarget_ceiling_witness: "target_value (retarget 0x20ffffc0 345600 86400) = 0"
proof -
  have "2 ^ 256 \<le> 4 * target_value 0x20ffffc0"
    using expand_large [of "0x20ffffc0"] by (simp add: expo_def mant_def)
  from retarget_ceiling [OF _ _ _ _ this, of 86400 345600] show ?thesis by simp
qed

text \<open>A smaller target stands for at least as much work, and every block counts for at
  least one unit.\<close>

theorem work_of_antitone:
  "f64_le (Fin 1) (work_of bits) \<and>
   (\<forall>bits'. target_value bits \<le> target_value bits' \<longrightarrow> f64_le (work_of bits') (work_of bits))"
  using work_value_antimono work_value_ge_1 target_value_bound by (simp add: work_of_value)

lemma work_of_antitone_witness: "f64_le (work_of 0x1effffff) (work_of 0x1dffffff)"
proof -
  have "target_value 0x1dffffff \<le> target_value 0x1effffff"
    using expand_large [of "0x1effffff"] expand_large [of "0x1dffffff"] by (simp add: expo_def mant_def)
  with work_of_antitone [of "0x1dffffff"] show ?thesis by blast
qed

end
