(* ===== verification/Block.thy ===== *)
theory Block
  imports Transaction Difficulty "HOL-Library.Multiset"
begin

text \<open>
  \<^verbatim>\<open>packages/ledger-core/src/block.rs\<close>: block headers, the bytes that are hashed, the
  commitment to a block's transactions and the genesis block.
\<close>

definition MAX_TXS_PER_BLOCK :: nat where
  "MAX_TXS_PER_BLOCK = 64"

definition MAX_BLOCK_BYTES :: nat where
  "MAX_BLOCK_BYTES = 16 * 1024"

definition GENESIS_TIMESTAMP :: nat where
  "GENESIS_TIMESTAMP = 1750000000"

record BlockHeader =
  version :: byte
  height :: nat
  prev_hash :: Hash32
  timestamp :: nat
  tx_commitment :: Hash32
  difficulty_target :: CompactTarget
  nonce :: nat
  miner_public_key :: bytes

definition header_canonical_bytes :: "BlockHeader \<Rightarrow> bytes" where
  "header_canonical_bytes hdr =
     [version hdr] @ le_bytes 8 (height hdr) @ hash_bytes (prev_hash hdr) @ le_bytes 8 (timestamp hdr) @
     hash_bytes (tx_commitment hdr) @ le_bytes 4 (unat (difficulty_target hdr)) @
     le_bytes 8 (nonce hdr) @ miner_public_key hdr"

definition header_hash :: "Primitives \<Rightarrow> BlockHeader \<Rightarrow> Hash32" where
  "header_hash P hdr = hash_of (sha256 P) (header_canonical_bytes hdr)"

record Block =
  header :: BlockHeader
  transactions :: "Transaction list"

definition block_hash :: "Primitives \<Rightarrow> Block \<Rightarrow> Hash32" where
  "block_hash P b = header_hash P (header b)"

definition compute_tx_commitment :: "Primitives \<Rightarrow> Transaction list \<Rightarrow> Hash32" where
  "compute_tx_commitment P txs =
     (let ids = sort (map (tx_id P) txs) in hash_of (sha256 P) (concat (map hash_bytes ids)))"

definition approx_size_bytes :: "Block \<Rightarrow> nat" where
  "approx_size_bytes b =
     length (header_canonical_bytes (header b)) +
     sum_list (map (\<lambda>tx. length (tx_canonical_bytes tx)) (transactions b))"

definition genesis :: "Primitives \<Rightarrow> Block" where
  "genesis P = \<lparr> header = \<lparr> version = 1, height = 0, prev_hash = ZERO, timestamp = GENESIS_TIMESTAMP,
       tx_commitment = compute_tx_commitment P [], difficulty_target = INITIAL_DIFFICULTY_BITS,
       nonce = 0, miner_public_key = replicate 32 0 \<rparr>, transactions = [] \<rparr>"

subsection \<open>Headers\<close>

definition wf_header :: "BlockHeader \<Rightarrow> bool" where
  "wf_header hdr \<longleftrightarrow> height hdr < 2 ^ 64 \<and> wf_hash (prev_hash hdr) \<and> timestamp hdr < 2 ^ 64 \<and>
     wf_hash (tx_commitment hdr) \<and> nonce hdr < 2 ^ 64 \<and> length (miner_public_key hdr) = 32"

lemma length_header_canonical_bytes:
  "wf_header hdr \<Longrightarrow> length (header_canonical_bytes hdr) = 125"
  by (simp add: wf_header_def wf_hash_def header_canonical_bytes_def del: le_bytes_numeral)

lemma header_canonical_bytes_inj:
  assumes "wf_header a" and "wf_header b" and "header_canonical_bytes a = header_canonical_bytes b"
  shows "a = b"
proof -
  note eq = assms(3) [unfolded header_canonical_bytes_def]
  have parts: "version a = version b" "le_bytes 8 (height a) = le_bytes 8 (height b)"
    "hash_bytes (prev_hash a) = hash_bytes (prev_hash b)" "le_bytes 8 (timestamp a) = le_bytes 8 (timestamp b)"
    "hash_bytes (tx_commitment a) = hash_bytes (tx_commitment b)"
    "le_bytes 4 (unat (difficulty_target a)) = le_bytes 4 (unat (difficulty_target b))"
    "le_bytes 8 (nonce a) = le_bytes 8 (nonce b)" "miner_public_key a = miner_public_key b"
    using eq assms(1,2)
    by (simp_all add: append_eq_append_conv wf_header_def wf_hash_def del: le_bytes_numeral)
  have u: "unat (difficulty_target c) < 256 ^ 4" for c :: BlockHeader
    using unsigned_less [of "difficulty_target c"] by simp
  have "height a = height b" "timestamp a = timestamp b" "nonce a = nonce b"
    using le_bytes_inj [OF parts(2)] le_bytes_inj [OF parts(4)] le_bytes_inj [OF parts(7)] assms(1,2)
    by (simp_all add: wf_header_def)
  moreover have "difficulty_target a = difficulty_target b"
    using le_bytes_inj [OF parts(6) u u] by (rule unsigned_word_eqI)
  ultimately show ?thesis using parts by (simp add: Hash32.expand)
qed

lemma wf_compute_tx_commitment: "digest32 (sha256 P) \<Longrightarrow> wf_hash (compute_tx_commitment P txs)"
  by (simp add: compute_tx_commitment_def Let_def wf_hash_of)

lemma toy_digest32: "digest32 (sha256 toy)"
  by (simp add: digest32_def)

subsection \<open>Properties\<close>

text \<open>The commitment of a block does not depend on the order of its transactions.\<close>

theorem tx_commitment_order_independent:
  "mset txs = mset txs' \<Longrightarrow> compute_tx_commitment P txs = compute_tx_commitment P txs'"
proof -
  assume "mset txs = mset txs'"
  then have "mset (map (tx_id P) txs) = mset (map (tx_id P) txs')" by simp
  then have "sort (map (tx_id P) txs) = sort (map (tx_id P) txs')" by (simp add: properties_for_sort)
  then show ?thesis by (simp only: compute_tx_commitment_def)
qed

lemma tx_commitment_order_independent_witness:
  "let a = \<lparr>tx_version = 1, username = [97], owner_public_key = [], claimed_at_height_hint = 0,
     anchor_block_hash = ZERO, tx_nonce = [], signature = []\<rparr>; b = a\<lparr>username := [98]\<rparr> in
   compute_tx_commitment toy [a, b] = compute_tx_commitment toy [b, a]"
  unfolding Let_def by (rule tx_commitment_order_independent) simp

text \<open>Two headers are hashed from the same bytes only if they agree in every field.\<close>

theorem header_bytes_binding:
  "wf_header a \<Longrightarrow> wf_header b \<Longrightarrow> header_canonical_bytes a = header_canonical_bytes b \<longleftrightarrow> a = b"
  using header_canonical_bytes_inj by blast

lemma header_bytes_binding_witness:
  "let a = header (genesis toy) in header_canonical_bytes a \<noteq> header_canonical_bytes (a\<lparr>nonce := 1\<rparr>)"
proof -
  have wf: "wf_header (header (genesis toy))" "wf_header ((header (genesis toy))\<lparr>nonce := 1\<rparr>)"
    by (simp_all add: wf_header_def genesis_def GENESIS_TIMESTAMP_def wf_compute_tx_commitment toy_digest32)
  have "header (genesis toy) \<noteq> (header (genesis toy))\<lparr>nonce := 1\<rparr>" by (simp add: genesis_def)
  with header_bytes_binding [OF wf] show ?thesis by (simp add: Let_def)
qed

end
