(* ===== verification/Chain_State.thy ===== *)
theory Chain_State
  imports Block
begin

text \<open>
  \<^verbatim>\<open>packages/ledger-core/src/chain_state.rs\<close>: the in-memory chain and everything that reads it.
  The operations that change it, and the rules a block must satisfy, are in \<open>Validation\<close> and
  \<open>Chain_Apply\<close>.

  The loop of \<open>ancestors\<close> follows parent hashes until it meets the floor, and nothing in the loop
  itself bounds it; it is a partial function whose value \<^term>\<open>None\<close> means that it does not end.
\<close>

definition MEDIAN_TIME_PAST_WINDOW :: nat where
  "MEDIAN_TIME_PAST_WINDOW = 11"

record BlockMeta =
  m_height :: nat
  m_prev_hash :: Hash32
  m_timestamp :: nat
  m_difficulty_target :: CompactTarget
  m_cumulative_work :: f64

record UsernameOwner =
  o_public_key :: bytes
  o_claimed_at_height :: nat
  o_claimed_in_block :: Hash32

type_synonym Owners = "bytes \<rightharpoonup> UsernameOwner"

record Checkpoint =
  cp_height :: nat
  cp_hash :: Hash32
  cp_timestamp :: nat
  cp_difficulty_target :: CompactTarget
  cp_cumulative_work :: f64
  cp_username_owner :: Owners

datatype ApplyOutcome = AlreadyKnown | ExtendedTip | AddedToFork | ReorgedTo nat

record Chain =
  blocks :: "Hash32 \<rightharpoonup> Block"
  meta :: "Hash32 \<rightharpoonup> BlockMeta"
  tip_hash :: Hash32
  canonical_index :: "nat \<rightharpoonup> Hash32"
  username_owner :: Owners
  floor_hash :: Hash32
  floor_height :: nat
  floor_username_owner :: Owners

definition new_chain :: "Primitives \<Rightarrow> Chain" where
  "new_chain P = (let g = genesis P; hash = block_hash P g in
     \<lparr> blocks = [hash \<mapsto> g],
       meta = [hash \<mapsto> \<lparr> m_height = 0, m_prev_hash = ZERO, m_timestamp = GENESIS_TIMESTAMP,
                 m_difficulty_target = INITIAL_DIFFICULTY_BITS, m_cumulative_work = Fin 0 \<rparr>],
       tip_hash = hash, canonical_index = [0 \<mapsto> hash], username_owner = Map.empty,
       floor_hash = hash, floor_height = 0, floor_username_owner = Map.empty \<rparr>)"

definition from_checkpoint :: "Checkpoint \<Rightarrow> Chain" where
  "from_checkpoint cp =
     \<lparr> blocks = Map.empty,
       meta = [cp_hash cp \<mapsto> \<lparr> m_height = cp_height cp, m_prev_hash = ZERO,
                 m_timestamp = cp_timestamp cp, m_difficulty_target = cp_difficulty_target cp,
                 m_cumulative_work = cp_cumulative_work cp \<rparr>],
       tip_hash = cp_hash cp, canonical_index = [cp_height cp \<mapsto> cp_hash cp],
       username_owner = cp_username_owner cp,
       floor_hash = cp_hash cp, floor_height = cp_height cp,
       floor_username_owner = cp_username_owner cp \<rparr>"

subsection \<open>Queries\<close>

definition tip_height :: "Chain \<Rightarrow> (LedgerError, nat) res" where
  "tip_height c = bind_res (expect (meta c (tip_hash c))) (\<lambda>m. Ok (m_height m))"

definition get_block :: "Chain \<Rightarrow> Hash32 \<Rightarrow> Block option" where
  "get_block c h = blocks c h"

definition get_meta :: "Chain \<Rightarrow> Hash32 \<Rightarrow> BlockMeta option" where
  "get_meta c h = meta c h"

definition canonical_block_at :: "Chain \<Rightarrow> nat \<Rightarrow> Block option" where
  "canonical_block_at c k = Option.bind (canonical_index c k) (blocks c)"

definition owner_of_username :: "Primitives \<Rightarrow> Chain \<Rightarrow> bytes \<Rightarrow> UsernameOwner option" where
  "owner_of_username P c name = username_owner c (normalize_username P name)"

definition checkpoint_at_tip :: "Chain \<Rightarrow> (LedgerError, Checkpoint) res" where
  "checkpoint_at_tip c = bind_res (expect (meta c (tip_hash c))) (\<lambda>m.
     Ok \<lparr> cp_height = m_height m, cp_hash = tip_hash c, cp_timestamp = m_timestamp m,
          cp_difficulty_target = m_difficulty_target m, cp_cumulative_work = m_cumulative_work m,
          cp_username_owner = username_owner c \<rparr>)"

partial_function (option) ancestors_loop ::
  "Chain \<Rightarrow> Hash32 \<Rightarrow> Hash32 list \<Rightarrow> (LedgerError, Hash32 list) res option" where
  "ancestors_loop c current path =
     (case meta c current of
        None \<Rightarrow> Some (Err (UnknownBlock current))
      | Some m \<Rightarrow>
          if current = floor_hash c then Some (Ok (rev (path @ [current])))
          else ancestors_loop c (m_prev_hash m) (path @ [current]))"

definition ancestors :: "Chain \<Rightarrow> Hash32 \<Rightarrow> (LedgerError, Hash32 list) res" where
  "ancestors c h = (case ancestors_loop c h [] of None \<Rightarrow> Diverge | Some r \<Rightarrow> r)"

definition apply_claims :: "Hash32 \<Rightarrow> Block \<Rightarrow> Owners \<Rightarrow> Owners" where
  "apply_claims h b st =
     foldl (\<lambda>st tx. st(username tx \<mapsto> \<lparr> o_public_key = owner_public_key tx,
                         o_claimed_at_height = height (header b), o_claimed_in_block = h \<rparr>))
       st (transactions b)"

fun replay :: "Chain \<Rightarrow> Hash32 list \<Rightarrow> Owners \<Rightarrow> (LedgerError, Owners) res" where
  "replay c [] st = Ok st"
| "replay c (a # as) st =
     (if a = floor_hash c then replay c as st
      else bind_res (ok_or (UnknownBlock a) (blocks c a)) (\<lambda>b. replay c as (apply_claims a b st)))"

definition state_at :: "Chain \<Rightarrow> Hash32 \<Rightarrow> (LedgerError, Owners) res" where
  "state_at c h = bind_res (ancestors c h) (\<lambda>as. replay c as (floor_username_owner c))"

definition meta_timestamp :: "Chain \<Rightarrow> Hash32 \<Rightarrow> (LedgerError, nat) res" where
  "meta_timestamp c h = bind_res (expect (meta c h)) (\<lambda>m. Ok (m_timestamp m))"

definition median_time_past :: "Chain \<Rightarrow> Hash32 \<Rightarrow> (LedgerError, nat) res" where
  "median_time_past c parent =
     bind_res (ancestors c parent) (\<lambda>ancestry.
       let window_start = length ancestry - MEDIAN_TIME_PAST_WINDOW in
       bind_res (map_res (meta_timestamp c) (drop window_start ancestry)) (\<lambda>timestamps.
         let sorted = sort timestamps; i = length sorted div 2 in
         if i < length sorted then Ok (sorted ! i) else Panic))"

definition expected_difficulty :: "Chain \<Rightarrow> Hash32 \<Rightarrow> (LedgerError, CompactTarget) res" where
  "expected_difficulty c parent =
     bind_res (ok_or (UnknownBlock parent) (meta c parent)) (\<lambda>pm.
       let new_height = u64_add (m_height pm) 1 in
       if new_height mod RETARGET_INTERVAL_BLOCKS \<noteq> 0 then Ok (m_difficulty_target pm)
       else
         let interval_start_height = u64_sub new_height RETARGET_INTERVAL_BLOCKS in
         bind_res (ancestors c parent) (\<lambda>ancestry.
           if interval_start_height < floor_height c then Err (UnknownBlock parent)
           else
             let idx = interval_start_height - floor_height c in
             if idx < length ancestry then
               bind_res (expect (meta c (ancestry ! idx))) (\<lambda>sm.
                 let actual_span = max (i64_sub (as_i64 (m_timestamp pm)) (as_i64 (m_timestamp sm))) 1;
                     expected_span = int RETARGET_INTERVAL_BLOCKS * TARGET_BLOCK_TIME_SECS in
                 Ok (retarget (m_difficulty_target pm) actual_span expected_span))
             else Panic))"

definition checkpoint_at :: "Chain \<Rightarrow> nat \<Rightarrow> (LedgerError, Checkpoint) res" where
  "checkpoint_at c k =
     bind_res (ok_or (HeightNotFound k) (canonical_index c k)) (\<lambda>h.
     bind_res (ok_or (UnknownBlock h) (meta c h)) (\<lambda>m.
     bind_res (state_at c h) (\<lambda>owners.
       Ok \<lparr> cp_height = m_height m, cp_hash = h, cp_timestamp = m_timestamp m,
            cp_difficulty_target = m_difficulty_target m, cp_cumulative_work = m_cumulative_work m,
            cp_username_owner = owners \<rparr>)))"

subsection \<open>The ancestor walk\<close>

fun append_path :: "Hash32 list \<Rightarrow> (LedgerError, Hash32 list) res \<Rightarrow> (LedgerError, Hash32 list) res" where
  "append_path q (Ok as) = Ok (as @ rev q)"
| "append_path q r = r"

lemmas ancestors_loop_induct = ancestors_loop.raw_induct [rotated, consumes 1, case_names step]

lemma ancestors_loop_extend:
  "ancestors_loop c h path = Some r \<Longrightarrow> \<forall>q. ancestors_loop c h (q @ path) = Some (append_path q r)"
proof (induction rule: ancestors_loop_induct)
  case (step loop c h path r)
  show ?case
  proof (cases "meta c h = None \<or> h = floor_hash c")
    case True
    with step(2) show ?thesis by (auto simp: ancestors_loop.simps [of c h] split: option.splits)
  next
    case False
    then obtain m where m: "meta c h = Some m" and ne: "h \<noteq> floor_hash c" by auto
    with step(2) have "loop c (m_prev_hash m) (path @ [h]) = Some r" by simp
    from step(1) [OF this] m ne show ?thesis by (simp add: ancestors_loop.simps [of c h])
  qed
qed

lemma ancestors_loop_shrink:
  "ancestors_loop c h path' = Some r \<Longrightarrow>
    \<forall>q path. path' = q @ path \<longrightarrow> (\<exists>r0. ancestors_loop c h path = Some r0)"
proof (induction rule: ancestors_loop_induct)
  case (step loop c h path' r)
  show ?case
  proof (cases "meta c h = None \<or> h = floor_hash c")
    case True
    then show ?thesis by (auto simp: ancestors_loop.simps [of c h] split: option.splits)
  next
    case False
    then obtain m where m: "meta c h = Some m" and ne: "h \<noteq> floor_hash c" by auto
    with step(2) have "loop c (m_prev_hash m) (path' @ [h]) = Some r" by simp
    from step(1) [OF this] m ne show ?thesis by (simp add: ancestors_loop.simps [of c h])
  qed
qed

lemma ancestors_loop_acc:
  "ancestors_loop c h q = map_option (append_path q) (ancestors_loop c h [])"
proof (cases "ancestors_loop c h []")
  case None
  have "ancestors_loop c h q = None"
  proof (rule ccontr)
    assume "ancestors_loop c h q \<noteq> None"
    then obtain r where "ancestors_loop c h q = Some r" by auto
    from ancestors_loop_shrink [OF this] have "\<exists>r0. ancestors_loop c h [] = Some r0" by simp
    with None show False by simp
  qed
  with None show ?thesis by simp
next
  case (Some r)
  from ancestors_loop_extend [OF this] have "ancestors_loop c h (q @ []) = Some (append_path q r)" by blast
  with Some show ?thesis by simp
qed

lemma ancestors_step:
  "ancestors c h =
     (case meta c h of
        None \<Rightarrow> Err (UnknownBlock h)
      | Some m \<Rightarrow> if h = floor_hash c then Ok [h]
                  else bind_res (ancestors c (m_prev_hash m)) (\<lambda>as. Ok (as @ [h])))"
proof (cases "meta c h")
  case None
  then show ?thesis by (simp add: ancestors_def ancestors_loop.simps [of c h])
next
  case (Some m)
  show ?thesis
  proof (cases "h = floor_hash c")
    case True
    have "ancestors_loop c h [] = Some (Ok [h])" using Some True by (subst ancestors_loop.simps) simp
    with Some True show ?thesis by (simp add: ancestors_def)
  next
    case False
    then have "ancestors_loop c h [] = ancestors_loop c (m_prev_hash m) [h]"
      using Some by (simp add: ancestors_loop.simps [of c h])
    also have "\<dots> = map_option (append_path [h]) (ancestors_loop c (m_prev_hash m) [])"
      by (rule ancestors_loop_acc)
    finally have loop: "ancestors_loop c h [] = map_option (append_path [h]) (ancestors_loop c (m_prev_hash m) [])" .
    show ?thesis
    proof (cases "ancestors_loop c (m_prev_hash m) []")
      case None
      with loop Some False show ?thesis by (simp add: ancestors_def)
    next
      case (Some r)
      with loop \<open>meta c h = Some m\<close> False show ?thesis by (cases r) (simp_all add: ancestors_def)
    qed
  qed
qed

lemma ancestors_floor: "floor_hash c \<in> dom (meta c) \<Longrightarrow> ancestors c (floor_hash c) = Ok [floor_hash c]"
  by (subst ancestors_step) auto

lemma ancestors_cong:
  assumes "meta c' = meta c" and "floor_hash c' = floor_hash c"
  shows "ancestors c' h = ancestors c h"
proof -
  have ext: "ancestors_loop d h path = Some r \<Longrightarrow>
      \<forall>d'. meta d' = meta d \<longrightarrow> floor_hash d' = floor_hash d \<longrightarrow> ancestors_loop d' h path = Some r" for d h path r
  proof (induction rule: ancestors_loop_induct)
    case (step loop d h path r)
    show ?case
    proof (cases "meta d h = None \<or> h = floor_hash d")
      case True
      with step(2) show ?thesis by (auto simp: ancestors_loop.simps [of _ h] split: option.splits)
    next
      case False
      then obtain m where m: "meta d h = Some m" and ne: "h \<noteq> floor_hash d" by auto
      with step(2) have "loop d (m_prev_hash m) (path @ [h]) = Some r" by simp
      from step(1) [OF this] m ne show ?thesis by (simp add: ancestors_loop.simps [of _ h])
    qed
  qed
  have "ancestors_loop c h [] = Some r \<longleftrightarrow> ancestors_loop c' h [] = Some r" for r
    using ext [of c h "[]" r] ext [of c' h "[]" r] assms by metis
  then have "ancestors_loop c' h [] = ancestors_loop c h []" by (metis not_Some_eq)
  then show ?thesis by (simp add: ancestors_def)
qed

text \<open>Every block other than a root of height minimal has a known parent one below it; a root's
  parent hash is zero, which no block has.\<close>

definition linked :: "Chain \<Rightarrow> bool" where
  "linked c \<longleftrightarrow> meta c ZERO = None \<and>
     (\<forall>h m. meta c h = Some m \<longrightarrow> m_prev_hash m = ZERO \<or>
        (\<exists>pm. meta c (m_prev_hash m) = Some pm \<and> m_height m = Suc (m_height pm)))"

lemma linked_parent:
  "linked c \<Longrightarrow> meta c h = Some m \<Longrightarrow> m_prev_hash m = ZERO \<or>
    (\<exists>pm. meta c (m_prev_hash m) = Some pm \<and> m_height m = Suc (m_height pm))"
  by (simp add: linked_def)

lemma ancestors_ZERO: "linked c \<Longrightarrow> ancestors c ZERO = Err (UnknownBlock ZERO)"
  by (subst ancestors_step) (simp add: linked_def)

text \<open>Induction along the parent links.\<close>

lemma chain_induct [consumes 2, case_names root child]:
  assumes "linked c" and "meta c h = Some m"
    and root: "\<And>h m. meta c h = Some m \<Longrightarrow> m_prev_hash m = ZERO \<Longrightarrow> Q h m"
    and child: "\<And>h m pm. meta c h = Some m \<Longrightarrow> meta c (m_prev_hash m) = Some pm \<Longrightarrow>
      m_height m = Suc (m_height pm) \<Longrightarrow> Q (m_prev_hash m) pm \<Longrightarrow> Q h m"
  shows "Q h m"
  using assms(2)
proof (induction "m_height m" arbitrary: h m rule: less_induct)
  case less
  from linked_parent [OF assms(1) less.prems] show ?case
    using root [OF less.prems] child [OF less.prems] less.hyps by fastforce
qed

lemma returns_ancestors:
  assumes "linked c"
  shows "returns (ancestors c h)"
proof (cases "meta c h")
  case None
  then show ?thesis by (subst ancestors_step) simp
next
  case (Some m)
  with assms show ?thesis
  proof (induction rule: chain_induct)
    case (root h m)
    then show ?case by (subst ancestors_step) (simp add: ancestors_ZERO [OF assms])
  next
    case (child h m pm)
    then show ?case by (subst ancestors_step) (auto intro!: returns_bind)
  qed
qed

subsection \<open>Shape of an ancestry\<close>

lemma ancestors_child:
  "meta c h = Some m \<Longrightarrow> h \<noteq> floor_hash c \<Longrightarrow>
    ancestors c h = Ok p \<longleftrightarrow> (\<exists>p0. ancestors c (m_prev_hash m) = Ok p0 \<and> p = p0 @ [h])"
  by (subst ancestors_step) (auto simp: bind_res_Ok)

lemma ancestors_Ok_known: "ancestors c h = Ok p \<Longrightarrow> \<exists>m. meta c h = Some m"
  by (subst (asm) ancestors_step) (auto split: option.splits)

text \<open>The path runs from the floor to the block, one height at a time.\<close>

definition floored :: "Chain \<Rightarrow> bool" where
  "floored c \<longleftrightarrow> (\<exists>m. meta c (floor_hash c) = Some m \<and> m_height m = floor_height c)"

lemma ancestors_shape:
  assumes "linked c" and "floored c" and "meta c h = Some m" and "ancestors c h = Ok p"
  shows "m_height m + 1 = floor_height c + length p \<and> p \<noteq> [] \<and> hd p = floor_hash c \<and> last p = h \<and>
    (\<forall>i < length p. \<exists>mi. meta c (p ! i) = Some mi \<and> m_height mi = floor_height c + i)"
  using assms(1,3,4)
proof (induction arbitrary: p rule: chain_induct)
  case (root h m)
  then show ?case
    using assms(2) ancestors_child [OF root(1)] ancestors_ZERO [OF assms(1)]
    by (cases "h = floor_hash c") (auto simp: ancestors_floor domI floored_def)
next
  case (child h m pm)
  show ?case
  proof (cases "h = floor_hash c")
    case True
    then show ?thesis using child assms(2) by (auto simp: ancestors_floor domI floored_def)
  next
    case False
    then obtain p0 where p: "p = p0 @ [h]" and p0: "ancestors c (m_prev_hash m) = Ok p0"
      using child ancestors_child by blast
    note IH = child.IH [OF p0]
    show ?thesis using IH child.hyps by (auto simp: p nth_append less_Suc_eq)
  qed
qed

lemma ancestors_nth_prefix:
  assumes "linked c" and "floored c" and "ancestors c h = Ok p" and "i < length p"
  shows "ancestors c (p ! i) = Ok (take (Suc i) p)"
proof -
  obtain m where "meta c h = Some m" using ancestors_Ok_known [OF assms(3)] by blast
  with assms(1) show ?thesis using assms(3,4)
  proof (induction arbitrary: p rule: chain_induct)
    case (root h m)
    then show ?case
      using assms(2) ancestors_child [OF root(1)] ancestors_ZERO [OF assms(1)]
      by (cases "h = floor_hash c") (auto simp: ancestors_floor domI floored_def)
  next
    case (child h m pm)
    show ?case
    proof (cases "h = floor_hash c")
      case True
      then show ?thesis using child assms(2) by (auto simp: ancestors_floor domI floored_def)
    next
      case False
      then obtain p0 where p: "p = p0 @ [h]" and p0: "ancestors c (m_prev_hash m) = Ok p0"
        using child ancestors_child by blast
      show ?thesis
      proof (cases "i < length p0")
        case True
        with child.IH [OF p0 True] show ?thesis by (simp add: p nth_append)
      next
        case False
        with child.prems(2) have "i = length p0" by (simp add: p)
        then show ?thesis using child.prems(1) by (simp add: p)
      qed
    qed
  qed
qed

lemma ancestors_distinct:
  assumes "linked c" and "floored c" and "ancestors c h = Ok p"
  shows "distinct p"
proof -
  obtain m where m: "meta c h = Some m" using ancestors_Ok_known [OF assms(3)] by blast
  note sh = ancestors_shape [OF assms(1,2) m assms(3)]
  show ?thesis
  proof (unfold distinct_conv_nth, intro allI impI)
    fix i j assume "i < length p" "j < length p" "i \<noteq> j"
    then show "p ! i \<noteq> p ! j" using sh by (metis add_left_cancel option.inject)
  qed
qed

lemma ancestors_set_known:
  assumes "linked c" and "floored c" and "ancestors c h = Ok p" and "a \<in> set p"
  shows "\<exists>m. meta c a = Some m \<and> floor_height c \<le> m_height m \<and> (a \<noteq> floor_hash c \<longrightarrow> floor_height c < m_height m)"
proof -
  obtain m where m: "meta c h = Some m" using ancestors_Ok_known [OF assms(3)] by blast
  note sh = ancestors_shape [OF assms(1,2) m assms(3)]
  obtain i where i: "i < length p" "p ! i = a" using assms(4) by (metis in_set_conv_nth)
  then obtain mi where mi: "meta c a = Some mi" "m_height mi = floor_height c + i" using sh by blast
  have "a \<noteq> floor_hash c \<Longrightarrow> i \<noteq> 0" using i sh by (metis hd_conv_nth)
  with mi show ?thesis by auto
qed

subsection \<open>Materialized states\<close>

lemma replay_append: "replay c (as @ bs) st = bind_res (replay c as st) (replay c bs)"
proof (induction as arbitrary: st)
  case (Cons a as)
  then show ?case by (cases "blocks c a") auto
qed simp

lemma state_at_floor:
  "floored c \<Longrightarrow> state_at c (floor_hash c) = Ok (floor_username_owner c)"
  by (auto simp: state_at_def ancestors_floor domI floored_def)

lemma state_at_child:
  assumes "meta c h = Some m" and "h \<noteq> floor_hash c" and "ancestors c (m_prev_hash m) = Ok p0"
  shows "state_at c h = bind_res (state_at c (m_prev_hash m)) (\<lambda>st.
    bind_res (ok_or (UnknownBlock h) (blocks c h)) (\<lambda>b. Ok (apply_claims h b st)))"
proof -
  have "ancestors c h = Ok (p0 @ [h])" using assms ancestors_child by blast
  moreover have "replay c [h] = (\<lambda>st. bind_res (ok_or (UnknownBlock h) (blocks c h)) (\<lambda>b. Ok (apply_claims h b st)))"
    using assms(2) by auto
  ultimately show ?thesis using assms(3) by (simp only: state_at_def bind_res.simps replay_append)
qed

definition owner_entry :: "Hash32 \<Rightarrow> Block \<Rightarrow> Transaction \<Rightarrow> UsernameOwner" where
  "owner_entry h b tx = \<lparr> o_public_key = owner_public_key tx,
     o_claimed_at_height = height (header b), o_claimed_in_block = h \<rparr>"

definition names :: "Block \<Rightarrow> bytes list" where
  "names b = map username (transactions b)"

lemma foldl_upd_other:
  "u \<notin> set (map username txs) \<Longrightarrow> foldl (\<lambda>st tx. st(username tx \<mapsto> f tx)) st txs u = st u"
  by (induction txs arbitrary: st) auto

lemma foldl_upd_dom: "dom (foldl (\<lambda>st tx. st(username tx \<mapsto> f tx)) st txs) = dom st \<union> set (map username txs)"
  by (induction txs arbitrary: st) auto

lemma foldl_upd_found:
  "u \<in> set (map username txs) \<Longrightarrow> \<exists>tx \<in> set txs. username tx = u \<and>
     foldl (\<lambda>st tx. st(username tx \<mapsto> f tx)) st txs u = Some (f tx)"
proof (induction txs arbitrary: st)
  case (Cons tx txs)
  show ?case
  proof (cases "u \<in> set (map username txs)")
    case True
    with Cons.IH [OF True] show ?thesis by auto
  next
    case False
    with Cons.prems have "username tx = u" by auto
    moreover have "foldl (\<lambda>st tx. st(username tx \<mapsto> f tx)) (st(username tx \<mapsto> f tx)) txs u = Some (f tx)"
      using foldl_upd_other [OF False, of f "st(username tx \<mapsto> f tx)"] \<open>username tx = u\<close> by simp
    ultimately show ?thesis by (simp only: foldl_Cons list.set) blast
  qed
qed simp

lemma apply_claims_eq: "apply_claims h b st = foldl (\<lambda>st tx. st(username tx \<mapsto> owner_entry h b tx)) st (transactions b)"
  by (simp add: apply_claims_def owner_entry_def)

lemma dom_apply_claims: "dom (apply_claims h b st) = dom st \<union> set (names b)"
  by (simp only: apply_claims_eq foldl_upd_dom names_def)

lemma apply_claims_other: "u \<notin> set (names b) \<Longrightarrow> apply_claims h b st u = st u"
  by (simp only: apply_claims_eq names_def) (rule foldl_upd_other)

lemma apply_claims_found:
  "u \<in> set (names b) \<Longrightarrow> \<exists>tx \<in> set (transactions b). username tx = u \<and> apply_claims h b st u = Some (owner_entry h b tx)"
  by (simp only: apply_claims_eq names_def) (rule foldl_upd_found)

lemma apply_claims_extends: "set (names b) \<inter> dom st = {} \<Longrightarrow> st \<subseteq>\<^sub>m apply_claims h b st"
  unfolding map_le_def by (auto intro!: apply_claims_other [symmetric])

subsection \<open>The invariant\<close>

definition matches :: "Block \<Rightarrow> BlockMeta \<Rightarrow> bool" where
  "matches b m \<longleftrightarrow> height (header b) = m_height m \<and> prev_hash (header b) = m_prev_hash m \<and>
     timestamp (header b) = m_timestamp m \<and> difficulty_target (header b) = m_difficulty_target m"

text \<open>What is known of an accepted block: proof of work under its own target (genesis is exempt)
  and claims that verify.\<close>

definition accepted :: "Primitives \<Rightarrow> Block \<Rightarrow> bool" where
  "accepted P b \<longleftrightarrow>
     (0 < height (header b) \<longrightarrow>
        meets_target (block_hash P b) (expand_target (difficulty_target (header b)))) \<and>
     (\<forall>tx \<in> set (transactions b). verify_self_contained P tx = Ok ())"

definition body_ok :: "Primitives \<Rightarrow> Chain \<Rightarrow> bool" where
  "body_ok P c \<longleftrightarrow>
     (\<forall>h b. blocks c h = Some b \<longrightarrow>
        block_hash P b = h \<and> accepted P b \<and> (\<exists>m. meta c h = Some m \<and> matches b m)) \<and>
     (\<forall>h m. meta c h = Some m \<longrightarrow> floor_height c < m_height m \<longrightarrow> blocks c h \<noteq> None)"

definition block_names :: "Chain \<Rightarrow> Hash32 \<Rightarrow> bytes list" where
  "block_names c a = (if a = floor_hash c then [] else case blocks c a of None \<Rightarrow> [] | Some b \<Rightarrow> names b)"

definition claims :: "Chain \<Rightarrow> Hash32 list \<Rightarrow> bytes list" where
  "claims c p = concat (map (block_names c) p)"

text \<open>No name is claimed twice on one branch.\<close>

definition fresh :: "Chain \<Rightarrow> bool" where
  "fresh c \<longleftrightarrow> (\<forall>h p. ancestors c h = Ok p \<longrightarrow>
     distinct (claims c p) \<and> set (claims c p) \<inter> dom (floor_username_owner c) = {})"

definition tip_ok :: "Chain \<Rightarrow> bool" where
  "tip_ok c \<longleftrightarrow> state_at c (tip_hash c) = Ok (username_owner c) \<and>
     (\<exists>p. ancestors c (tip_hash c) = Ok p \<and>
        (\<forall>k \<ge> floor_height c. canonical_index c k =
           (if k - floor_height c < length p then Some (p ! (k - floor_height c)) else None)))"

definition heaviest :: "Chain \<Rightarrow> bool" where
  "heaviest c \<longleftrightarrow> (\<exists>tm. meta c (tip_hash c) = Some tm \<and>
     (\<forall>h m. meta c h = Some m \<longrightarrow> f64_le (m_cumulative_work m) (m_cumulative_work tm)))"

definition chain_inv :: "Primitives \<Rightarrow> Chain \<Rightarrow> bool" where
  "chain_inv P c \<longleftrightarrow> linked c \<and> floored c \<and> body_ok P c \<and> fresh c \<and> tip_ok c \<and> heaviest c"

lemma claims_append [simp]: "claims c (p @ q) = claims c p @ claims c q"
  by (simp add: claims_def)

lemma claims_single [simp]: "claims c [a] = block_names c a"
  by (simp add: claims_def)

lemma body_ok_block:
  assumes "body_ok P c" and "linked c" and "floored c" and "ancestors c h = Ok p" and "h \<noteq> floor_hash c"
  obtains b where "blocks c h = Some b" and "block_hash P b = h" and "accepted P b"
proof -
  have "h \<in> set p"
    using assms(2-4) ancestors_shape ancestors_Ok_known by (metis last_in_set)
  then obtain m where "meta c h = Some m" "floor_height c < m_height m"
    using ancestors_set_known [OF assms(2-4)] assms(5) by blast
  then have "blocks c h \<noteq> None" using assms(1) by (simp only: body_ok_def) blast
  then obtain b where b: "blocks c h = Some b" by auto
  moreover have "block_hash P b = h" "accepted P b" using b assms(1) by (simp_all add: body_ok_def)
  ultimately show thesis by (rule that)
qed

text \<open>Reading the state of a block reachable from the floor succeeds and gives the floor's names
  and those claimed above it.\<close>

lemma state_at_total:
  assumes inv: "linked c" "floored c" "body_ok P c" and "ancestors c h = Ok p"
  shows "\<exists>st. state_at c h = Ok st \<and> dom st = dom (floor_username_owner c) \<union> set (claims c p)"
proof -
  obtain m where "meta c h = Some m" using ancestors_Ok_known [OF assms(4)] by blast
  with inv(1) show ?thesis using assms(4)
  proof (induction arbitrary: p rule: chain_induct)
    case (root h m)
    then have "h = floor_hash c"
      using ancestors_child [OF root(1)] ancestors_ZERO [OF inv(1)] by auto
    with root inv(2) show ?case
      by (auto simp: state_at_floor ancestors_floor floored_def domI block_names_def)
  next
    case (child h m pm)
    show ?case
    proof (cases "h = floor_hash c")
      case True
      with child.prems inv(2) show ?thesis
        by (auto simp: state_at_floor ancestors_floor floored_def domI block_names_def)
    next
      case False
      then obtain p0 where p: "p = p0 @ [h]" and p0: "ancestors c (m_prev_hash m) = Ok p0"
        using child ancestors_child by blast
      obtain st where st: "state_at c (m_prev_hash m) = Ok st"
        "dom st = dom (floor_username_owner c) \<union> set (claims c p0)" using child.IH [OF p0] by blast
      obtain b where "blocks c h = Some b" using body_ok_block [OF inv(3,1,2) child.prems False] by blast
      then show ?thesis using state_at_child [OF child.hyps(1) False p0] st False
        by (auto simp: p dom_apply_claims block_names_def)
    qed
  qed
qed

text \<open>A block's claims never touch a name its parent's state already has.\<close>

lemma state_at_extends:
  assumes inv: "linked c" "floored c" "body_ok P c" "fresh c"
    and h: "meta c h = Some m" "h \<noteq> floor_hash c" "ancestors c (m_prev_hash m) = Ok p0"
    and st: "state_at c (m_prev_hash m) = Ok st0" "state_at c h = Ok st"
  shows "st0 \<subseteq>\<^sub>m st"
proof -
  have p: "ancestors c h = Ok (p0 @ [h])" using h ancestors_child by blast
  obtain b where b: "blocks c h = Some b" using body_ok_block [OF inv(3,1,2) p h(2)] by blast
  have st_eq: "st = apply_claims h b st0" using state_at_child [OF h] st b by simp
  have "dom st0 = dom (floor_username_owner c) \<union> set (claims c p0)"
    using state_at_total [OF inv(1-3) h(3)] st(1) by auto
  moreover have "distinct (claims c (p0 @ [h]))"
    and "set (claims c (p0 @ [h])) \<inter> dom (floor_username_owner c) = {}"
    using inv(4) p unfolding fresh_def by blast+
  ultimately have "set (names b) \<inter> dom st0 = {}" using b h(2) by (auto simp: block_names_def)
  then show ?thesis unfolding st_eq by (rule apply_claims_extends)
qed

subsection \<open>Invariant of fresh chains\<close>

lemma new_chain_inv: "block_hash P (genesis P) \<noteq> ZERO \<Longrightarrow> chain_inv P (new_chain P)"
proof -
  assume nz: "block_hash P (genesis P) \<noteq> ZERO"
  let ?c = "new_chain P" and ?h = "block_hash P (genesis P)"
  have link: "linked ?c" using nz by (simp add: linked_def new_chain_def Let_def)
  have floor: "floored ?c" by (simp add: floored_def new_chain_def Let_def)
  have known: "ancestors ?c h = Ok p \<Longrightarrow> h = ?h" for h p
    using ancestors_Ok_known [of ?c h p] by (simp add: new_chain_def Let_def split: if_splits)
  have at: "floor_hash ?c = ?h" "tip_hash ?c = ?h" by (simp_all add: new_chain_def Let_def)
  then have anc: "ancestors ?c ?h = Ok [?h]"
    using ancestors_floor [of ?c] floor by (auto simp: floored_def domI)
  have "body_ok P ?c"
    by (auto simp: body_ok_def new_chain_def Let_def accepted_def matches_def genesis_def split: if_splits)
  moreover have "fresh ?c"
    using known anc at by (fastforce simp: fresh_def block_names_def)
  moreover have "tip_ok ?c"
    using anc at state_at_floor [OF floor] by (auto simp: tip_ok_def new_chain_def Let_def)
  moreover have "heaviest ?c" by (auto simp: heaviest_def new_chain_def Let_def)
  ultimately show ?thesis using link floor by (simp add: chain_inv_def)
qed

lemma from_checkpoint_inv:
  assumes "cp_hash cp \<noteq> ZERO" and "cp_cumulative_work cp \<noteq> NaN"
  shows "chain_inv P (from_checkpoint cp)"
proof -
  let ?c = "from_checkpoint cp" and ?h = "cp_hash cp"
  have link: "linked ?c" using assms(1) by (simp add: linked_def from_checkpoint_def)
  have floor: "floored ?c" by (simp add: floored_def from_checkpoint_def)
  have known: "ancestors ?c h = Ok p \<Longrightarrow> h = ?h" for h p
    using ancestors_Ok_known [of ?c h p] by (simp add: from_checkpoint_def split: if_splits)
  have at: "floor_hash ?c = ?h" "tip_hash ?c = ?h" by (simp_all add: from_checkpoint_def)
  then have anc: "ancestors ?c ?h = Ok [?h]"
    using ancestors_floor [of ?c] floor by (auto simp: floored_def domI)
  have "body_ok P ?c" by (auto simp: body_ok_def from_checkpoint_def split: if_splits)
  moreover have "fresh ?c" using known anc at by (fastforce simp: fresh_def block_names_def)
  moreover have "tip_ok ?c"
    using anc at state_at_floor [OF floor] by (auto simp: tip_ok_def from_checkpoint_def)
  moreover have "heaviest ?c"
    using assms(2) by (auto simp: heaviest_def from_checkpoint_def f64_le_refl)
  ultimately show ?thesis using link floor by (simp add: chain_inv_def)
qed

end
