(* ===== verification/Validation.thy ===== *)
theory Validation
  imports Chain_State
begin

text \<open>
  \<^verbatim>\<open>packages/ledger-core/src/validation.rs\<close>: every rule a block must satisfy, in the order the
  code checks them, and the mempool filter a miner uses.
\<close>

definition ANCHOR_MAX_AGE_BLOCKS :: nat where
  "ANCHOR_MAX_AGE_BLOCKS = 144"

definition MAX_FUTURE_DRIFT_SECS :: nat where
  "MAX_FUTURE_DRIFT_SECS = 2 * 60 * 60"

text \<open>The loop over a block's transactions.\<close>

fun check_claims ::
  "Primitives \<Rightarrow> Chain \<Rightarrow> nat \<Rightarrow> Owners \<Rightarrow> Hash32 set \<Rightarrow> bytes set \<Rightarrow> Transaction list \<Rightarrow>
   (LedgerError, unit) res" where
  "check_claims P c hgt parent_state ancestry claimed [] = Ok ()"
| "check_claims P c hgt parent_state ancestry claimed (tx # txs) =
     bind_res (verify_self_contained P tx) (\<lambda>_.
     bind_res (guard (anchor_block_hash tx \<in> ancestry) AnchorInvalid) (\<lambda>_.
     bind_res (ok_or AnchorInvalid (get_meta c (anchor_block_hash tx))) (\<lambda>am.
     bind_res (guard (hgt - m_height am \<le> ANCHOR_MAX_AGE_BLOCKS) AnchorInvalid) (\<lambda>_.
     bind_res (guard (parent_state (username tx) = None) (UsernameAlreadyClaimed (username tx))) (\<lambda>_.
     bind_res (guard (username tx \<notin> claimed) (DuplicateClaimInBlock (username tx))) (\<lambda>_.
       check_claims P c hgt parent_state ancestry (insert (username tx) claimed) txs))))))"

definition validate_transactions :: "Primitives \<Rightarrow> Chain \<Rightarrow> Block \<Rightarrow> (LedgerError, unit) res" where
  "validate_transactions P c b =
     (if transactions b = [] then Ok ()
      else
        bind_res (state_at c (prev_hash (header b))) (\<lambda>parent_state.
        bind_res (ancestors c (prev_hash (header b))) (\<lambda>ancestry.
          check_claims P c (height (header b)) parent_state (set ancestry) {} (transactions b))))"

definition validate_block :: "Primitives \<Rightarrow> Chain \<Rightarrow> Block \<Rightarrow> nat \<Rightarrow> (LedgerError, unit) res" where
  "validate_block P c b now =
     bind_res (guard (length (transactions b) \<le> MAX_TXS_PER_BLOCK)
        (TooManyTransactions (length (transactions b)) MAX_TXS_PER_BLOCK)) (\<lambda>_.
     bind_res (guard (approx_size_bytes b \<le> MAX_BLOCK_BYTES)
        (BlockTooLarge (approx_size_bytes b) MAX_BLOCK_BYTES)) (\<lambda>_.
     bind_res (guard (tx_commitment (header b) = compute_tx_commitment P (transactions b))
        TxCommitmentMismatch) (\<lambda>_.
     bind_res (ok_or (UnknownParent (prev_hash (header b))) (get_meta c (prev_hash (header b)))) (\<lambda>pm.
     bind_res (guard (height (header b) = u64_add (m_height pm) 1)
        (HeightMismatch (m_height pm) (height (header b)))) (\<lambda>_.
     bind_res (expected_difficulty c (prev_hash (header b))) (\<lambda>expected_target.
     bind_res (guard (difficulty_target (header b) = expected_target)
        (DifficultyMismatch (height (header b)))) (\<lambda>_.
     bind_res (guard (meets_target (block_hash P b) (expand_target expected_target))
        ProofOfWorkInvalid) (\<lambda>_.
     bind_res (median_time_past c (prev_hash (header b))) (\<lambda>mtp.
     bind_res (guard (mtp < timestamp (header b)) TimestampTooOld) (\<lambda>_.
     bind_res (guard (timestamp (header b) \<le> u64_add now MAX_FUTURE_DRIFT_SECS)
        TimestampTooFarInFuture) (\<lambda>_.
     validate_transactions P c b)))))))))))"

definition is_valid_for_mempool ::
  "Primitives \<Rightarrow> Chain \<Rightarrow> Transaction \<Rightarrow> nat \<Rightarrow> (LedgerError, bool) res" where
  "is_valid_for_mempool P c tx candidate_height =
     or_else_return (verify_self_contained P tx) False (\<lambda>_.
     or_else_return (ancestors c (tip_hash c)) False (\<lambda>ancestry.
       if anchor_block_hash tx \<notin> set ancestry then Ok False
       else case get_meta c (anchor_block_hash tx) of
         None \<Rightarrow> Ok False
       | Some am \<Rightarrow>
           if ANCHOR_MAX_AGE_BLOCKS < candidate_height - m_height am then Ok False
           else or_else_return (state_at c (tip_hash c)) False (\<lambda>st.
             Ok (st (username tx) = None))))"

subsection \<open>What a valid block satisfies\<close>

definition claim_ok ::
  "Primitives \<Rightarrow> Chain \<Rightarrow> nat \<Rightarrow> Owners \<Rightarrow> Hash32 set \<Rightarrow> Transaction \<Rightarrow> bool" where
  "claim_ok P c hgt ps anc tx \<longleftrightarrow>
     verify_self_contained P tx = Ok () \<and> anchor_block_hash tx \<in> anc \<and>
     (\<exists>am. meta c (anchor_block_hash tx) = Some am \<and> hgt - m_height am \<le> ANCHOR_MAX_AGE_BLOCKS) \<and>
     ps (username tx) = None"

lemma check_claims_Cons:
  "check_claims P c hgt ps anc claimed (tx # txs) = Ok () \<longleftrightarrow>
     claim_ok P c hgt ps anc tx \<and> username tx \<notin> claimed \<and>
     check_claims P c hgt ps anc (insert (username tx) claimed) txs = Ok ()"
  by (auto simp: bind_res_Ok get_meta_def claim_ok_def)

lemma check_claims_Ok:
  "check_claims P c hgt ps anc claimed txs = Ok () \<longleftrightarrow>
     (\<forall>tx \<in> set txs. claim_ok P c hgt ps anc tx \<and> username tx \<notin> claimed) \<and> distinct (map username txs)"
proof (induction txs arbitrary: claimed)
  case (Cons tx txs)
  show ?case unfolding check_claims_Cons Cons.IH by (auto simp: image_iff)
qed simp

lemma returns_check_claims: "returns (check_claims P c hgt ps anc claimed txs)"
  by (induction txs arbitrary: claimed) (auto intro!: returns_bind)

definition heights_ok :: "Chain \<Rightarrow> bool" where
  "heights_ok c \<longleftrightarrow> (\<forall>h m. meta c h = Some m \<longrightarrow> m_height m < 2 ^ 64 - 1)"

lemma median_time_past_total:
  assumes "linked c" "floored c" "ancestors c h = Ok p"
  shows "\<exists>t. median_time_past c h = Ok t"
proof -
  let ?w = "drop (length p - MEDIAN_TIME_PAST_WINDOW) p"
  obtain m where "meta c h = Some m" using ancestors_Ok_known [OF assms(3)] by blast
  then have "p \<noteq> []" using ancestors_shape [OF assms(1,2) _ assms(3)] by blast
  then have w: "0 < length ?w" by (cases p) (auto simp: MEDIAN_TIME_PAST_WINDOW_def)
  have "map_res (meta_timestamp c) ?w = Ok (map (\<lambda>a. m_timestamp (the (meta c a))) ?w)"
  proof (rule map_res_Ok)
    fix a assume "a \<in> set ?w"
    then obtain m where "meta c a = Some m" using ancestors_set_known [OF assms] in_set_dropD by metis
    then show "meta_timestamp c a = Ok (m_timestamp (the (meta c a)))" by (simp add: meta_timestamp_def)
  qed
  moreover have "length ?w div 2 < length ?w" using w by simp
  ultimately show ?thesis by (simp add: median_time_past_def assms(3) Let_def del: length_drop)
qed

lemma returns_expected_difficulty:
  assumes "linked c" "floored c" "heights_ok c"
  shows "returns (expected_difficulty c h)"
proof (cases "meta c h")
  case (Some m)
  have new: "u64_add (m_height m) 1 = m_height m + 1"
    using assms(3) Some by (intro u64_add_exact) (auto simp: heights_ok_def)
  show ?thesis
  proof (cases "(m_height m + 1) mod RETARGET_INTERVAL_BLOCKS = 0")
    case True
    then have ge: "RETARGET_INTERVAL_BLOCKS \<le> m_height m + 1"
      by (metis add_gr_0 dvd_imp_le mod_0_imp_dvd zero_less_one)
    have start: "u64_sub (m_height m + 1) RETARGET_INTERVAL_BLOCKS = m_height m + 1 - RETARGET_INTERVAL_BLOCKS"
      using assms(3) Some ge by (intro u64_sub_exact) (auto simp: heights_ok_def)
    show ?thesis
    proof (cases "ancestors c h")
      case (Ok p)
      note sh = ancestors_shape [OF assms(1,2) Some Ok]
      let ?i = "m_height m + 1 - RETARGET_INTERVAL_BLOCKS - floor_height c"
      have "?i < length p \<or> m_height m + 1 - RETARGET_INTERVAL_BLOCKS < floor_height c"
        using sh ge by (auto simp: RETARGET_INTERVAL_BLOCKS_def)
      then show ?thesis using sh Ok Some new start
        by (auto simp: expected_difficulty_def Let_def intro!: returns_bind)
    qed (use returns_ancestors [OF assms(1), of h] Some new in
        \<open>auto simp: expected_difficulty_def Let_def\<close>)
  qed (use Some new in \<open>simp add: expected_difficulty_def Let_def\<close>)
qed (simp add: expected_difficulty_def)

lemma returns_median_time_past:
  assumes "linked c" "floored c"
  shows "returns (median_time_past c h)"
proof (cases "ancestors c h")
  case (Ok p)
  from median_time_past_total [OF assms this] show ?thesis by auto
qed (use returns_ancestors [OF assms(1), of h] in \<open>auto simp: median_time_past_def\<close>)

lemma returns_state_at:
  assumes "linked c" "floored c" "body_ok P c"
  shows "returns (state_at c h)"
proof (cases "ancestors c h")
  case (Ok p)
  then show ?thesis using state_at_total [OF assms] by fastforce
qed (use returns_ancestors [OF assms(1), of h] in \<open>auto simp: state_at_def\<close>)

lemma returns_validate_block:
  assumes "linked c" "floored c" "body_ok P c" "heights_ok c"
  shows "returns (validate_block P c b now)"
  unfolding validate_block_def validate_transactions_def
  using assms returns_expected_difficulty returns_median_time_past returns_state_at returns_ancestors
    returns_check_claims
  by (auto intro!: returns_bind)

lemma validate_block_OkD:
  assumes "validate_block P c b now = Ok u"
  obtains pm p t where "meta c (prev_hash (header b)) = Some pm"
    and "height (header b) = u64_add (m_height pm) 1"
    and "expected_difficulty c (prev_hash (header b)) = Ok (difficulty_target (header b))"
    and "meets_target (block_hash P b) (expand_target (difficulty_target (header b)))"
    and "ancestors c (prev_hash (header b)) = Ok p"
    and "median_time_past c (prev_hash (header b)) = Ok t" and "t < timestamp (header b)"
    and "timestamp (header b) \<le> u64_add now MAX_FUTURE_DRIFT_SECS"
    and "validate_transactions P c b = Ok u"
  using assms
  by (auto simp: validate_block_def bind_res_Ok get_meta_def median_time_past_def intro: that)

lemma validate_transactions_OkD:
  assumes "validate_transactions P c b = Ok u" and "state_at c (prev_hash (header b)) = Ok st"
  shows "(\<forall>tx \<in> set (transactions b). verify_self_contained P tx = Ok ()) \<and>
    distinct (names b) \<and> set (names b) \<inter> dom st = {}"
  using assms
  by (auto simp: validate_transactions_def bind_res_Ok check_claims_Ok claim_ok_def names_def split: if_splits)

subsection \<open>Properties\<close>

text \<open>C16: a block is valid exactly when it satisfies every rule: the limits on its size, the
  commitment to its transactions, its place after a known parent, the difficulty the chain expects
  there and a hash that meets it, a timestamp after the median of its ancestors and not too far
  ahead, and claims that verify, are anchored in recent ancestry, and name nothing taken or twice.\<close>

theorem validate_block_iff:
  "validate_block P c b now = Ok () \<longleftrightarrow>
     length (transactions b) \<le> 64 \<and> approx_size_bytes b \<le> 16384 \<and>
     tx_commitment (header b) = compute_tx_commitment P (transactions b) \<and>
     (\<exists>pm. meta c (prev_hash (header b)) = Some pm \<and> height (header b) = u64_add (m_height pm) 1) \<and>
     expected_difficulty c (prev_hash (header b)) = Ok (difficulty_target (header b)) \<and>
     meets_target (block_hash P b) (expand_target (difficulty_target (header b))) \<and>
     (\<exists>t. median_time_past c (prev_hash (header b)) = Ok t \<and> t < timestamp (header b)) \<and>
     timestamp (header b) \<le> u64_add now 7200 \<and>
     (transactions b = [] \<or>
       (\<exists>st anc. state_at c (prev_hash (header b)) = Ok st \<and> ancestors c (prev_hash (header b)) = Ok anc \<and>
          (\<forall>tx \<in> set (transactions b). claim_ok P c (height (header b)) st (set anc) tx) \<and>
          distinct (map username (transactions b))))"
  by (auto simp: validate_block_def bind_res_Ok get_meta_def validate_transactions_def check_claims_Ok
      MAX_TXS_PER_BLOCK_def MAX_BLOCK_BYTES_def MAX_FUTURE_DRIFT_SECS_def)

end
