(* ===== verification/Chain_Apply.thy ===== *)
theory Chain_Apply
  imports Validation
begin

text \<open>
  \<^verbatim>\<open>packages/ledger-core/src/chain_state.rs\<close>: the operations that change the chain. Each returns
  the chain as it leaves it, also when it fails.
\<close>

text \<open>The loop of \<open>set_canonical_tip\<close> that rewrites the height index.\<close>

fun index_from :: "nat \<Rightarrow> nat \<Rightarrow> Hash32 list \<Rightarrow> (nat \<rightharpoonup> Hash32) \<Rightarrow> (nat \<rightharpoonup> Hash32)" where
  "index_from base offset [] idx = idx"
| "index_from base offset (h # hs) idx =
     index_from base (Suc offset) hs (idx(u64_add base offset \<mapsto> h))"

definition set_canonical_tip :: "Chain \<Rightarrow> Hash32 \<Rightarrow> Chain \<times> (LedgerError, unit) res" where
  "set_canonical_tip c h =
     (case ancestors c h of
        Ok ancestry \<Rightarrow>
          let c1 = c\<lparr>canonical_index := index_from (floor_height c) 0 ancestry Map.empty\<rparr> in
          (case state_at c1 h of
             Ok owners \<Rightarrow> (c1\<lparr>username_owner := owners, tip_hash := h\<rparr>, Ok ())
           | Err e \<Rightarrow> (c1, Err e) | Panic \<Rightarrow> (c1, Panic) | Diverge \<Rightarrow> (c1, Diverge))
      | Err e \<Rightarrow> (c, Err e) | Panic \<Rightarrow> (c, Panic) | Diverge \<Rightarrow> (c, Diverge))"

definition insert_block :: "Chain \<Rightarrow> Hash32 \<Rightarrow> Block \<Rightarrow> f64 \<Rightarrow> Chain" where
  "insert_block c hash b work =
     c\<lparr>meta := (meta c)(hash \<mapsto> \<lparr> m_height = height (header b), m_prev_hash = prev_hash (header b),
           m_timestamp = timestamp (header b), m_difficulty_target = difficulty_target (header b),
           m_cumulative_work = work \<rparr>),
       blocks := (blocks c)(hash \<mapsto> b)\<rparr>"

definition try_apply ::
  "Primitives \<Rightarrow> Chain \<Rightarrow> Block \<Rightarrow> nat \<Rightarrow> Chain \<times> (LedgerError, ApplyOutcome) res" where
  "try_apply P c b now =
     (let hash = block_hash P b in
      if meta c hash \<noteq> None then (c, Ok AlreadyKnown)
      else case validate_block P c b now of
        Err e \<Rightarrow> (c, Err e) | Panic \<Rightarrow> (c, Panic) | Diverge \<Rightarrow> (c, Diverge)
      | Ok _ \<Rightarrow>
          let parent = prev_hash (header b) in
          (case meta c parent of
             None \<Rightarrow> (c, Panic)
           | Some pm \<Rightarrow>
               let work = f64_add (m_cumulative_work pm) (work_of (difficulty_target (header b)));
                   c1 = insert_block c hash b work in
               (case meta c1 (tip_hash c1) of
                  None \<Rightarrow> (c1, Panic)
                | Some tm \<Rightarrow>
                    if f64_le work (m_cumulative_work tm) then (c1, Ok AddedToFork)
                    else
                      let extended_tip = (parent = tip_hash c1) in
                      (case set_canonical_tip c1 hash of
                         (c2, Ok _) \<Rightarrow>
                           (c2, Ok (if extended_tip then ExtendedTip
                                    else ReorgedTo (height (header b))))
                       | (c2, Err e) \<Rightarrow> (c2, Err e)
                       | (c2, Panic) \<Rightarrow> (c2, Panic)
                       | (c2, Diverge) \<Rightarrow> (c2, Diverge)))))"

definition prune_bodies_up_to :: "Chain \<Rightarrow> nat \<Rightarrow> Chain \<times> (LedgerError, unit) res" where
  "prune_bodies_up_to c k =
     (if k \<le> floor_height c then (c, Ok ())
      else case canonical_index c k of
        None \<Rightarrow> (c, Ok ())
      | Some new_floor \<Rightarrow>
          (case state_at c new_floor of
             Ok new_state \<Rightarrow>
               (c\<lparr>blocks := (\<lambda>h. case blocks c h of
                      None \<Rightarrow> None
                    | Some b \<Rightarrow> if k < height (header b) then Some b else None),
                  floor_username_owner := new_state, floor_hash := new_floor, floor_height := k\<rparr>,
                Ok ())
           | Err e \<Rightarrow> (c, Err e) | Panic \<Rightarrow> (c, Panic) | Diverge \<Rightarrow> (c, Diverge)))"

subsection \<open>Inserting a block\<close>

lemma replay_cong:
  "(\<And>a. a \<in> set as \<Longrightarrow> blocks c' a = blocks c a) \<Longrightarrow> floor_hash c' = floor_hash c \<Longrightarrow>
    replay c' as st = replay c as st"
  by (induction as arbitrary: st) (auto intro!: bind_res_cong)

lemma insert_block_simps [simp]:
  "blocks (insert_block c hash b w) = (blocks c)(hash \<mapsto> b)"
  "tip_hash (insert_block c hash b w) = tip_hash c"
  "canonical_index (insert_block c hash b w) = canonical_index c"
  "username_owner (insert_block c hash b w) = username_owner c"
  "floor_hash (insert_block c hash b w) = floor_hash c"
  "floor_height (insert_block c hash b w) = floor_height c"
  "floor_username_owner (insert_block c hash b w) = floor_username_owner c"
  "h \<noteq> hash \<Longrightarrow> meta (insert_block c hash b w) h = meta c h"
  by (simp_all add: insert_block_def)

lemma meta_insert_block:
  "\<exists>m. meta (insert_block c hash b w) hash = Some m \<and> matches b m \<and> m_cumulative_work m = w"
  by (simp add: insert_block_def matches_def)

lemma ancestors_insert_other:
  assumes "linked c" and "meta c hash = None" and "hash \<noteq> ZERO" and "h \<noteq> hash"
  shows "ancestors (insert_block c hash b w) h = ancestors c h"
proof (cases "meta c h")
  case None
  then show ?thesis using assms(4) by (subst (1 2) ancestors_step) simp
next
  case (Some m)
  let ?c1 = "insert_block c hash b w"
  have zero: "ancestors ?c1 ZERO = ancestors c ZERO"
    using assms(1,3) by (subst (1 2) ancestors_step) (simp add: linked_def)
  from assms(1) Some show ?thesis using assms(4)
  proof (induction rule: chain_induct)
    case (root h m)
    then show ?case using zero by (subst (1 2) ancestors_step) simp
  next
    case (child h m pm)
    from child.hyps(2) assms(2) have "m_prev_hash m \<noteq> hash" by auto
    from child.IH [OF this] child.hyps(1) child.prems show ?case by (subst (1 2) ancestors_step) simp
  qed
qed

lemma linked_insert:
  assumes "linked c" and "meta c hash = None" and "hash \<noteq> ZERO"
    and "meta c (prev_hash (header b)) = Some pm" and "height (header b) = Suc (m_height pm)"
  shows "linked (insert_block c hash b w)"
proof -
  have "prev_hash (header b) \<noteq> hash" using assms(2,4) by auto
  then show ?thesis using assms unfolding linked_def insert_block_def by auto (metis option.distinct(1))
qed

lemma floored_insert: "floored c \<Longrightarrow> meta c hash = None \<Longrightarrow> floored (insert_block c hash b w)"
  unfolding floored_def by (cases "floor_hash c = hash") auto

lemma body_ok_insert:
  assumes "body_ok P c" and "meta c hash = None" and "hash = block_hash P b" and "accepted P b"
  shows "body_ok P (insert_block c hash b w)"
proof -
  have "\<exists>m. meta (insert_block c hash b w) h = Some m \<and> matches b' m"
    if "h \<noteq> hash" "blocks c h = Some b'" for h b'
    using that assms(1) by (auto simp: body_ok_def)
  then show ?thesis
    using assms meta_insert_block [of c hash b w] by (auto simp: body_ok_def)
qed

lemma claims_insert:
  assumes "hash \<notin> set p"
  shows "claims (insert_block c hash b w) p = claims c p"
proof -
  have "map (block_names (insert_block c hash b w)) p = map (block_names c) p"
    using assms by (auto simp: block_names_def)
  then show ?thesis by (simp only: claims_def)
qed

text \<open>The chain with a valid block added, before the tip is reconsidered.\<close>

lemma insert_valid:
  fixes w :: f64
  assumes inv: "linked c" "floored c" "body_ok P c" "fresh c" and heights: "heights_ok c"
    and new: "meta c hash = None" "hash \<noteq> ZERO" "hash = block_hash P b"
    and valid: "validate_block P c b now = Ok u"
  defines "c1 \<equiv> insert_block c hash b w"
  obtains p st where "ancestors c (prev_hash (header b)) = Ok p" and "ancestors c1 hash = Ok (p @ [hash])"
    and "state_at c (prev_hash (header b)) = Ok st" and "state_at c1 hash = Ok (apply_claims hash b st)"
    and "st \<subseteq>\<^sub>m apply_claims hash b st"
    and "\<And>h. h \<noteq> hash \<Longrightarrow> ancestors c1 h = ancestors c h"
    and "\<And>h. h \<noteq> hash \<Longrightarrow> state_at c1 h = state_at c h"
    and "linked c1" and "floored c1" and "body_ok P c1" and "fresh c1"
proof -
  let ?parent = "prev_hash (header b)"
  obtain pm p t where pm: "meta c ?parent = Some pm" and hgt: "height (header b) = u64_add (m_height pm) 1"
    and pow: "meets_target (block_hash P b) (expand_target (difficulty_target (header b)))"
    and p: "ancestors c ?parent = Ok p" and txs: "validate_transactions P c b = Ok u"
    using validate_block_OkD [OF valid] by metis
  have suc: "height (header b) = Suc (m_height pm)"
    using hgt heights pm by (auto simp: heights_ok_def)
  obtain st where st: "state_at c ?parent = Ok st" and dom: "dom st = dom (floor_username_owner c) \<union> set (claims c p)"
    using state_at_total [OF inv(1-3) p] by blast
  note tx = validate_transactions_OkD [OF txs st]
  have acc: "accepted P b" using pow tx by (simp add: accepted_def)
  have link: "linked c1" unfolding c1_def by (rule linked_insert [OF inv(1) new(1,2) pm suc])
  have floor: "floored c1" unfolding c1_def by (rule floored_insert [OF inv(2) new(1)])
  have body: "body_ok P c1" unfolding c1_def by (rule body_ok_insert [OF inv(3) new(1,3) acc])
  have old: "h \<noteq> hash \<Longrightarrow> ancestors c1 h = ancestors c h" for h
    unfolding c1_def by (rule ancestors_insert_other [OF inv(1) new(1,2)])
  have notin: "hash \<notin> set q" if "ancestors c h = Ok q" for h q
    using ancestors_set_known [OF inv(1,2) that] new(1) by fastforce
  have state: "h \<noteq> hash \<Longrightarrow> state_at c1 h = state_at c h" for h
  proof (cases "ancestors c h")
    case (Ok q)
    moreover assume "h \<noteq> hash"
    moreover have "replay c1 q s = replay c q s" for s
      using notin [OF Ok] by (intro replay_cong) (auto simp: c1_def)
    ultimately show ?thesis by (simp add: state_at_def old) (simp add: c1_def)
  qed (simp_all add: state_at_def old)
  have pne: "?parent \<noteq> hash" and hnf: "hash \<noteq> floor_hash c1"
    using pm new(1) inv(2) by (auto simp: c1_def floored_def)
  obtain m1 where m1: "meta c1 hash = Some m1" "m_prev_hash m1 = ?parent"
    using meta_insert_block [of c hash b w] by (auto simp: c1_def matches_def)
  have p1: "ancestors c1 ?parent = Ok p" using old [OF pne] p by simp
  have anc: "ancestors c1 hash = Ok (p @ [hash])" using ancestors_child [OF m1(1) hnf] m1(2) p1 by simp
  have st1: "state_at c1 hash = Ok (apply_claims hash b st)"
    using state_at_child [OF m1(1) hnf] m1(2) p1 state [OF pne] st by (simp add: c1_def)
  have ext: "st \<subseteq>\<^sub>m apply_claims hash b st" using tx by (intro apply_claims_extends) blast
  have fr: "fresh c1"
    unfolding fresh_def
  proof (intro allI impI)
    fix h q assume q: "ancestors c1 h = Ok q"
    show "distinct (claims c1 q) \<and> set (claims c1 q) \<inter> dom (floor_username_owner c1) = {}"
    proof (cases "h = hash")
      case False
      then have "ancestors c h = Ok q" using q old by simp
      then show ?thesis using inv(4) notin by (simp add: fresh_def c1_def claims_insert)
    next
      case True
      then have q_eq: "q = p @ [hash]" using q anc by simp
      have "claims c1 p = claims c p" using notin [OF p] by (simp add: c1_def claims_insert)
      moreover have "block_names c1 hash = names b" using hnf by (simp add: block_names_def c1_def)
      moreover have "distinct (claims c p)" "set (claims c p) \<inter> dom (floor_username_owner c) = {}"
        using inv(4) p unfolding fresh_def by blast+
      moreover have "floor_username_owner c1 = floor_username_owner c" by (simp add: c1_def)
      ultimately show ?thesis using tx dom by (auto simp: q_eq)
    qed
  qed
  show thesis by (rule that) (fact p anc st st1 ext old state link floor body fr)+
qed

subsection \<open>Moving the tip\<close>

lemma index_from_eq:
  "base + offset + length hs \<le> 2 ^ 64 \<Longrightarrow>
    index_from base offset hs idx k =
      (if base + offset \<le> k \<and> k < base + offset + length hs then Some (hs ! (k - base - offset)) else idx k)"
proof (induction hs arbitrary: offset idx)
  case (Cons h hs)
  then have "u64_add base offset = base + offset" by simp
  with Cons show ?case by (auto simp: nth_Cons' Suc_le_eq)
qed auto

lemma state_at_cong:
  assumes "meta c' = meta c" and "floor_hash c' = floor_hash c" and "blocks c' = blocks c"
    and "floor_username_owner c' = floor_username_owner c"
  shows "state_at c' h = state_at c h"
  unfolding state_at_def ancestors_cong [OF assms(1,2)] assms(4)
  by (intro bind_res_cong refl replay_cong) (simp_all add: assms)

lemma set_canonical_tip_Ok:
  assumes "ancestors c h = Ok p" and "state_at c h = Ok st"
  shows "set_canonical_tip c h =
    (c\<lparr>canonical_index := index_from (floor_height c) 0 p Map.empty, username_owner := st, tip_hash := h\<rparr>, Ok ())"
proof -
  have "state_at (c\<lparr>canonical_index := index_from (floor_height c) 0 p Map.empty\<rparr>) h = Ok st"
    using assms(2) by (subst state_at_cong [where c = c]) simp_all
  with assms(1) show ?thesis by (simp add: set_canonical_tip_def Let_def)
qed

lemma canonical_tip_inv:
  assumes inv: "linked c" "floored c" "body_ok P c" "fresh c"
    and at: "ancestors c h = Ok p" "state_at c h = Ok st" "meta c h = Some m" "m_height m < 2 ^ 64"
    and top: "\<And>h' m'. meta c h' = Some m' \<Longrightarrow> f64_le (m_cumulative_work m') (m_cumulative_work m)"
  shows "chain_inv P (c\<lparr>canonical_index := index_from (floor_height c) 0 p Map.empty,
    username_owner := st, tip_hash := h\<rparr>)"
proof -
  let ?c = "c\<lparr>canonical_index := index_from (floor_height c) 0 p Map.empty, username_owner := st, tip_hash := h\<rparr>"
  have anc: "ancestors ?c h' = ancestors c h'" for h' by (rule ancestors_cong) simp_all
  have state: "state_at ?c h' = state_at c h'" for h' by (rule state_at_cong) simp_all
  have names: "claims ?c q = claims c q" for q
  proof -
    have "block_names ?c = block_names c" by (rule ext) (simp add: block_names_def)
    then show ?thesis by (simp only: claims_def)
  qed
  have "m_height m + 1 = floor_height c + length p" using ancestors_shape [OF inv(1,2) at(3,1)] by blast
  then have len: "floor_height c + 0 + length p \<le> 2 ^ 64" using at(4) by simp
  have "tip_ok ?c" using at(1,2) by (auto simp: tip_ok_def anc state index_from_eq [OF len])
  moreover have "heaviest ?c" using at(3) top by (auto simp: heaviest_def)
  ultimately show ?thesis using inv
    by (simp add: chain_inv_def linked_def floored_def body_ok_def fresh_def anc names)
qed

subsection \<open>Accepting a block\<close>

lemma f64_add_Fin_not_NaN: "x \<noteq> NaN \<Longrightarrow> f64_add x (Fin w) \<noteq> NaN"
  by (cases x) simp_all

lemma insert_fork_inv:
  assumes inv: "tip_ok c" "heaviest c" and new: "meta c hash = None" and tm: "meta c (tip_hash c) = Some tm"
    and c1: "linked (insert_block c hash b w)" "floored (insert_block c hash b w)"
      "body_ok P (insert_block c hash b w)" "fresh (insert_block c hash b w)"
    and old: "\<And>h. h \<noteq> hash \<Longrightarrow> ancestors (insert_block c hash b w) h = ancestors c h"
    and state: "\<And>h. h \<noteq> hash \<Longrightarrow> state_at (insert_block c hash b w) h = state_at c h"
    and le: "f64_le w (m_cumulative_work tm)"
  shows "chain_inv P (insert_block c hash b w)"
proof -
  have tne: "tip_hash c \<noteq> hash" using tm new by auto
  have "tip_ok (insert_block c hash b w)" using inv(1)
    unfolding tip_ok_def by (simp only: insert_block_simps old [OF tne] state [OF tne])
  moreover have "heaviest (insert_block c hash b w)"
    unfolding heaviest_def insert_block_simps
  proof (intro exI conjI allI impI)
    show "meta (insert_block c hash b w) (tip_hash c) = Some tm" using tm tne by simp
    fix h m assume "meta (insert_block c hash b w) h = Some m"
    then show "f64_le (m_cumulative_work m) (m_cumulative_work tm)"
      using inv(2) tm meta_insert_block [of c hash b w] le by (cases "h = hash") (auto simp: heaviest_def)
  qed
  ultimately show ?thesis using c1 by (simp add: chain_inv_def)
qed

lemma heavier_than_tip:
  assumes "heaviest c" and "meta c (tip_hash c) = Some tm" and "w \<noteq> NaN" and "\<not> f64_le w (m_cumulative_work tm)"
  shows "f64_lt (m_cumulative_work tm) w"
proof -
  have "m_cumulative_work tm \<noteq> NaN" using assms(1,2) f64_le_not_NaN by (fastforce simp: heaviest_def)
  then show ?thesis using assms(3,4) f64_not_le by blast
qed

lemma insert_tip_work:
  assumes "heaviest c" and "meta c (tip_hash c) = Some tm" and "w \<noteq> NaN" and "\<not> f64_le w (m_cumulative_work tm)"
    and "meta (insert_block c hash b w) h = Some m"
  shows "f64_le (m_cumulative_work m) w"
proof -
  obtain m1 where m1: "meta (insert_block c hash b w) hash = Some m1" "m_cumulative_work m1 = w"
    using meta_insert_block by blast
  have top: "\<And>h m. meta c h = Some m \<Longrightarrow> f64_le (m_cumulative_work m) (m_cumulative_work tm)"
    using assms(1,2) by (auto simp: heaviest_def)
  have lt: "f64_lt (m_cumulative_work tm) w" by (rule heavier_than_tip [OF assms(1-4)])
  show ?thesis
  proof (cases "h = hash")
    case True
    with assms(3,5) m1 show ?thesis by (simp add: f64_le_refl)
  next
    case False
    with assms(5) top have "f64_le (m_cumulative_work m) (m_cumulative_work tm)" by simp
    with lt show ?thesis using f64_le_trans f64_lt_imp_le by blast
  qed
qed

text \<open>The cumulative work of a block on a known parent.\<close>

definition new_work :: "Chain \<Rightarrow> Block \<Rightarrow> f64" where
  "new_work c b = f64_add (m_cumulative_work (the (meta c (prev_hash (header b)))))
     (work_of (difficulty_target (header b)))"

text \<open>The outcomes of \<open>try_apply\<close> for a valid block.\<close>

lemma try_apply_valid:
  assumes inv: "chain_inv P c" and heights: "heights_ok c" and nz: "block_hash P b \<noteq> ZERO"
    and new: "meta c (block_hash P b) = None" and valid: "validate_block P c b now = Ok ()"
  obtains (fork) w where "w = new_work c b"
      "try_apply P c b now = (insert_block c (block_hash P b) b w, Ok AddedToFork)"
      "chain_inv P (insert_block c (block_hash P b) b w)"
  | (tip) w p st where "w = new_work c b"
      "ancestors c (prev_hash (header b)) = Ok p" "state_at c (prev_hash (header b)) = Ok st"
      "st \<subseteq>\<^sub>m apply_claims (block_hash P b) b st"
      "\<forall>tm. meta c (tip_hash c) = Some tm \<longrightarrow> f64_lt (m_cumulative_work tm) w"
      "try_apply P c b now = ((insert_block c (block_hash P b) b w)
           \<lparr>canonical_index := index_from (floor_height c) 0 (p @ [block_hash P b]) Map.empty,
            username_owner := apply_claims (block_hash P b) b st, tip_hash := block_hash P b\<rparr>,
         Ok (if prev_hash (header b) = tip_hash c then ExtendedTip else ReorgedTo (height (header b))))"
      "chain_inv P (fst (try_apply P c b now))"
proof -
  let ?hash = "block_hash P b" and ?parent = "prev_hash (header b)"
  have link: "linked c" and floor: "floored c" and body: "body_ok P c" and fr: "fresh c"
    and tipok: "tip_ok c" and heavy: "heaviest c" using inv by (simp_all add: chain_inv_def)
  obtain pm where pm: "meta c ?parent = Some pm" and hgt: "height (header b) = u64_add (m_height pm) 1"
    using validate_block_OkD [OF valid] by metis
  have bound: "height (header b) < 2 ^ 64" using u64_add_bound by (simp only: hgt)
  define w where "w = f64_add (m_cumulative_work pm) (work_of (difficulty_target (header b)))"
  have wn': "w = new_work c b" by (simp add: w_def new_work_def pm)
  let ?c1 = "insert_block c ?hash b w"
  obtain p st where p: "ancestors c ?parent = Ok p" and p1: "ancestors ?c1 ?hash = Ok (p @ [?hash])"
    and st: "state_at c ?parent = Ok st" and st1: "state_at ?c1 ?hash = Ok (apply_claims ?hash b st)"
    and ext: "st \<subseteq>\<^sub>m apply_claims ?hash b st"
    and old: "\<And>h. h \<noteq> ?hash \<Longrightarrow> ancestors ?c1 h = ancestors c h"
    and state: "\<And>h. h \<noteq> ?hash \<Longrightarrow> state_at ?c1 h = state_at c h"
    and inv1: "linked ?c1" "floored ?c1" "body_ok P ?c1" "fresh ?c1"
    using insert_valid [OF link floor body fr heights new nz refl valid, of w] by metis
  obtain tm where tm: "meta c (tip_hash c) = Some tm" using heavy by (auto simp: heaviest_def)
  have tne: "tip_hash c \<noteq> ?hash" using tm new by auto
  obtain m1 where m1: "meta ?c1 ?hash = Some m1" "matches b m1" "m_cumulative_work m1 = w"
    using meta_insert_block by blast
  show thesis
  proof (cases "f64_le w (m_cumulative_work tm)")
    case True
    have "try_apply P c b now = (?c1, Ok AddedToFork)"
      using new valid pm tm tne True by (simp add: try_apply_def Let_def w_def)
    then show thesis using fork [OF wn'] insert_fork_inv [OF tipok heavy new tm inv1 old state True] by blast
  next
    case False
    have "m_cumulative_work pm \<noteq> NaN" using heavy tm pm f64_le_not_NaN by (fastforce simp: heaviest_def)
    then have wn: "w \<noteq> NaN" unfolding w_def work_of_value by (rule f64_add_Fin_not_NaN)
    have res: "try_apply P c b now = (?c1\<lparr>canonical_index := index_from (floor_height c) 0 (p @ [?hash]) Map.empty,
         username_owner := apply_claims ?hash b st, tip_hash := ?hash\<rparr>,
       Ok (if ?parent = tip_hash c then ExtendedTip else ReorgedTo (height (header b))))"
      using new valid pm tm tne False set_canonical_tip_Ok [OF p1 st1]
      by (simp add: try_apply_def Let_def flip: w_def)
    have "chain_inv P (fst (try_apply P c b now))"
      using canonical_tip_inv [OF inv1 p1 st1 m1(1)] insert_tip_work [OF heavy tm wn False] m1 bound
      by (simp add: res matches_def)
    moreover have "f64_lt (m_cumulative_work tm) w" by (rule heavier_than_tip [OF heavy tm wn False])
    ultimately show thesis using tip [OF wn' p st ext _ res] tm by simp
  qed
qed

text \<open>All outcomes on a chain that satisfies the invariant.\<close>

lemma try_apply_cases:
  assumes inv: "chain_inv P c" and heights: "heights_ok c" and nz: "block_hash P b \<noteq> ZERO"
  obtains (known) "meta c (block_hash P b) \<noteq> None" "try_apply P c b now = (c, Ok AlreadyKnown)"
  | (invalid) e where "meta c (block_hash P b) = None" "validate_block P c b now = Err e" "try_apply P c b now = (c, Err e)"
  | (valid) "meta c (block_hash P b) = None" "validate_block P c b now = Ok ()"
proof (cases "meta c (block_hash P b)")
  case (Some m)
  then show thesis by (intro known) (simp_all add: try_apply_def Let_def)
next
  case None
  have "returns (validate_block P c b now)"
    using inv heights by (intro returns_validate_block) (simp_all add: chain_inv_def)
  then show thesis
  proof (cases "validate_block P c b now")
    case (Err e)
    with None show thesis by (intro invalid) (simp_all add: try_apply_def Let_def)
  qed (use valid None in auto)
qed

subsection \<open>Pruning\<close>

lemma prune_bodies_up_to_noop:
  "k \<le> floor_height c \<or> canonical_index c k = None \<Longrightarrow> prune_bodies_up_to c k = (c, Ok ())"
  by (auto simp: prune_bodies_up_to_def)

text \<open>The effect of a prune that moves the floor to block \<open>nf\<close> at height \<open>k\<close>.\<close>

definition pruned :: "Chain \<Rightarrow> nat \<Rightarrow> Hash32 \<Rightarrow> Owners \<Rightarrow> Chain" where
  "pruned c k nf st = c\<lparr>blocks := (\<lambda>h. case blocks c h of None \<Rightarrow> None
       | Some b \<Rightarrow> if k < height (header b) then Some b else None),
     floor_username_owner := st, floor_hash := nf, floor_height := k\<rparr>"

lemma pruned_simps [simp]:
  "meta (pruned c k nf st) = meta c" "tip_hash (pruned c k nf st) = tip_hash c"
  "canonical_index (pruned c k nf st) = canonical_index c" "username_owner (pruned c k nf st) = username_owner c"
  "floor_hash (pruned c k nf st) = nf" "floor_height (pruned c k nf st) = k"
  "floor_username_owner (pruned c k nf st) = st"
  by (simp_all add: pruned_def)

lemma blocks_pruned: "blocks (pruned c k nf st) h = Some b \<longleftrightarrow> blocks c h = Some b \<and> k < height (header b)"
  by (auto simp: pruned_def split: option.splits)

lemma prune_bodies_up_to_step:
  "floor_height c < k \<Longrightarrow> canonical_index c k = Some nf \<Longrightarrow> state_at c nf = Ok st \<Longrightarrow>
    prune_bodies_up_to c k = (pruned c k nf st, Ok ())"
  by (simp add: prune_bodies_up_to_def pruned_def)

text \<open>The block \<open>nf\<close> can become the floor.\<close>

definition next_floor :: "Primitives \<Rightarrow> Chain \<Rightarrow> nat \<Rightarrow> Hash32 \<Rightarrow> Hash32 list \<Rightarrow> Owners \<Rightarrow> bool" where
  "next_floor P c k nf pn st \<longleftrightarrow> linked c \<and> floored c \<and> body_ok P c \<and> fresh c \<and>
     (\<exists>mn. meta c nf = Some mn \<and> m_height mn = k) \<and> ancestors c nf = Ok pn \<and>
     state_at c nf = Ok st \<and> floor_height c < k"

lemma linked_pruned: "next_floor P c k nf pn st \<Longrightarrow> linked (pruned c k nf st)"
  by (simp add: next_floor_def linked_def)

lemma floored_pruned: "next_floor P c k nf pn st \<Longrightarrow> floored (pruned c k nf st)"
  by (auto simp: next_floor_def floored_def)

lemma body_ok_pruned:
  assumes "next_floor P c k nf pn st"
  shows "body_ok P (pruned c k nf st)"
proof -
  have inv: "body_ok P c" and above: "floor_height c < k" using assms by (simp_all add: next_floor_def)
  have "blocks (pruned c k nf st) h \<noteq> None" if m: "meta c h = Some m" "k < m_height m" for h m
  proof -
    have "blocks c h \<noteq> None" using inv m above by (simp add: body_ok_def)
    then obtain b where b: "blocks c h = Some b" by auto
    then have "matches b m" using inv m by (fastforce simp: body_ok_def)
    then have "blocks (pruned c k nf st) h = Some b" using b m by (simp add: blocks_pruned matches_def)
    then show ?thesis by simp
  qed
  with inv show ?thesis by (auto simp: body_ok_def blocks_pruned)
qed

text \<open>Above the new floor, paths lose the part before it and states stay as they are.\<close>

lemma pruned_ancestors:
  assumes nxt: "next_floor P c k nf pn st" and "ancestors (pruned c k nf st) h = Ok q"
  shows "ancestors c h = Ok (butlast pn @ q) \<and> state_at (pruned c k nf st) h = state_at c h"
proof -
  let ?c = "pruned c k nf st"
  note floored_pruned = floored_pruned [OF nxt] and linked_pruned = linked_pruned [OF nxt]
    and body_ok_pruned = body_ok_pruned [OF nxt]
  obtain mn where nf: "meta c nf = Some mn" "m_height mn = k" "ancestors c nf = Ok pn" "state_at c nf = Ok st"
    and inv: "linked c" "floored c" and above: "floor_height c < k"
    using nxt by (auto simp: next_floor_def)
  have last: "pn = butlast pn @ [nf]" using ancestors_shape [OF inv(1,2) nf(1,3)] by (metis append_butlast_last_id)
  have at_nf: "ancestors ?c nf = Ok [nf]" using ancestors_floor [of ?c] nf by (simp add: domI)
  have st_nf: "state_at ?c nf = state_at c nf" using state_at_floor [OF floored_pruned] nf by simp
  obtain m where "meta c h = Some m" using ancestors_Ok_known [OF assms(2)] by auto
  with inv(1) show ?thesis using assms(2)
  proof (induction arbitrary: q rule: chain_induct)
    case (root h m)
    then have "h = nf"
      using ancestors_child [of ?c h m q] ancestors_ZERO [OF linked_pruned] by auto
    then show ?case using root at_nf st_nf nf(3) last by simp
  next
    case (child h m pm)
    show ?case
    proof (cases "h = nf")
      case True
      then show ?thesis using child.prems at_nf st_nf nf(3) last by simp
    next
      case False
      then obtain q0 where q: "q = q0 @ [h]" and q0: "ancestors ?c (m_prev_hash m) = Ok q0"
        using child.prems ancestors_child [of ?c h m q] child.hyps by auto
      note IH = child.IH [OF q0]
      obtain ma where ma: "meta c h = Some ma" "k < m_height ma"
        using ancestors_set_known [OF linked_pruned floored_pruned child.prems, of h] q False by auto
      then have hf: "h \<noteq> floor_hash c" using inv(2) above by (auto simp: floored_def)
      have "blocks ?c h \<noteq> None" using body_ok_pruned ma by (simp add: body_ok_def)
      then have same: "blocks ?c h = blocks c h" using blocks_pruned by (metis not_None_eq)
      have "ancestors c h = Ok (butlast pn @ q)"
        using ancestors_child [OF child.hyps(1) hf] IH q by simp
      moreover have "state_at ?c h = state_at c h"
        using state_at_child [of ?c h m q0] state_at_child [OF child.hyps(1) hf] child.hyps(1) False q0 IH same by simp
      ultimately show ?thesis by blast
    qed
  qed
qed

lemma fresh_pruned:
  assumes nxt: "next_floor P c k nf pn st"
  shows "fresh (pruned c k nf st)"
  unfolding fresh_def pruned_simps
proof (intro allI impI)
  let ?c = "pruned c k nf st"
  obtain mn where nf: "meta c nf = Some mn" "m_height mn = k" "ancestors c nf = Ok pn" "state_at c nf = Ok st"
    and inv: "linked c" "floored c" "body_ok P c" "fresh c" and above: "floor_height c < k"
    using nxt by (auto simp: next_floor_def)
  fix h q assume q: "ancestors ?c h = Ok q"
  have old: "ancestors c h = Ok (butlast pn @ q)" using pruned_ancestors [OF nxt q] by blast
  have pn: "pn = butlast pn @ [nf]" using ancestors_shape [OF inv(1,2) nf(1,3)] by (metis append_butlast_last_id)
  obtain m where m: "meta c h = Some m" using ancestors_Ok_known [OF old] by blast
  have "hd q = nf \<and> q \<noteq> []"
    using ancestors_shape [OF linked_pruned [OF nxt] floored_pruned [OF nxt], of h m q] q m by simp
  then obtain r where qr: "q = nf # r" by (cases q) auto
  have same: "block_names ?c a = block_names c a" if ar: "a \<in> set r" for a
  proof -
    have "distinct q" using ancestors_distinct [OF linked_pruned [OF nxt] floored_pruned [OF nxt] q] .
    then have an: "a \<noteq> nf" using ar by (auto simp: qr)
    obtain ma where ma: "meta c a = Some ma" "k < m_height ma"
      using ancestors_set_known [OF linked_pruned [OF nxt] floored_pruned [OF nxt] q, of a] ar an
      unfolding qr by auto
    then have af: "a \<noteq> floor_hash c" using inv(2) above by (auto simp: floored_def)
    have "blocks ?c a \<noteq> None" using body_ok_pruned [OF nxt] ma by (simp add: body_ok_def)
    then have "blocks ?c a = blocks c a" using blocks_pruned by (metis not_None_eq)
    then show ?thesis using an af by (simp add: block_names_def)
  qed
  have "claims ?c q = claims c r"
    using same by (auto simp: claims_def qr block_names_def intro!: arg_cong [where f = concat] map_cong)
  moreover have "claims c (butlast pn @ q) = claims c pn @ claims c r" by (subst (2) pn) (simp add: qr claims_def)
  moreover have "distinct (claims c (butlast pn @ q)) \<and> set (claims c (butlast pn @ q)) \<inter> dom (floor_username_owner c) = {}"
    using inv(4) old unfolding fresh_def by blast
  moreover have "dom st = dom (floor_username_owner c) \<union> set (claims c pn)"
    using state_at_total [OF inv(1-3) nf(3)] nf(4) by auto
  ultimately show "distinct (claims ?c q) \<and> set (claims ?c q) \<inter> dom st = {}" by auto
qed

lemma pruned_reaches:
  assumes nxt: "next_floor P c k nf pn st" and "ancestors c h = Ok p" and "nf \<in> set p"
  shows "\<exists>q. ancestors (pruned c k nf st) h = Ok q"
proof -
  let ?c = "pruned c k nf st"
  have inv: "linked c" "floored c" and nf: "nf \<in> dom (meta c)" using nxt by (auto simp: next_floor_def)
  have at_nf: "ancestors ?c nf = Ok [nf]" using ancestors_floor [of ?c] nf by simp
  obtain m where "meta c h = Some m" using ancestors_Ok_known [OF assms(2)] by blast
  with inv(1) show ?thesis using assms(2,3)
  proof (induction arbitrary: p rule: chain_induct)
    case (root h m)
    then have "p = [h]"
      using ancestors_child [OF root(1)] ancestors_ZERO [OF inv(1)] ancestors_floor [of c] inv(2)
      by (cases "h = floor_hash c") (auto simp: floored_def domI)
    with root at_nf show ?case by auto
  next
    case (child h m pm)
    show ?case
    proof (cases "h = nf \<or> h = floor_hash c")
      case True
      with child.prems at_nf inv(2) ancestors_floor [of c] show ?thesis by (auto simp: floored_def domI)
    next
      case False
      then obtain p0 where "ancestors c (m_prev_hash m) = Ok p0" "p = p0 @ [h]"
        using child ancestors_child by blast
      with child.IH child.prems False obtain q where "ancestors ?c (m_prev_hash m) = Ok q" by auto
      then show ?thesis using ancestors_child [of ?c h m] child.hyps(1) False by auto
    qed
  qed
qed

lemma prune_inv:
  assumes inv: "chain_inv P c" and idx: "canonical_index c k = Some nf" and above: "floor_height c < k"
  obtains pn st where "next_floor P c k nf pn st" and "prune_bodies_up_to c k = (pruned c k nf st, Ok ())"
    and "chain_inv P (pruned c k nf st)"
proof -
  have i: "linked c" "floored c" "body_ok P c" "fresh c" "tip_ok c" "heaviest c" using inv by (simp_all add: chain_inv_def)
  obtain p where p: "ancestors c (tip_hash c) = Ok p"
    and ix: "\<forall>k \<ge> floor_height c. canonical_index c k = (if k - floor_height c < length p then Some (p ! (k - floor_height c)) else None)"
    using i(5) by (auto simp: tip_ok_def)
  let ?j = "k - floor_height c"
  have j: "?j < length p" and nf: "nf = p ! ?j" using ix idx above by (auto split: if_splits)
  obtain tm where tm: "meta c (tip_hash c) = Some tm" using ancestors_Ok_known [OF p] by blast
  obtain mn where mn: "meta c nf = Some mn" "m_height mn = k"
    using ancestors_shape [OF i(1,2) tm p] j nf above by fastforce
  have pn: "ancestors c nf = Ok (take (Suc ?j) p)" unfolding nf by (rule ancestors_nth_prefix [OF i(1,2) p j])
  obtain st where st: "state_at c nf = Ok st" using state_at_total [OF i(1-3) pn] by blast
  have nxt: "next_floor P c k nf (take (Suc ?j) p) st" using i mn pn st above by (simp add: next_floor_def)
  let ?c = "pruned c k nf st"
  have bl: "butlast (take (Suc ?j) p) = take ?j p" using j by (simp add: butlast_take)
  have "nf \<in> set p" using j nf by simp
  then obtain q where q: "ancestors ?c (tip_hash c) = Ok q" using pruned_reaches [OF nxt p] by blast
  have "ancestors c (tip_hash c) = Ok (take ?j p @ q)" using pruned_ancestors [OF nxt q] by (simp add: bl)
  then have "take ?j p @ q = take ?j p @ drop ?j p" using p by (simp only: append_take_drop_id res.inject)
  then have "q = drop ?j p" by (simp only: same_append_eq)
  with q have tip: "ancestors ?c (tip_hash c) = Ok (drop ?j p)" by simp
  have "state_at ?c (tip_hash c) = Ok (username_owner c)"
    using pruned_ancestors [OF nxt tip] i(5) by (simp add: tip_ok_def)
  moreover have "\<forall>m \<ge> k. canonical_index c m = (if m - k < length (drop ?j p) then Some (drop ?j p ! (m - k)) else None)"
    using ix above by (auto simp: nth_append)
  ultimately have "tip_ok ?c" using tip by (simp add: tip_ok_def)
  moreover have "heaviest ?c" using i(6) by (simp add: heaviest_def)
  ultimately have "chain_inv P ?c"
    using linked_pruned [OF nxt] floored_pruned [OF nxt] body_ok_pruned [OF nxt] fresh_pruned [OF nxt]
    by (simp add: chain_inv_def)
  with that [OF nxt prune_bodies_up_to_step [OF above idx st]] show thesis .
qed

end
