(* ===== verification/Chain_Run.thy ===== *)
theory Chain_Run
  imports Chain_Apply
begin

text \<open>
  What the in-memory chain guarantees: sequences of blocks and prunes, ownership of names, fork
  choice and pruning, with a one-block chain on which the statements are instantiated.
\<close>

subsection \<open>Who owns a name\<close>

lemma state_at_owner:
  assumes inv: "linked c" "floored c" "body_ok P c" "fresh c" and "ancestors c h = Ok p" and "state_at c h = Ok st"
    and "st u = Some ow" and "floor_username_owner c u = None"
  shows "\<exists>a \<in> set p. \<exists>b. \<exists>tx \<in> set (transactions b). blocks c a = Some b \<and> username tx = u \<and> ow = owner_entry a b tx"
proof -
  obtain m where "meta c h = Some m" using ancestors_Ok_known [OF assms(5)] by blast
  with inv(1) show ?thesis using assms(5-7)
  proof (induction arbitrary: p st rule: chain_induct)
    case (root h m)
    then have "h = floor_hash c" using ancestors_child [OF root(1)] ancestors_ZERO [OF inv(1)] by auto
    with root state_at_floor [OF inv(2)] assms(8) show ?case by simp
  next
    case (child h m pm)
    show ?case
    proof (cases "h = floor_hash c")
      case True
      with child state_at_floor [OF inv(2)] assms(8) show ?thesis by simp
    next
      case False
      then obtain p0 where p: "p = p0 @ [h]" and p0: "ancestors c (m_prev_hash m) = Ok p0"
        using child ancestors_child by blast
      obtain st0 where st0: "state_at c (m_prev_hash m) = Ok st0" using state_at_total [OF inv(1-3) p0] by blast
      obtain b where b: "blocks c h = Some b" using body_ok_block [OF inv(3,1,2) child.prems(1) False] by blast
      then have st: "st = apply_claims h b st0" using state_at_child [OF child.hyps(1) False p0] st0 child.prems(2) by simp
      show ?thesis
      proof (cases "u \<in> set (names b)")
        case True
        then show ?thesis using apply_claims_found [OF True, of h st0] b child.prems(3) by (auto simp: st p)
      next
        case False
        then have "st0 u = Some ow" using child.prems(3) by (simp add: st apply_claims_other)
        with child.IH [OF p0 st0] show ?thesis by (auto simp: p)
      qed
    qed
  qed
qed

subsection \<open>Sequences of operations\<close>

datatype ChainOp = Apply Block nat | Prune nat

fun run_op :: "Primitives \<Rightarrow> Chain \<Rightarrow> ChainOp \<Rightarrow> Chain" where
  "run_op P c (Apply b now) = fst (try_apply P c b now)"
| "run_op P c (Prune k) = fst (prune_bodies_up_to c k)"

fun op_returns :: "Primitives \<Rightarrow> Chain \<Rightarrow> ChainOp \<Rightarrow> bool" where
  "op_returns P c (Apply b now) = returns (snd (try_apply P c b now))"
| "op_returns P c (Prune k) = (snd (prune_bodies_up_to c k) = Ok ())"

fun op_ok :: "Primitives \<Rightarrow> ChainOp \<Rightarrow> bool" where
  "op_ok P (Apply b now) = (block_hash P b \<noteq> ZERO)"
| "op_ok P (Prune k) = True"

definition heights_le :: "nat \<Rightarrow> Chain \<Rightarrow> bool" where
  "heights_le n c \<longleftrightarrow> (\<forall>h m. meta c h = Some m \<longrightarrow> m_height m \<le> n)"

lemma heights_le_ok: "heights_le n c \<Longrightarrow> n < 2 ^ 64 - 1 \<Longrightarrow> heights_ok c"
  by (force simp: heights_le_def heights_ok_def)

lemma heights_le_insert:
  assumes "heights_le n c" and "height (header b) \<le> Suc n"
  shows "heights_le (Suc n) (insert_block c hash b w)"
  unfolding heights_le_def
proof (intro allI impI)
  fix h m assume "meta (insert_block c hash b w) h = Some m"
  then show "m_height m \<le> Suc n"
    using assms meta_insert_block [of c hash b w] by (cases "h = hash") (fastforce simp: heights_le_def matches_def)+
qed

lemma try_apply_step:
  assumes inv: "chain_inv P c" and heights: "heights_le n c" "n < 2 ^ 64 - 1" and nz: "block_hash P b \<noteq> ZERO"
  shows "chain_inv P (fst (try_apply P c b now)) \<and> returns (snd (try_apply P c b now)) \<and>
    heights_le (Suc n) (fst (try_apply P c b now))"
proof -
  note ok = heights_le_ok [OF heights]
  have weaken: "heights_le (Suc n) c" using heights(1) by (auto simp: heights_le_def le_Suc_eq)
  from inv ok nz show ?thesis
  proof (cases rule: try_apply_cases [where now = now])
    case valid
    obtain pm where pm: "meta c (prev_hash (header b)) = Some pm" and h: "height (header b) = u64_add (m_height pm) 1"
      using validate_block_OkD [OF valid(2)] by metis
    have le: "height (header b) \<le> Suc n"
      using pm h heights ok by (auto simp: heights_le_def heights_ok_def)
    from inv ok nz valid show ?thesis
    proof (cases rule: try_apply_valid)
      case (fork w)
      then show ?thesis using heights_le_insert [OF heights(1) le] by simp
    next
      case (tip w p st)
      have "heights_le (Suc n) (insert_block c (block_hash P b) b w)" by (rule heights_le_insert [OF heights(1) le])
      then show ?thesis using tip by (simp add: heights_le_def)
    qed
  qed (use inv weaken in simp_all)
qed

lemma prune_step:
  assumes inv: "chain_inv P c" and heights: "heights_le n c"
  shows "chain_inv P (fst (prune_bodies_up_to c k)) \<and> snd (prune_bodies_up_to c k) = Ok () \<and>
    heights_le (Suc n) (fst (prune_bodies_up_to c k))"
proof (cases "k \<le> floor_height c \<or> canonical_index c k = None")
  case True
  then show ?thesis using assms prune_bodies_up_to_noop [OF True] by (auto simp: heights_le_def le_Suc_eq)
next
  case False
  then obtain nf where "canonical_index c k = Some nf" "floor_height c < k" by auto
  from prune_inv [OF inv this] obtain pn st where "prune_bodies_up_to c k = (pruned c k nf st, Ok ())"
    "chain_inv P (pruned c k nf st)" by metis
  then show ?thesis using heights by (auto simp: heights_le_def le_Suc_eq)
qed

lemma run_op_step:
  assumes "chain_inv P c" and "heights_le n c" "n < 2 ^ 64 - 1" and "op_ok P op"
  shows "chain_inv P (run_op P c op) \<and> op_returns P c op \<and> heights_le (Suc n) (run_op P c op)"
  using assms try_apply_step prune_step by (cases op) simp_all

lemma foldl_run_op:
  "chain_inv P c \<Longrightarrow> heights_le n c \<Longrightarrow> n + length ops < 2 ^ 64 - 1 \<Longrightarrow> list_all (op_ok P) ops \<Longrightarrow>
    chain_inv P (foldl (run_op P) c ops) \<and> heights_le (n + length ops) (foldl (run_op P) c ops)"
proof (induction ops arbitrary: c n)
  case (Cons op ops)
  have "chain_inv P (run_op P c op) \<and> op_returns P c op \<and> heights_le (Suc n) (run_op P c op)"
    using Cons.prems by (intro run_op_step) simp_all
  then show ?case using Cons.IH [of "run_op P c op" "Suc n"] Cons.prems by simp
qed simp

lemma heights_le_new: "heights_le 0 (new_chain P)"
  by (auto simp: heights_le_def new_chain_def Let_def split: if_splits)

subsection \<open>A concrete chain\<close>

lemma sample_genesis_hash: "block_hash toy (genesis toy) = Hash32 (replicate 31 0 @ [0x33])"
  by (simp add: block_hash_def header_hash_def hash_of_def header_canonical_bytes_def genesis_def
      compute_tx_commitment_def GENESIS_TIMESTAMP_def INITIAL_DIFFICULTY_BITS_def ZERO_def sum_list_replicate)

definition sample_tx :: Transaction where
  "sample_tx = (let t = \<lparr> tx_version = 1, username = ascii ''alice'', owner_public_key = replicate 31 0 @ [5],
      claimed_at_height_hint = 1, anchor_block_hash = block_hash toy (genesis toy),
      tx_nonce = replicate 8 0, signature = [] \<rparr> in t\<lparr>signature := ed_sign toy [5] (tx_preimage t)\<rparr>)"

definition sample_block :: Block where
  "sample_block = \<lparr> header = \<lparr> version = 1, height = 1, prev_hash = block_hash toy (genesis toy),
     timestamp = 1750000300, tx_commitment = compute_tx_commitment toy [sample_tx],
     difficulty_target = INITIAL_DIFFICULTY_BITS, nonce = 0, miner_public_key = replicate 32 0 \<rparr>,
     transactions = [sample_tx] \<rparr>"

lemma sample_tx_fields:
  "username sample_tx = ascii ''alice''" "owner_public_key sample_tx = ed_public toy [5]"
  "anchor_block_hash sample_tx = block_hash toy (genesis toy)"
  "signature sample_tx = ed_sign toy [5] (tx_preimage sample_tx)"
  by (simp_all add: sample_tx_def Let_def tx_preimage_def)

lemma sample_tx_verifies: "verify_self_contained toy sample_tx = Ok ()"
  by (simp add: verify_self_contained_Ok sample_tx_fields)
    (simp add: ascii_def username_byte_def is_ascii_lowercase_def of_char_def)

lemma sample_preimage: "sum_list (tx_preimage sample_tx) = 0x1e"
  by (simp add: tx_preimage_def signing_preimage_def sample_tx_def Let_def CLAIM_DOMAIN_TAG_def ascii_def of_char_def
      sample_genesis_hash sum_list_replicate)

lemma sample_id: "tx_id toy sample_tx = Hash32 (replicate 31 0 @ [0x41])"
  by (simp add: tx_id_def hash_of_def tx_canonical_bytes_def sample_tx_fields sample_preimage sum_list_replicate)

lemma sample_commitment: "compute_tx_commitment toy [sample_tx] = Hash32 (replicate 31 0 @ [0x41])"
  by (simp add: compute_tx_commitment_def sample_id hash_of_def sum_list_replicate)

lemma sample_hash: "block_hash toy sample_block = Hash32 (replicate 31 0 @ [0xd5])"
  unfolding sample_block_def block_hash_def [of _ "\<lparr>header = _, transactions = _\<rparr>"] Block.select_convs
    sample_genesis_hash sample_commitment
  by (simp add: header_hash_def hash_of_def header_canonical_bytes_def INITIAL_DIFFICULTY_BITS_def sum_list_replicate)

lemma sample_hash_values: "hash_value (block_hash toy (genesis toy)) = 0x33" "hash_value (block_hash toy sample_block) = 0xd5"
  by (simp_all add: sample_genesis_hash sample_hash hash_value_def of_be_append)

lemma sample_nonzero: "block_hash toy (genesis toy) \<noteq> ZERO" "block_hash toy sample_block \<noteq> ZERO"
  using sample_hash_values by (metis hash_value_ZERO zero_neq_numeral)+

lemma sample_genesis_inv: "chain_inv toy (new_chain toy)"
  by (rule new_chain_inv) (rule sample_nonzero)

lemma sample_floor: "floor_hash (new_chain toy) = block_hash toy (genesis toy)"
  "tip_hash (new_chain toy) = block_hash toy (genesis toy)"
  by (simp_all add: new_chain_def Let_def)

lemma sample_meta: "meta (new_chain toy) (block_hash toy (genesis toy)) =
    Some \<lparr> m_height = 0, m_prev_hash = ZERO, m_timestamp = GENESIS_TIMESTAMP,
      m_difficulty_target = INITIAL_DIFFICULTY_BITS, m_cumulative_work = Fin 0 \<rparr>"
  by (simp add: new_chain_def Let_def)

lemma sample_valid: "validate_block toy (new_chain toy) sample_block 1750000300 = Ok ()"
proof -
  let ?c = "new_chain toy" and ?g = "block_hash toy (genesis toy)"
  have prev: "prev_hash (header sample_block) = ?g" by (simp add: sample_block_def)
  have wf: "wf_hash ?g" by (simp add: wf_hash_def sample_genesis_hash)
  have size: "approx_size_bytes sample_block \<le> MAX_BLOCK_BYTES"
  proof -
    have "wf_header (header sample_block)"
      using wf by (simp add: wf_header_def sample_block_def wf_compute_tx_commitment toy_digest32)
    moreover have "wf_tx sample_tx" using wf by (simp add: wf_tx_def sample_tx_def Let_def)
    ultimately show ?thesis using verified_size [OF sample_tx_verifies] length_header_canonical_bytes
      by (simp add: approx_size_bytes_def MAX_BLOCK_BYTES_def) (simp add: sample_block_def)
  qed
  have anc: "ancestors ?c ?g = Ok [?g]"
    using ancestors_floor [of ?c] sample_meta by (simp add: sample_floor domI)
  have exp: "expected_difficulty ?c ?g = Ok INITIAL_DIFFICULTY_BITS"
    by (simp add: expected_difficulty_def sample_meta Let_def RETARGET_INTERVAL_BLOCKS_def)
  have pow: "meets_target (block_hash toy sample_block) (expand_target INITIAL_DIFFICULTY_BITS)"
  proof -
    have "wf_hash (block_hash toy sample_block)" by (simp add: wf_hash_def sample_hash)
    moreover have "hash_value (expand_target INITIAL_DIFFICULTY_BITS) = 0xffffff * 256 ^ 27"
      using expand_large [of INITIAL_DIFFICULTY_BITS] by (simp add: INITIAL_DIFFICULTY_BITS_def expo_def mant_def)
    ultimately show ?thesis by (simp add: meets_target_def hash_le_iff sample_hash_values)
  qed
  have mtp: "median_time_past ?c ?g = Ok GENESIS_TIMESTAMP"
    by (simp add: median_time_past_def anc meta_timestamp_def sample_meta MEDIAN_TIME_PAST_WINDOW_def)
  have st: "state_at ?c ?g = Ok Map.empty"
    using state_at_floor [of ?c] sample_genesis_inv by (simp add: chain_inv_def sample_floor) (simp add: new_chain_def Let_def)
  have txs: "transactions sample_block = [sample_tx]" by (simp add: sample_block_def)
  have vt: "validate_transactions toy ?c sample_block = Ok ()"
    using sample_tx_verifies
    by (simp add: validate_transactions_def txs prev st anc check_claims_Ok claim_ok_def sample_tx_fields sample_meta
        del: check_claims.simps) (simp add: sample_block_def ANCHOR_MAX_AGE_BLOCKS_def)
  show ?thesis
    unfolding validate_block_def prev exp vt
    using size pow
    by (simp add: guard_def txs get_meta_def sample_meta mtp MAX_TXS_PER_BLOCK_def)
      (simp add: sample_block_def exp pow mtp GENESIS_TIMESTAMP_def MAX_FUTURE_DRIFT_SECS_def)
qed

lemma validate_block_iff_witness:
  "meets_target (block_hash toy sample_block) (expand_target (difficulty_target (header sample_block)))"
  using sample_valid validate_block_iff [of toy "new_chain toy" sample_block 1750000300] by blast

lemma sample_new: "meta (new_chain toy) (block_hash toy sample_block) = None"
  by (simp add: new_chain_def Let_def sample_hash sample_genesis_hash)

lemma sample_heights: "heights_ok (new_chain toy)"
  using heights_le_ok [OF heights_le_new] by simp

lemma sample_extends: "snd (try_apply toy (new_chain toy) sample_block 1750000300) = Ok ExtendedTip"
proof -
  note nz = sample_nonzero(2)
  note new = sample_new
  have fork: "try_apply toy (new_chain toy) sample_block 1750000300 \<noteq> (c, Ok AddedToFork)" for c
  proof -
    have "1 \<le> work_value (target_value INITIAL_DIFFICULTY_BITS)" by (rule work_value_ge_1 [OF target_value_bound])
    then have le: "\<not> f64_le (f64_add (Fin 0) (work_of INITIAL_DIFFICULTY_BITS)) (Fin 0)"
      using round_pos_ge [OF _ _ f64_rep_1, of "work_value (target_value INITIAL_DIFFICULTY_BITS)"]
      by (auto simp: work_of_value round_f64_def)
    have ne: "block_hash toy (genesis toy) \<noteq> block_hash toy sample_block"
      using sample_hash_values by auto
    have "prev_hash (header sample_block) = block_hash toy (genesis toy)"
      "difficulty_target (header sample_block) = INITIAL_DIFFICULTY_BITS" by (simp_all add: sample_block_def)
    with new sample_valid le ne show ?thesis
      by (auto simp: try_apply_def Let_def sample_meta sample_floor split: prod.splits res.splits)
  qed
  from sample_genesis_inv sample_heights nz new sample_valid show ?thesis
  proof (cases rule: try_apply_valid)
    case (fork w)
    with \<open>\<And>c. _ \<noteq> (c, Ok AddedToFork)\<close> show ?thesis by blast
  next
    case (tip w p st)
    then show ?thesis by (simp add: sample_block_def sample_floor)
  qed
qed

subsection \<open>Properties\<close>

text \<open>C1: after any sequence of blocks and prunes on a fresh chain, the invariant holds: parent
  links and heights agree, bodies match their metadata and carry proof of work and verified claims,
  no name is claimed twice on a branch, the height index and the owner map are those of the tip's
  ancestry, and no known block has more work than the tip. No operation of such a sequence panics
  or runs forever.\<close>

theorem chain_run_safe:
  assumes "block_hash P (genesis P) \<noteq> ZERO" and "list_all (op_ok P) ops" and "length ops < 2 ^ 64 - 2"
  shows "chain_inv P (foldl (run_op P) (new_chain P) ops) \<and>
    (op_ok P op \<longrightarrow> op_returns P (foldl (run_op P) (new_chain P) ops) op)"
  using foldl_run_op [OF new_chain_inv [OF assms(1)] heights_le_new, of ops] assms(2,3)
    run_op_step [of P "foldl (run_op P) (new_chain P) ops" "length ops" op] by simp

lemma chain_run_safe_witness:
  "chain_inv toy (foldl (run_op toy) (new_chain toy) [Apply sample_block 1750000300, Prune 1])"
  using chain_run_safe [of toy "[Apply sample_block 1750000300, Prune 1]" "Prune 0"] sample_nonzero by simp

text \<open>Restoring a checkpoint gives a chain that satisfies the invariant.\<close>

theorem checkpoint_chain_inv:
  assumes "cp_hash cp \<noteq> ZERO" and "cp_cumulative_work cp \<noteq> NaN"
  shows "chain_inv P (from_checkpoint cp) \<and> tip_height (from_checkpoint cp) = Ok (cp_height cp) \<and>
    state_at (from_checkpoint cp) (cp_hash cp) = Ok (cp_username_owner cp)"
  using from_checkpoint_inv [OF assms, of P]
  by (simp add: chain_inv_def tip_ok_def) (simp add: from_checkpoint_def tip_height_def)

lemma checkpoint_chain_inv_witness:
  "chain_inv toy (from_checkpoint \<lparr> cp_height = 5, cp_hash = Hash32 [1], cp_timestamp = 0,
     cp_difficulty_target = 0, cp_cumulative_work = Fin 5, cp_username_owner = Map.empty \<rparr>)"
proof -
  have "Hash32 [1] \<noteq> ZERO" by (simp add: ZERO_def numeral_eq_Suc)
  then show ?thesis
    using checkpoint_chain_inv [of "\<lparr> cp_height = 5, cp_hash = Hash32 [1], cp_timestamp = 0,
      cp_difficulty_target = 0, cp_cumulative_work = Fin 5, cp_username_owner = Map.empty \<rparr>" toy] by simp
qed

text \<open>C22: a block that is rejected or already known leaves the chain exactly as it was, and one
  that joins a lighter fork leaves the tip, the height index and the owners as they were.\<close>

theorem try_apply_unchanged:
  assumes "chain_inv P c" and "heights_ok c" and "block_hash P b \<noteq> ZERO" and "try_apply P c b now = (c', r)"
  shows "(r = Ok AlreadyKnown \<or> (\<exists>e. r = Err e) \<longrightarrow> c' = c) \<and>
    (r = Ok AddedToFork \<longrightarrow> tip_hash c' = tip_hash c \<and> canonical_index c' = canonical_index c \<and>
       username_owner c' = username_owner c)"
  using assms(1-3)
proof (cases rule: try_apply_cases [where now = now])
  case valid
  from assms(1-3) valid show ?thesis
    by (cases rule: try_apply_valid) (use assms(4) in \<open>auto split: if_splits\<close>)
qed (use assms(4) in auto)

lemma try_apply_unchanged_witness:
  "fst (try_apply toy (new_chain toy) (genesis toy) 0) = new_chain toy"
proof -
  have "try_apply toy (new_chain toy) (genesis toy) 0 = (fst (try_apply toy (new_chain toy) (genesis toy) 0), Ok AlreadyKnown)"
    by (simp add: try_apply_def new_chain_def Let_def)
  from try_apply_unchanged [OF sample_genesis_inv sample_heights sample_nonzero(1) this]
  show ?thesis by simp
qed

text \<open>C9: a block that extends the tip becomes the tip and only adds names: every name owned
  before keeps its owner, and the new names are exactly those the block claims.\<close>

theorem first_claim_wins:
  assumes "chain_inv P c" and "heights_ok c" and "block_hash P b \<noteq> ZERO"
    and "try_apply P c b now = (c', Ok ExtendedTip)"
  shows "tip_hash c' = block_hash P b \<and> prev_hash (header b) = tip_hash c \<and>
    username_owner c \<subseteq>\<^sub>m username_owner c' \<and>
    dom (username_owner c') = dom (username_owner c) \<union> set (map username (transactions b))"
  using assms(1-3)
proof (cases rule: try_apply_cases [where now = now])
  case valid
  from assms(1-3) valid show ?thesis
  proof (cases rule: try_apply_valid)
    case (tip w p st)
    then have parent: "prev_hash (header b) = tip_hash c" using assms(4) by (auto split: if_splits)
    moreover have "st = username_owner c" using tip(3) parent assms(1) by (simp add: chain_inv_def tip_ok_def)
    moreover have "c' = fst (try_apply P c b now)" using assms(4) by simp
    ultimately show ?thesis using tip(4,6) by (simp add: dom_apply_claims names_def)
  qed (use assms(4) in simp)
qed (use assms(4) in simp_all)

lemma first_claim_wins_witness:
  "tip_hash (fst (try_apply toy (new_chain toy) sample_block 1750000300)) = block_hash toy sample_block"
proof -
  have "try_apply toy (new_chain toy) sample_block 1750000300 =
      (fst (try_apply toy (new_chain toy) sample_block 1750000300), Ok ExtendedTip)"
    using sample_extends by (metis prod.collapse)
  from first_claim_wins [OF sample_genesis_inv sample_heights sample_nonzero(2) this]
  show ?thesis by simp
qed

lemma owner_block:
  assumes "chain_inv P c" and "username_owner c u = Some ow" and "floor_username_owner c u = None"
    and "ancestors c (tip_hash c) = Ok p"
  obtains a b tx where "a \<in> set p" and "blocks c a = Some b" and "tx \<in> set (transactions b)" and "username tx = u"
    and "verify_self_contained P tx = Ok ()" and "ow = owner_entry a b tx"
proof -
  note inv = assms(1) [unfolded chain_inv_def tip_ok_def]
  obtain a b tx where tx: "a \<in> set p" "tx \<in> set (transactions b)" "blocks c a = Some b" "username tx = u"
    "ow = owner_entry a b tx"
    using state_at_owner [of c P "tip_hash c" p "username_owner c" u ow] inv assms(2-4) by blast
  moreover have "verify_self_contained P tx = Ok ()" using inv tx by (auto simp: body_ok_def accepted_def)
  ultimately show ?thesis using that by blast
qed

text \<open>C7: every name on the canonical chain that is not part of the trusted floor snapshot is
  there because of a claim in a block of the tip's ancestry, signed under the key it names; and
  that name is claimed nowhere else on that branch.\<close>

theorem owners_signed:
  assumes "chain_inv P c" and "username_owner c u = Some ow" and "floor_username_owner c u = None"
    and "ancestors c (tip_hash c) = Ok p"
  shows "\<exists>a \<in> set p. \<exists>b. \<exists>tx \<in> set (transactions b).
    blocks c a = Some b \<and> username tx = u \<and> verify_self_contained P tx = Ok () \<and>
    ow = \<lparr> o_public_key = owner_public_key tx, o_claimed_at_height = height (header b), o_claimed_in_block = a \<rparr> \<and>
    count (mset (claims c p)) u = 1"
proof -
  note inv = assms(1) [unfolded chain_inv_def tip_ok_def]
  obtain a b tx where tx: "a \<in> set p" "blocks c a = Some b" "tx \<in> set (transactions b)" "username tx = u"
    "verify_self_contained P tx = Ok ()" "ow = owner_entry a b tx"
    by (rule owner_block [OF assms])
  have "u \<in> set (claims c p)"
  proof -
    have "dom (username_owner c) = dom (floor_username_owner c) \<union> set (claims c p)"
      using state_at_total [of c P "tip_hash c" p] inv assms(4) by auto
    moreover have "u \<in> dom (username_owner c)" using assms(2) by blast
    ultimately show ?thesis using assms(3) by auto
  qed
  moreover have "distinct (claims c p)" using inv assms(4) unfolding fresh_def by blast
  ultimately show ?thesis using tx
    by (intro bexI [of _ a] exI [of _ b] bexI [of _ tx]) (auto simp: owner_entry_def distinct_count_atmost_1)
qed

text \<open>C15: the tip never has less work than any known block, and it moves only to a block that is
  strictly heavier than the old tip.\<close>

theorem heaviest_tip:
  assumes "chain_inv P c" and "heights_ok c" and "block_hash P b \<noteq> ZERO" and "try_apply P c b now = (c', r)"
  shows "\<exists>tm tm'. meta c (tip_hash c) = Some tm \<and> meta c' (tip_hash c') = Some tm' \<and>
    (\<forall>h m. meta c' h = Some m \<longrightarrow> f64_le (m_cumulative_work m) (m_cumulative_work tm')) \<and>
    (tip_hash c' = tip_hash c \<or> f64_lt (m_cumulative_work tm) (m_cumulative_work tm'))"
proof -
  obtain tm where tm: "meta c (tip_hash c) = Some tm" using assms(1) by (auto simp: chain_inv_def heaviest_def)
  have "chain_inv P c' \<and> (\<forall>m. meta c' (tip_hash c') = Some m \<longrightarrow>
      tip_hash c' = tip_hash c \<or> f64_lt (m_cumulative_work tm) (m_cumulative_work m))"
    using assms(1-3)
  proof (cases rule: try_apply_cases [where now = now])
    case valid
    from assms(1-3) valid show ?thesis
    proof (cases rule: try_apply_valid)
      case (tip w p st)
      obtain m1 where "meta (insert_block c (block_hash P b) b w) (block_hash P b) = Some m1" "m_cumulative_work m1 = w"
        using meta_insert_block by blast
      then show ?thesis using tip tm assms(4) by auto
    qed (use assms(4) in auto)
  qed (use assms tm in auto)
  then show ?thesis using tm by (auto simp: chain_inv_def heaviest_def)
qed

text \<open>C20: pruning to a canonical height keeps the invariant, the tip and the owners, drops the
  bodies at or below that height, and changes the state of no block above the new floor.\<close>

theorem prune_preserves:
  assumes "chain_inv P c" and "prune_bodies_up_to c k = (c', r)"
  shows "r = Ok () \<and> chain_inv P c' \<and> tip_hash c' = tip_hash c \<and> username_owner c' = username_owner c \<and>
    meta c' = meta c \<and>
    (\<forall>h q. ancestors c' h = Ok q \<longrightarrow> state_at c' h = state_at c h) \<and>
    (floor_height c < k \<longrightarrow> canonical_index c k \<noteq> None \<longrightarrow>
       floor_height c' = k \<and> (\<forall>h b. blocks c' h = Some b \<longrightarrow> k < height (header b)))"
proof (cases "k \<le> floor_height c \<or> canonical_index c k = None")
  case True
  then show ?thesis using assms prune_bodies_up_to_noop [OF True] by auto
next
  case False
  then obtain nf where "canonical_index c k = Some nf" "floor_height c < k" by auto
  from prune_inv [OF assms(1) this] obtain pn st where nxt: "next_floor P c k nf pn st"
    and "prune_bodies_up_to c k = (pruned c k nf st, Ok ())" "chain_inv P (pruned c k nf st)" by metis
  then show ?thesis using assms(2) pruned_ancestors [OF nxt] by (auto simp: blocks_pruned)
qed

lemma heaviest_tip_witness:
  "\<exists>tm. meta (fst (try_apply toy (new_chain toy) sample_block 0)) (tip_hash (fst (try_apply toy (new_chain toy) sample_block 0))) = Some tm"
  using heaviest_tip [OF sample_genesis_inv sample_heights sample_nonzero(2), of 0] by (metis prod.collapse)

lemma owners_signed_witness:
  "\<exists>a b tx. blocks (fst (try_apply toy (new_chain toy) sample_block 1750000300)) a = Some b \<and>
     tx \<in> set (transactions b) \<and> username tx = ascii ''alice'' \<and> verify_self_contained toy tx = Ok ()"
proof -
  let ?c = "fst (try_apply toy (new_chain toy) sample_block 1750000300)"
  have run: "chain_inv toy ?c"
    using try_apply_step [OF sample_genesis_inv heights_le_new _ sample_nonzero(2)] by simp
  from sample_genesis_inv sample_heights sample_nonzero(2) sample_new sample_valid
  have "username_owner ?c (ascii ''alice'') \<noteq> None \<and> floor_username_owner ?c (ascii ''alice'') = None"
  proof (cases rule: try_apply_valid)
    case (tip w p st)
    have "ascii ''alice'' \<in> set (names sample_block)" by (simp add: names_def sample_block_def sample_tx_fields)
    from apply_claims_found [OF this] tip show ?thesis by (simp add: new_chain_def Let_def) (metis option.distinct(1))
  qed (use sample_extends in simp_all)
  moreover obtain p where "ancestors ?c (tip_hash ?c) = Ok p" using run by (auto simp: chain_inv_def tip_ok_def)
  ultimately show ?thesis using owners_signed [OF run] by blast
qed

lemma prune_preserves_witness:
  "username_owner (fst (prune_bodies_up_to (new_chain toy) 1)) = username_owner (new_chain toy)"
  using prune_preserves [OF sample_genesis_inv, of 1] by (metis prod.collapse)

text \<open>C23: the mempool filter accepts exactly the claims that a block extending the tip could
  carry on its own.\<close>

theorem mempool_filter_exact:
  assumes "chain_inv P c" and "ancestors c (tip_hash c) = Ok p"
  shows "is_valid_for_mempool P c tx hgt = Ok True \<longleftrightarrow>
    check_claims P c hgt (username_owner c) (set p) {} [tx] = Ok ()"
proof -
  have st: "state_at c (tip_hash c) = Ok (username_owner c)" using assms(1) by (simp add: chain_inv_def tip_ok_def)
  show ?thesis
    unfolding check_claims_Cons claim_ok_def
    by (cases "verify_self_contained P tx") (auto simp: is_valid_for_mempool_def assms(2) st get_meta_def not_less split: option.splits)
qed

lemma mempool_filter_exact_witness: "is_valid_for_mempool toy (new_chain toy) sample_tx 1 = Ok True"
proof -
  have p: "ancestors (new_chain toy) (tip_hash (new_chain toy)) = Ok [block_hash toy (genesis toy)]"
    using ancestors_floor [of "new_chain toy"] sample_meta by (simp add: sample_floor domI)
  have "username_owner (new_chain toy) = Map.empty" by (simp add: new_chain_def Let_def)
  then show ?thesis
    unfolding mempool_filter_exact [OF sample_genesis_inv p] check_claims_Cons claim_ok_def
    using sample_tx_verifies by (simp add: sample_tx_fields sample_meta ANCHOR_MAX_AGE_BLOCKS_def)
qed


end
