(* ===== verification/Store.thy ===== *)
theory Store
  imports Chain_Run
begin

text \<open>
  \<^verbatim>\<open>packages/ledger-core/src/store.rs\<close>: the chain together with the tables it is persisted in. A
  table is a partial function; \<^verbatim>\<open>redb\<close> write transactions are atomic, so a step either commits or
  (when the database reports an error, the Boolean argument) leaves the tables as they were.
  Values are kept decoded: \<^verbatim>\<open>bincode\<close> is used only as a serializer and its inverse.
\<close>

definition RETENTION_WINDOW_BLOCKS :: nat where
  "RETENTION_WINDOW_BLOCKS = 2016"

record Database =
  t_blocks :: "bytes \<rightharpoonup> Block"
  t_headers :: "bytes \<rightharpoonup> BlockMeta"
  t_canonical_heights :: "nat \<rightharpoonup> bytes"
  t_tip_hash :: "bytes option"
  t_checkpoint :: "Checkpoint option"
  t_max_height :: "bytes option"

definition empty_database :: Database where
  "empty_database = \<lparr> t_blocks = Map.empty, t_headers = Map.empty, t_canonical_heights = Map.empty,
     t_tip_hash = None, t_checkpoint = None, t_max_height = None \<rparr>"

record ChainStore =
  db :: Database
  chain :: Chain

definition storage_error :: LedgerError where
  "storage_error = Storage ''database''"

definition hash_from_slice :: "bytes \<Rightarrow> (LedgerError, Hash32) res" where
  "hash_from_slice bs =
     (if length bs = 32 then Ok (Hash32 bs) else Err (Storage ''corrupt 32-byte hash''))"

text \<open>\<^verbatim>\<open>try_into().unwrap_or_default()\<close> and \<^verbatim>\<open>u64::from_le_bytes\<close>.\<close>

definition read_max_height :: "bytes option \<Rightarrow> nat" where
  "read_max_height v = (case v of None \<Rightarrow> 0 | Some bs \<Rightarrow> if length bs = 8 then of_le bs else 0)"

fun write_heights :: "nat \<Rightarrow> nat \<Rightarrow> Hash32 list \<Rightarrow> (nat \<rightharpoonup> bytes) \<Rightarrow> (nat \<rightharpoonup> bytes)" where
  "write_heights base offset [] t = t"
| "write_heights base offset (h # hs) t =
     write_heights base (Suc offset) hs (t(u64_add base offset \<mapsto> hash_bytes h))"

definition remove_heights :: "nat \<Rightarrow> nat \<Rightarrow> (nat \<rightharpoonup> bytes) \<Rightarrow> (nat \<rightharpoonup> bytes)" where
  "remove_heights lo hi t = (\<lambda>k. if lo \<le> k \<and> k \<le> hi then None else t k)"

definition persist_after_apply ::
  "Primitives \<Rightarrow> bool \<Rightarrow> ChainStore \<Rightarrow> Block \<Rightarrow> ChainStore \<times> (LedgerError, unit) res" where
  "persist_after_apply P io s b =
     (let hash = block_hash P b; c = chain s in
      case (get_meta c hash, ancestors c (tip_hash c), tip_height c) of
        (Some m, Ok canonical_hashes, Ok new_tip_height) \<Rightarrow>
          if \<not> io then (s, Err storage_error)
          else
            let d = db s;
                previous_max_height = read_max_height (t_max_height d);
                heights = remove_heights (u64_add new_tip_height 1) previous_max_height
                  (write_heights (floor_height c) 0 canonical_hashes (t_canonical_heights d)) in
            (s\<lparr>db := d\<lparr>t_blocks := (t_blocks d)(hash_bytes hash \<mapsto> b),
                        t_headers := (t_headers d)(hash_bytes hash \<mapsto> m),
                        t_canonical_heights := heights,
                        t_max_height := Some (le_bytes 8 (max new_tip_height previous_max_height)),
                        t_tip_hash := Some (hash_bytes (tip_hash c))\<rparr>\<rparr>, Ok ())
      | (None, _, _) \<Rightarrow> (s, Panic)
      | (_, Err _, _) \<Rightarrow> (s, Panic)
      | (_, Diverge, _) \<Rightarrow> (s, Diverge)
      | _ \<Rightarrow> (s, Panic))"

definition store_try_apply ::
  "Primitives \<Rightarrow> bool \<Rightarrow> ChainStore \<Rightarrow> Block \<Rightarrow> nat \<Rightarrow> ChainStore \<times> (LedgerError, ApplyOutcome) res" where
  "store_try_apply P io s b now =
     (case try_apply P (chain s) b now of
        (c', Ok outcome) \<Rightarrow>
          let s1 = s\<lparr>chain := c'\<rparr> in
          if outcome \<noteq> AlreadyKnown then
            (case persist_after_apply P io s1 b of
               (s2, Ok _) \<Rightarrow> (s2, Ok outcome)
             | (s2, Err e) \<Rightarrow> (s2, Err e)
             | (s2, Panic) \<Rightarrow> (s2, Panic)
             | (s2, Diverge) \<Rightarrow> (s2, Diverge))
          else (s1, Ok outcome)
      | (c', Err e) \<Rightarrow> (s\<lparr>chain := c'\<rparr>, Err e)
      | (c', Panic) \<Rightarrow> (s\<lparr>chain := c'\<rparr>, Panic)
      | (c', Diverge) \<Rightarrow> (s\<lparr>chain := c'\<rparr>, Diverge))"

text \<open>The replay loop of \<open>restore\<close>, upwards from the floor until a height has no entry.\<close>

partial_function (option) restore_loop ::
  "Primitives \<Rightarrow> Database \<Rightarrow> Chain \<Rightarrow> nat \<Rightarrow> (LedgerError, Chain) res option" where
  "restore_loop P d c k =
     (case t_canonical_heights d k of
        None \<Rightarrow> Some (Ok c)
      | Some hb \<Rightarrow>
          (case hash_from_slice hb of
             Ok h \<Rightarrow>
               (case t_blocks d (hash_bytes h) of
                  None \<Rightarrow> Some (Err (UnknownBlock h))
                | Some b \<Rightarrow>
                    (case try_apply P c b (timestamp (header b)) of
                       (c', Ok _) \<Rightarrow> restore_loop P d c' (u64_add k 1)
                     | (c', Err e) \<Rightarrow> Some (Err e)
                     | (c', Panic) \<Rightarrow> Some Panic
                     | (c', Diverge) \<Rightarrow> None))
           | Err e \<Rightarrow> Some (Err e)
           | _ \<Rightarrow> Some Panic))"

definition restore :: "Primitives \<Rightarrow> Database \<Rightarrow> (LedgerError, Chain) res" where
  "restore P d =
     (let c = (case t_checkpoint d of Some cp \<Rightarrow> from_checkpoint cp | None \<Rightarrow> new_chain P) in
      case restore_loop P d c (u64_add (floor_height c) 1) of None \<Rightarrow> Diverge | Some r \<Rightarrow> r)"

definition open_store :: "Primitives \<Rightarrow> bool \<Rightarrow> Database \<Rightarrow> (LedgerError, ChainStore) res" where
  "open_store P io d =
     bind_res (case t_tip_hash d of None \<Rightarrow> Ok (new_chain P) | Some _ \<Rightarrow> restore P d) (\<lambda>c.
       let s = \<lparr> db = d, chain = c \<rparr> in
       if t_tip_hash d = None then
         (case persist_after_apply P io s (genesis P) of
            (s', Ok _) \<Rightarrow> Ok s' | (s', Err e) \<Rightarrow> Err e | (s', Panic) \<Rightarrow> Panic | (s', Diverge) \<Rightarrow> Diverge)
       else Ok s)"

definition tip_cumulative_work :: "ChainStore \<Rightarrow> (LedgerError, f64) res" where
  "tip_cumulative_work s =
     bind_res (expect (get_meta (chain s) (tip_hash (chain s)))) (\<lambda>m. Ok (m_cumulative_work m))"

definition store_expected_difficulty :: "ChainStore \<Rightarrow> (LedgerError, CompactTarget) res" where
  "store_expected_difficulty s = expected_difficulty (chain s) (tip_hash (chain s))"

definition store_median_time_past :: "ChainStore \<Rightarrow> (LedgerError, nat) res" where
  "store_median_time_past s = median_time_past (chain s) (tip_hash (chain s))"

definition is_valid_candidate_transaction ::
  "Primitives \<Rightarrow> ChainStore \<Rightarrow> Transaction \<Rightarrow> nat \<Rightarrow> (LedgerError, bool) res" where
  "is_valid_candidate_transaction P s tx hgt = is_valid_for_mempool P (chain s) tx hgt"

text \<open>The two transactions of a prune: the checkpoint first, the bodies only once it is durable.\<close>

definition prune_with_retention ::
  "bool \<Rightarrow> bool \<Rightarrow> ChainStore \<Rightarrow> nat \<Rightarrow> ChainStore \<times> (LedgerError, unit) res" where
  "prune_with_retention io1 io2 s retention =
     (case tip_height (chain s) of
        Ok tip \<Rightarrow>
          if tip < retention then (s, Ok ())
          else
            let k = tip - retention in
            if k \<le> floor_height (chain s) then (s, Ok ())
            else
              (case checkpoint_at (chain s) k of
                 Ok cp \<Rightarrow>
                   if \<not> io1 then (s, Err storage_error)
                   else
                     let s1 = s\<lparr>db := (db s)\<lparr>t_checkpoint := Some cp\<rparr>\<rparr>;
                         (c', r) = prune_bodies_up_to (chain s1) k;
                         s2 = s1\<lparr>chain := c'\<rparr> in
                     (case r of
                        Ok _ \<Rightarrow>
                          if \<not> io2 then (s2, Err storage_error)
                          else (s2\<lparr>db := (db s2)\<lparr>t_blocks := (\<lambda>hb. case t_blocks (db s2) hb of
                                  None \<Rightarrow> None
                                | Some b \<Rightarrow>
                                    if height (header b) \<le> k \<and> length hb = 32 then None else Some b)\<rparr>\<rparr>, Ok ())
                      | Err e \<Rightarrow> (s2, Err e) | Panic \<Rightarrow> (s2, Panic) | Diverge \<Rightarrow> (s2, Diverge))
               | Err e \<Rightarrow> (s, Err e) | Panic \<Rightarrow> (s, Panic) | Diverge \<Rightarrow> (s, Diverge))
      | Err e \<Rightarrow> (s, Err e) | Panic \<Rightarrow> (s, Panic) | Diverge \<Rightarrow> (s, Diverge))"

definition store_prune :: "bool \<Rightarrow> bool \<Rightarrow> ChainStore \<Rightarrow> ChainStore \<times> (LedgerError, unit) res" where
  "store_prune io1 io2 s = prune_with_retention io1 io2 s RETENTION_WINDOW_BLOCKS"

subsection \<open>A chain within a chain\<close>

text \<open>What is known of a block depends on its ancestry only: a chain that holds part of another,
  closed under parents down to the same floor, agrees with it on every block it holds.\<close>

definition subchain :: "Chain \<Rightarrow> Chain \<Rightarrow> bool" where
  "subchain r c \<longleftrightarrow> floor_hash r = floor_hash c \<and> floor_height r = floor_height c \<and>
     floor_username_owner r = floor_username_owner c \<and> meta r \<subseteq>\<^sub>m meta c \<and> blocks r \<subseteq>\<^sub>m blocks c"

lemma subchain_meta: "subchain r c \<Longrightarrow> meta r h = Some m \<Longrightarrow> meta c h = Some m"
  unfolding subchain_def map_le_def by (metis domI)

lemma subchain_blocks: "subchain r c \<Longrightarrow> blocks r h = Some b \<Longrightarrow> blocks c h = Some b"
  unfolding subchain_def map_le_def by (metis domI)

lemma subchain_ancestors:
  assumes "subchain r c" and "linked r" and "linked c" and "meta r h = Some m"
  shows "ancestors r h = ancestors c h"
  using assms(2,4)
proof (induction rule: chain_induct)
  case (root h m)
  have "ancestors r ZERO = ancestors c ZERO" by (simp only: ancestors_ZERO assms)
  then show ?case using root subchain_meta [OF assms(1) root(1)] assms(1)
    by (subst (1 2) ancestors_step) (simp add: subchain_def)
next
  case (child h m pm)
  then show ?case using subchain_meta [OF assms(1) child.hyps(1)] assms(1)
    by (subst (1 2) ancestors_step) (simp add: subchain_def)
qed

lemma replay_cong':
  "(\<And>a. a \<in> set as \<Longrightarrow> a \<noteq> floor_hash c \<Longrightarrow> blocks c' a = blocks c a) \<Longrightarrow> floor_hash c' = floor_hash c \<Longrightarrow>
    replay c' as st = replay c as st"
  by (induction as arbitrary: st) (auto intro!: bind_res_cong)

lemma subchain_state:
  assumes "subchain r c" and "linked r" "floored r" "body_ok P r" and "linked c" and "meta r h = Some m"
  shows "state_at r h = state_at c h"
proof (cases "ancestors r h")
  case (Ok p)
  have "blocks c a = blocks r a" if a: "a \<in> set p" "a \<noteq> floor_hash r" for a
  proof -
    obtain ma where "meta r a = Some ma" "floor_height r < m_height ma"
      using ancestors_set_known [OF assms(2,3) Ok a(1)] a(2) by blast
    then obtain b where "blocks r a = Some b" using assms(4) unfolding body_ok_def by blast
    then show ?thesis using subchain_blocks [OF assms(1)] by simp
  qed
  then have "replay c p st = replay r p st" for st
    using assms(1) by (intro replay_cong') (simp_all add: subchain_def)
  then show ?thesis
    using Ok subchain_ancestors [OF assms(1,2,5,6)] assms(1) by (simp add: state_at_def subchain_def)
qed (simp_all add: state_at_def flip: subchain_ancestors [OF assms(1,2,5,6)])

lemma subchain_known_path:
  assumes "subchain r c" and "linked r" "floored r" and "ancestors r h = Ok p" and "a \<in> set p"
  shows "meta r a = meta c a"
  using ancestors_set_known [OF assms(2-5)] subchain_meta [OF assms(1)] by auto

lemma subchain_median:
  assumes "subchain r c" and "linked r" "floored r" and "linked c" and "meta r h = Some m"
  shows "median_time_past r h = median_time_past c h"
proof (cases "ancestors r h")
  case (Ok p)
  have "map_res (meta_timestamp r) (drop k p) = map_res (meta_timestamp c) (drop k p)" for k
    using subchain_known_path [OF assms(1-3) Ok] in_set_dropD
    by (intro map_res_cong) (fastforce simp: meta_timestamp_def)+
  then show ?thesis using Ok by (simp add: median_time_past_def flip: subchain_ancestors [OF assms(1,2,4,5)])
qed (simp_all add: median_time_past_def flip: subchain_ancestors [OF assms(1,2,4,5)])

lemma subchain_expected_difficulty:
  assumes "subchain r c" and "linked r" "floored r" and "linked c" and "meta r h = Some m"
  shows "expected_difficulty r h = expected_difficulty c h"
proof -
  have m: "meta c h = Some m" by (rule subchain_meta [OF assms(1,5)])
  have fl: "floor_height c = floor_height r" using assms(1) by (simp add: subchain_def)
  show ?thesis
  proof (cases "ancestors r h")
    case (Ok p)
    have "i < length p \<Longrightarrow> meta c (p ! i) = meta r (p ! i)" for i
      using subchain_known_path [OF assms(1-3) Ok] by simp
    then show ?thesis using Ok m assms(5) fl
      by (simp add: expected_difficulty_def Let_def flip: subchain_ancestors [OF assms(1,2,4,5)])
  qed (simp_all add: expected_difficulty_def Let_def m assms(5) fl flip: subchain_ancestors [OF assms(1,2,4,5)])
qed

lemma check_claims_cong:
  assumes "\<And>a. a \<in> anc \<Longrightarrow> meta c' a = meta c a"
  shows "check_claims P c' hgt ps anc claimed txs = check_claims P c hgt ps anc claimed txs"
  using assms
  by (induction txs arbitrary: claimed) (auto simp: get_meta_def guard_def intro!: bind_res_cong)

lemma subchain_validate:
  assumes sub: "subchain r c" and r: "linked r" "floored r" "body_ok P r" and c: "linked c"
    and m: "meta r (prev_hash (header b)) = Some m"
  shows "validate_block P r b now = validate_block P c b now"
proof -
  have txs: "validate_transactions P r b = validate_transactions P c b"
  proof (cases "ancestors r (prev_hash (header b))")
    case (Ok p)
    have "check_claims P r hgt ps (set p) {} txs = check_claims P c hgt ps (set p) {} txs" for hgt ps txs
      using subchain_known_path [OF sub r(1,2) Ok] by (intro check_claims_cong) simp
    then show ?thesis
      unfolding validate_transactions_def
      by (simp only: Ok bind_res.simps flip: subchain_ancestors [OF sub r(1) c m] subchain_state [OF sub r c m])
  qed (simp_all add: validate_transactions_def flip: subchain_ancestors [OF sub r(1) c m] subchain_state [OF sub r c m])
  have meta: "get_meta r (prev_hash (header b)) = get_meta c (prev_hash (header b))"
    using m subchain_meta [OF sub m] by (simp add: get_meta_def)
  show ?thesis
    unfolding validate_block_def meta txs subchain_expected_difficulty [OF sub r(1,2) c m]
      subchain_median [OF sub r(1,2) c m] ..
qed

lemma subchain_insert:
  assumes "meta c hash = None" and "blocks c hash = None"
  shows "subchain c (insert_block c hash b w)"
  using assms by (auto simp: subchain_def insert_block_def map_le_def)

text \<open>The present time enters only through the drift limit.\<close>

lemma validate_block_at_own_time:
  assumes "validate_block P c b now = Ok ()" and "timestamp (header b) + MAX_FUTURE_DRIFT_SECS < 2 ^ 64"
  shows "validate_block P c b (timestamp (header b)) = Ok ()"
proof -
  have "timestamp (header b) \<le> u64_add (timestamp (header b)) MAX_FUTURE_DRIFT_SECS" using assms(2) by simp
  with assms(1) show ?thesis unfolding validate_block_def by (simp add: bind_res_Ok del: u64_add_exact) blast
qed

subsection \<open>Chains grown from genesis\<close>

definition block_meta :: "Block \<Rightarrow> f64 \<Rightarrow> BlockMeta" where
  "block_meta b w = \<lparr> m_height = height (header b), m_prev_hash = prev_hash (header b),
     m_timestamp = timestamp (header b), m_difficulty_target = difficulty_target (header b), m_cumulative_work = w \<rparr>"

text \<open>Every stored block above the floor was valid where it stands, and its metadata says so.\<close>

definition history :: "Primitives \<Rightarrow> Chain \<Rightarrow> bool" where
  "history P c \<longleftrightarrow> (\<forall>h b. blocks c h = Some b \<longrightarrow> h \<noteq> floor_hash c \<longrightarrow>
     validate_block P c b (timestamp (header b)) = Ok () \<and> meta c h = Some (block_meta b (new_work c b)))"

text \<open>The tip is strictly heavier than the blocks it stands on.\<close>

definition tip_tops :: "Chain \<Rightarrow> bool" where
  "tip_tops c \<longleftrightarrow> (\<forall>p a m tm. ancestors c (tip_hash c) = Ok p \<longrightarrow> a \<in> set p \<longrightarrow> a \<noteq> tip_hash c \<longrightarrow>
     meta c a = Some m \<longrightarrow> meta c (tip_hash c) = Some tm \<longrightarrow>
     f64_lt (m_cumulative_work m) (m_cumulative_work tm))"

definition grown :: "Primitives \<Rightarrow> Chain \<Rightarrow> bool" where
  "grown P c \<longleftrightarrow> chain_inv P c \<and> subchain (new_chain P) c \<and> history P c \<and> tip_tops c"

lemma grown_facts:
  assumes "grown P c"
  shows "linked c" "floored c" "body_ok P c" "fresh c" "tip_ok c" "heaviest c"
    "floor_hash c = block_hash P (genesis P)" "floor_height c = 0" "floor_username_owner c = Map.empty"
  using assms by (auto simp: grown_def chain_inv_def subchain_def) (simp_all add: new_chain_def Let_def)

lemma insert_block_meta: "meta (insert_block c hash b w) = (meta c)(hash \<mapsto> block_meta b w)"
  by (simp add: insert_block_def block_meta_def)

lemma new_work_subchain:
  "subchain r c \<Longrightarrow> meta r (prev_hash (header b)) = Some m \<Longrightarrow> new_work r b = new_work c b"
  using subchain_meta [of r c "prev_hash (header b)" m] by (simp add: new_work_def)

lemma subchain_trans: "subchain a b \<Longrightarrow> subchain b c \<Longrightarrow> subchain a c"
  unfolding subchain_def by (metis map_le_trans)

lemma body_ok_unknown: "body_ok P c \<Longrightarrow> meta c h = None \<Longrightarrow> blocks c h = None"
  unfolding body_ok_def by (metis not_None_eq option.distinct(1))

lemma grown_new: "block_hash P (genesis P) \<noteq> ZERO \<Longrightarrow> grown P (new_chain P)"
proof -
  assume "block_hash P (genesis P) \<noteq> ZERO"
  then have inv: "chain_inv P (new_chain P)" by (rule new_chain_inv)
  have fl: "floor_hash (new_chain P) = block_hash P (genesis P)" "tip_hash (new_chain P) = floor_hash (new_chain P)"
    by (simp_all add: new_chain_def Let_def)
  have "blocks (new_chain P) h = Some b \<Longrightarrow> h = floor_hash (new_chain P)" for h b
    by (simp add: new_chain_def Let_def split: if_splits)
  then have "history P (new_chain P)" by (auto simp: history_def)
  moreover have "ancestors (new_chain P) (floor_hash (new_chain P)) = Ok [floor_hash (new_chain P)]"
    using inv by (intro ancestors_floor) (auto simp: chain_inv_def floored_def)
  then have "tip_tops (new_chain P)" by (auto simp: tip_tops_def fl(2))
  ultimately show ?thesis using inv by (simp add: grown_def subchain_def)
qed

lemma history_insert:
  assumes hist: "history P c" and i: "linked c" "floored c" "body_ok P c"
    and valid: "validate_block P c b now = Ok ()" and ts: "timestamp (header b) + MAX_FUTURE_DRIFT_SECS < 2 ^ 64"
    and c1: "subchain c c1" "linked c1" "blocks c1 = (blocks c)(hash \<mapsto> b)"
      "meta c1 = (meta c)(hash \<mapsto> block_meta b (new_work c b))"
  shows "history P c1"
  unfolding history_def
proof (intro allI impI)
  fix h b' assume h: "blocks c1 h = Some b'" "h \<noteq> floor_hash c1"
  have fl: "floor_hash c1 = floor_hash c" using c1(1) by (simp add: subchain_def)
  have "validate_block P c b' (timestamp (header b')) = Ok () \<and> meta c1 h = Some (block_meta b' (new_work c b'))"
  proof (cases "h = hash")
    case True
    then show ?thesis using h validate_block_at_own_time [OF valid ts] by (simp add: c1)
  next
    case False
    then have "blocks c h = Some b'" "h \<noteq> floor_hash c" using h by (simp_all add: c1 fl)
    then show ?thesis using hist False unfolding history_def by (simp add: c1)
  qed
  moreover from this obtain m where m: "meta c (prev_hash (header b')) = Some m" using validate_block_OkD by metis
  moreover have "validate_block P c b' (timestamp (header b')) = validate_block P c1 b' (timestamp (header b'))"
    by (rule subchain_validate [OF c1(1) i c1(2) m])
  ultimately show "validate_block P c1 b' (timestamp (header b')) = Ok () \<and> meta c1 h = Some (block_meta b' (new_work c1 b'))"
    using new_work_subchain [OF c1(1) m] by simp
qed

lemma tip_tops_fork:
  assumes "tip_tops c" and "linked c" "floored c" and "meta c hash = None" and "meta c (tip_hash c) = Some tm"
    and "ancestors (insert_block c hash b w) (tip_hash c) = ancestors c (tip_hash c)"
  shows "tip_tops (insert_block c hash b w)"
  unfolding tip_tops_def insert_block_simps
proof (intro allI impI)
  fix p a m tm'
  assume p: "ancestors (insert_block c hash b w) (tip_hash c) = Ok p" and a: "a \<in> set p" "a \<noteq> tip_hash c"
    and m: "meta (insert_block c hash b w) a = Some m" "meta (insert_block c hash b w) (tip_hash c) = Some tm'"
  have p': "ancestors c (tip_hash c) = Ok p" using p assms(6) by simp
  have "a \<noteq> hash" using ancestors_set_known [OF assms(2,3) p' a(1)] assms(4) by auto
  moreover have "tip_hash c \<noteq> hash" using assms(4,5) by auto
  ultimately show "f64_lt (m_cumulative_work m) (m_cumulative_work tm')"
    using assms(1) p' a m unfolding tip_tops_def by simp
qed

lemma f64_le_lt_trans: "f64_le x y \<Longrightarrow> f64_lt y z \<Longrightarrow> f64_lt x z"
  by (cases x; cases y; cases z) simp_all

lemma grown_step:
  assumes g: "grown P c" and heights: "heights_ok c" and nz: "block_hash P b \<noteq> ZERO"
    and ts: "timestamp (header b) + MAX_FUTURE_DRIFT_SECS < 2 ^ 64"
  shows "grown P (fst (try_apply P c b now))"
proof -
  note f = grown_facts [OF g]
  have inv: "chain_inv P c" and gen: "subchain (new_chain P) c" and hist: "history P c" and tops: "tip_tops c"
    using g by (simp_all add: grown_def)
  from inv heights nz show ?thesis
  proof (cases rule: try_apply_cases [where now = now])
    case valid
    let ?hash = "block_hash P b"
    have nb: "blocks c ?hash = None" by (rule body_ok_unknown [OF f(3) valid(1)])
    have sub: "subchain c (insert_block c ?hash b w)" for w by (rule subchain_insert [OF valid(1) nb])
    obtain tm where tm: "meta c (tip_hash c) = Some tm" using f(6) by (auto simp: heaviest_def)
    then have tne: "tip_hash c \<noteq> ?hash" using valid(1) by auto
    from inv heights nz valid show ?thesis
    proof (cases rule: try_apply_valid)
      case (fork w)
      have "linked (insert_block c ?hash b w)" using fork(3) by (simp add: chain_inv_def)
      then have "history P (insert_block c ?hash b w)"
        using sub by (intro history_insert [OF hist f(1-3) valid(2) ts]) (simp_all add: insert_block_meta fork(1))
      moreover have "tip_tops (insert_block c ?hash b w)"
        by (rule tip_tops_fork [OF tops f(1,2) valid(1) tm ancestors_insert_other [OF f(1) valid(1) nz tne]])
      ultimately show ?thesis using fork subchain_trans [OF gen sub] by (simp add: grown_def)
    next
      case (tip w p st)
      let ?c = "fst (try_apply P c b now)"
      have c: "?c = (insert_block c ?hash b w)\<lparr>canonical_index := index_from (floor_height c) 0 (p @ [?hash]) Map.empty,
          username_owner := apply_claims ?hash b st, tip_hash := ?hash\<rparr>" using tip(6) by simp
      have sub': "subchain c ?c" using sub [of w] by (simp add: c subchain_def)
      have m: "meta ?c = (meta c)(?hash \<mapsto> block_meta b w)" by (simp add: c insert_block_meta)
      have "history P ?c"
        using sub' tip(7) by (intro history_insert [OF hist f(1-3) valid(2) ts])
          (simp_all add: m tip(1) chain_inv_def, simp_all add: c)
      moreover have "tip_tops ?c"
        unfolding tip_tops_def
      proof (intro allI impI)
        fix q a ma tm' assume a: "a \<noteq> tip_hash ?c" "meta ?c a = Some ma" "meta ?c (tip_hash ?c) = Some tm'"
        have t: "tip_hash ?c = ?hash" by (simp add: c)
        then have "meta c a = Some ma" "m_cumulative_work tm' = w" using a by (auto simp: m block_meta_def)
        then have "f64_le (m_cumulative_work ma) (m_cumulative_work tm)" using f(6) tm by (auto simp: heaviest_def)
        then show "f64_lt (m_cumulative_work ma) (m_cumulative_work tm')"
          using tip(5) tm \<open>m_cumulative_work tm' = w\<close> f64_le_lt_trans by blast
      qed
      ultimately show ?thesis using tip(7) subchain_trans [OF gen sub'] by (simp add: grown_def)
    qed
  qed (use g in simp_all)
qed

subsection \<open>What the tables hold\<close>

definition tables_hold :: "Chain \<Rightarrow> Database \<Rightarrow> bool" where
  "tables_hold c d \<longleftrightarrow> t_checkpoint d = None \<and> t_tip_hash d \<noteq> None \<and>
     (\<forall>h b. blocks c h = Some b \<longrightarrow> h \<noteq> floor_hash c \<longrightarrow> t_blocks d (hash_bytes h) = Some b) \<and>
     (\<exists>p. ancestors c (tip_hash c) = Ok p \<and> length p \<le> Suc (read_max_height (t_max_height d)) \<and>
        (\<forall>k. t_canonical_heights d k = (if k < length p then Some (hash_bytes (p ! k)) else None)))"

lemma read_max_height_written: "n < 2 ^ 64 \<Longrightarrow> read_max_height (Some (le_bytes 8 n)) = n"
  by (simp add: read_max_height_def of_le_le_bytes del: le_bytes_numeral)

lemma read_max_height_bound: "read_max_height v < 2 ^ 64"
proof -
  have "of_le bs < 2 ^ 64" if "length bs = 8" for bs
    using of_be_bound [of "rev bs"] that by (simp add: of_be_def)
  then show ?thesis by (simp add: read_max_height_def split: option.split)
qed

lemma write_heights_eq:
  "base + offset + length hs \<le> 2 ^ 64 \<Longrightarrow>
    write_heights base offset hs t k =
      (if base + offset \<le> k \<and> k < base + offset + length hs then Some (hash_bytes (hs ! (k - base - offset))) else t k)"
proof (induction hs arbitrary: offset t)
  case (Cons h hs)
  then have "u64_add base offset = base + offset" by simp
  with Cons show ?case by (auto simp: nth_Cons' Suc_le_eq)
qed auto

lemma persist_after_apply_Ok:
  assumes "meta c (block_hash P b) = Some m" and "ancestors c (tip_hash c) = Ok p" and "tip_height c = Ok n"
    and "chain s = c"
  shows "persist_after_apply P True s b =
    (s\<lparr>db := (db s)\<lparr>t_blocks := (t_blocks (db s))(hash_bytes (block_hash P b) \<mapsto> b),
        t_headers := (t_headers (db s))(hash_bytes (block_hash P b) \<mapsto> m),
        t_canonical_heights := remove_heights (u64_add n 1) (read_max_height (t_max_height (db s)))
          (write_heights (floor_height c) 0 p (t_canonical_heights (db s))),
        t_max_height := Some (le_bytes 8 (max n (read_max_height (t_max_height (db s))))),
        t_tip_hash := Some (hash_bytes (tip_hash c))\<rparr>\<rparr>, Ok ())"
  using assms by (simp add: persist_after_apply_def Let_def get_meta_def)

lemma tip_height_path:
  assumes "grown P c" and "ancestors c (tip_hash c) = Ok p"
  shows "tip_height c = Ok (length p - 1) \<and> p \<noteq> []"
proof -
  obtain tm where tm: "meta c (tip_hash c) = Some tm" using ancestors_Ok_known [OF assms(2)] by blast
  have "m_height tm + 1 = length p \<and> p \<noteq> []"
    using ancestors_shape [OF grown_facts(1,2) [OF assms(1)] tm assms(2)] grown_facts(8) [OF assms(1)] by simp
  then have "m_height tm = length p - 1" and "p \<noteq> []" by (metis add_diff_cancel_right', simp)
  then show ?thesis using tm by (simp add: tip_height_def)
qed

text \<open>Persisting after an accepted block brings the tables up to date with the chain.\<close>

lemma persist_tables:
  assumes g: "grown P c" and heights: "heights_ok c"
    and blk: "blocks c (block_hash P b) = Some b"
    and old: "t_checkpoint d = None"
      "\<And>h b'. blocks c h = Some b' \<Longrightarrow> h \<noteq> floor_hash c \<Longrightarrow> h \<noteq> block_hash P b \<Longrightarrow> t_blocks d (hash_bytes h) = Some b'"
      "\<And>k. read_max_height (t_max_height d) < k \<Longrightarrow> t_canonical_heights d k = None"
  shows "\<exists>d'. persist_after_apply P True \<lparr>db = d, chain = c\<rparr> b = (\<lparr>db = d', chain = c\<rparr>, Ok ()) \<and> tables_hold c d'"
proof -
  note f = grown_facts [OF g]
  obtain p where p: "ancestors c (tip_hash c) = Ok p" using f(5) by (auto simp: tip_ok_def)
  obtain m where m: "meta c (block_hash P b) = Some m" using f(3) blk unfolding body_ok_def by blast
  have tip: "tip_height c = Ok (length p - 1)" and ne: "p \<noteq> []" using tip_height_path [OF g p] by simp_all
  obtain tm where "meta c (tip_hash c) = Some tm" "m_height tm = length p - 1"
    using tip by (auto simp: tip_height_def bind_res_Ok)
  then have bound: "length p - 1 < 2 ^ 64 - 1" using heights unfolding heights_ok_def by metis
  let ?max = "read_max_height (t_max_height d)"
  have suc: "u64_add (length p - 1) 1 = length p" using bound ne by (subst u64_add_exact) auto
  let ?t = "remove_heights (length p) ?max (write_heights 0 0 p (t_canonical_heights d))"
  have hts: "?t k = (if k < length p then Some (hash_bytes (p ! k)) else None)" for k
    using write_heights_eq [of 0 0 p "t_canonical_heights d" k] bound old(3) [of k] by (auto simp: remove_heights_def)
  have max: "read_max_height (Some (le_bytes 8 (max (length p - 1) ?max))) = max (length p - 1) ?max"
    using bound read_max_height_bound [of "t_max_height d"] by (intro read_max_height_written) simp
  let ?d = "d\<lparr>t_blocks := (t_blocks d)(hash_bytes (block_hash P b) \<mapsto> b),
      t_headers := (t_headers d)(hash_bytes (block_hash P b) \<mapsto> m), t_canonical_heights := ?t,
      t_max_height := Some (le_bytes 8 (max (length p - 1) ?max)), t_tip_hash := Some (hash_bytes (tip_hash c))\<rparr>"
  have "persist_after_apply P True \<lparr>db = d, chain = c\<rparr> b = (\<lparr>db = ?d, chain = c\<rparr>, Ok ())"
    using persist_after_apply_Ok [OF m p tip, of "\<lparr>db = d, chain = c\<rparr>"]
    by (simp only: suc f(8) ChainStore.simps simp_thms)
  moreover have "tables_hold c ?d"
    unfolding tables_hold_def using old(1,2) blk p hts max by (auto dest!: Hash32.expand simp del: le_bytes_numeral)
  ultimately show ?thesis by blast
qed

subsection \<open>Restoring\<close>

lemma restore_loop_end: "t_canonical_heights d k = None \<Longrightarrow> restore_loop P d c k = Some (Ok c)"
  by (subst restore_loop.simps) simp

lemma restore_loop_step:
  assumes "t_canonical_heights d k = Some (hash_bytes h)" and "length (hash_bytes h) = 32"
    and "t_blocks d (hash_bytes h) = Some b" and "try_apply P r b (timestamp (header b)) = (r', Ok x)"
    and "k + 1 < 2 ^ 64"
  shows "restore_loop P d r k = restore_loop P d r' (k + 1)"
  using assms by (subst restore_loop.simps) (simp add: hash_from_slice_def)

lemma path_parent:
  assumes "linked c" "floored c" "ancestors c h = Ok p" "Suc j < length p" "meta c (p ! Suc j) = Some m"
  shows "m_prev_hash m = p ! j"
proof -
  have pj: "ancestors c (p ! Suc j) = Ok (take (Suc (Suc j)) p)" by (rule ancestors_nth_prefix [OF assms(1-4)])
  have "distinct p" by (rule ancestors_distinct [OF assms(1-3)])
  moreover obtain hm where "meta c h = Some hm" using ancestors_Ok_known [OF assms(3)] by blast
  ultimately have nf: "p ! Suc j \<noteq> floor_hash c"
    using ancestors_shape [OF assms(1,2) _ assms(3)] assms(4)
    by (metis Zero_not_Suc hd_conv_nth length_greater_0_conv nth_eq_iff_index_eq)
  obtain p0 where p0: "ancestors c (m_prev_hash m) = Ok p0" "take (Suc (Suc j)) p = p0 @ [p ! Suc j]"
    using pj ancestors_child [OF assms(5) nf] by auto
  then have "p0 = take (Suc j) p" using assms(4) by (simp add: take_Suc_conv_app_nth)
  moreover obtain pm where "meta c (m_prev_hash m) = Some pm" using ancestors_Ok_known [OF p0(1)] by blast
  ultimately have "last (take (Suc j) p) = m_prev_hash m" using ancestors_shape [OF assms(1,2) _ p0(1)] by blast
  then show ?thesis using assms(4) by (simp add: take_Suc_conv_app_nth)
qed

text \<open>One replayed block.\<close>

lemma replay_block:
  assumes g: "grown P c" and p: "ancestors c (tip_hash c) = Ok p" and heights: "heights_ok c"
    and r: "chain_inv P r" "subchain r c" "dom (meta r) = set (take k p)" and k: "0 < k" "k < length p"
    and b: "blocks c (p ! k) = Some b"
  shows "\<exists>r' x. try_apply P r b (timestamp (header b)) = (r', Ok x) \<and> chain_inv P r' \<and> subchain r' c \<and>
    dom (meta r') = set (take (Suc k) p)"
proof -
  note f = grown_facts [OF g]
  have ri: "linked r" "floored r" "body_ok P r" using r(1) by (simp_all add: chain_inv_def)
  have hash: "block_hash P b = p ! k" using f(3) b by (simp add: body_ok_def)
  obtain km where km: "meta c (p ! k) = Some km" using ancestors_set_known [OF f(1,2) p, of "p ! k"] k by auto
  have nz: "block_hash P b \<noteq> ZERO" using km f(1) by (auto simp: hash linked_def)
  have dist: "distinct p" by (rule ancestors_distinct [OF f(1,2) p])
  obtain hm where "meta c (tip_hash c) = Some hm" using ancestors_Ok_known [OF p] by blast
  then have "p ! 0 = floor_hash c" using ancestors_shape [OF f(1,2) _ p] by (metis hd_conv_nth)
  then have nf: "p ! k \<noteq> floor_hash c" using dist k by (metis length_pos_if_in_set nth_eq_iff_index_eq nth_mem less_numeral_extra(3) gr_implies_not0)
  have meta: "meta c (p ! k) = Some (block_meta b (new_work c b))"
    and valid: "validate_block P c b (timestamp (header b)) = Ok ()"
    using g b nf unfolding grown_def history_def by blast+
  obtain j where j: "k = Suc j" using k(1) by (cases k) auto
  have "prev_hash (header b) = p ! j"
    using path_parent [OF f(1,2) p, of j] k(2) meta by (simp add: j block_meta_def)
  then have "prev_hash (header b) \<in> dom (meta r)" using r(3) k(2) by (simp add: j take_Suc_conv_app_nth)
  then obtain m where m: "meta r (prev_hash (header b)) = Some m" by blast
  have new: "meta r (block_hash P b) = None"
  proof -
    have "p ! k \<notin> set (take k p)" using dist k(2)
      by (metis distinct_take id_take_nth_drop not_distinct_conv_prefix distinct_append Un_iff distinct.simps(2) disjoint_iff list.set_intros(1) append.assoc)
    then show ?thesis using r(3) by (auto simp: hash)
  qed
  have vr: "validate_block P r b (timestamp (header b)) = Ok ()"
    using valid subchain_validate [OF r(2) ri f(1) m] by simp
  have hr: "heights_ok r" using heights subchain_meta [OF r(2)] by (auto simp: heights_ok_def)
  have w: "new_work r b = new_work c b" by (rule new_work_subchain [OF r(2) m])
  have sub: "subchain (insert_block r (block_hash P b) b (new_work r b)) c"
  proof -
    have "(meta r)(p ! k \<mapsto> block_meta b (new_work c b)) \<subseteq>\<^sub>m meta c"
      using r(2) meta by (auto simp: subchain_def map_le_def)
    moreover have "(blocks r)(p ! k \<mapsto> b) \<subseteq>\<^sub>m blocks c" using r(2) b by (auto simp: subchain_def map_le_def)
    ultimately show ?thesis using r(2) by (simp add: subchain_def insert_block_meta w hash)
  qed
  have dom: "insert (p ! k) (set (take k p)) = set (take (Suc k) p)" using k(2) by (simp add: take_Suc_conv_app_nth)
  from r(1) hr nz new vr show ?thesis
  proof (cases rule: try_apply_valid)
    case (fork w)
    then show ?thesis using sub dom by (simp add: insert_block_meta hash r(3))
  next
    case (tip w q st)
    then show ?thesis using sub dom r(3) by (simp add: insert_block_meta hash subchain_def)
  qed
qed

lemma restore_loop_path:
  assumes g: "grown P c" and p: "ancestors c (tip_hash c) = Ok p" and heights: "heights_ok c"
    and digest: "digest32 (sha256 P)" and t: "tables_hold c d"
  shows "chain_inv P r \<Longrightarrow> subchain r c \<Longrightarrow> dom (meta r) = set (take k p) \<Longrightarrow> 0 < k \<Longrightarrow> k \<le> length p \<Longrightarrow>
    \<exists>r'. restore_loop P d r k = Some (Ok r') \<and> chain_inv P r' \<and> subchain r' c \<and> dom (meta r') = set p"
proof (induction "length p - k" arbitrary: r k)
  case 0
  then have "t_canonical_heights d k = None" using t p by (auto simp: tables_hold_def)
  then show ?case using 0 restore_loop_end by force
next
  case (Suc n)
  note f = grown_facts [OF g]
  have k: "k < length p" using Suc by simp
  obtain hm where hm: "meta c (tip_hash c) = Some hm" using ancestors_Ok_known [OF p] by blast
  note shape = ancestors_shape [OF f(1,2) hm p]
  obtain km where km: "meta c (p ! k) = Some km" "m_height km = k" using shape k f(8) by auto
  then have "blocks c (p ! k) \<noteq> None" using f(3,8) Suc.prems(4) by (simp add: body_ok_def)
  then obtain b where b: "blocks c (p ! k) = Some b" by auto
  have nf: "p ! k \<noteq> floor_hash c" using km f(2,8) Suc.prems(4) by (auto simp: floored_def)
  have hash: "block_hash P b = p ! k" using f(3) b by (simp add: body_ok_def)
  have len: "length (hash_bytes (p ! k)) = 32"
    using wf_hash_of [OF digest] by (simp add: block_hash_def header_hash_def wf_hash_def flip: hash)
  obtain r' x where r': "try_apply P r b (timestamp (header b)) = (r', Ok x)" "chain_inv P r'" "subchain r' c"
    "dom (meta r') = set (take (Suc k) p)"
    using replay_block [OF g p heights Suc.prems(1-4) k b] by blast
  have "m_height hm < 2 ^ 64 - 1" using heights hm by (auto simp: heights_ok_def)
  then have small: "k + 1 < 2 ^ 64" using shape k f(8) by simp
  have "t_canonical_heights d k = Some (hash_bytes (p ! k))" "t_blocks d (hash_bytes (p ! k)) = Some b"
    using t p k b nf by (auto simp: tables_hold_def)
  from restore_loop_step [OF this(1) len this(2) r'(1) small]
  show ?case using Suc.hyps(1) [of "Suc k" r'] Suc.hyps(2) r' k by simp
qed

text \<open>A chain that holds exactly the tip's ancestry has the same tip, owners and height index.\<close>

lemma same_tip:
  assumes g: "grown P c" and p: "ancestors c (tip_hash c) = Ok p"
    and r: "chain_inv P r" "subchain r c" "dom (meta r) = set p"
  shows "tip_hash r = tip_hash c \<and> username_owner r = username_owner c \<and> canonical_index r = canonical_index c"
proof -
  note f = grown_facts [OF g]
  have ri: "linked r" "floored r" "body_ok P r" "tip_ok r" "heaviest r" using r(1) by (simp_all add: chain_inv_def)
  obtain tm where tm: "meta c (tip_hash c) = Some tm" using ancestors_Ok_known [OF p] by blast
  have "tip_hash c \<in> set p" using ancestors_shape [OF f(1,2) tm p] last_in_set by metis
  then have tr: "meta r (tip_hash c) = Some tm" using r(2,3) tm subchain_meta [OF r(2)] by (metis domD)
  obtain rm where rm: "meta r (tip_hash r) = Some rm" and top: "f64_le (m_cumulative_work tm) (m_cumulative_work rm)"
    using ri(5) tr by (auto simp: heaviest_def)
  have tip: "tip_hash r = tip_hash c"
  proof (rule ccontr)
    assume ne: "tip_hash r \<noteq> tip_hash c"
    have "tip_hash r \<in> set p" using rm r(3) by blast
    then have "f64_lt (m_cumulative_work rm) (m_cumulative_work tm)"
      using g p ne tm subchain_meta [OF r(2) rm] unfolding grown_def tip_tops_def by blast
    with top show False by (cases "m_cumulative_work tm"; cases "m_cumulative_work rm") auto
  qed
  have "state_at r (tip_hash c) = state_at c (tip_hash c)" by (rule subchain_state [OF r(2) ri(1-3) f(1) tr])
  then have own: "username_owner r = username_owner c" using ri(4) f(5) tip by (simp add: tip_ok_def)
  have "ancestors r (tip_hash c) = ancestors c (tip_hash c)" by (rule subchain_ancestors [OF r(2) ri(1) f(1) tr])
  then have "canonical_index r k = canonical_index c k" for k
    using ri(4) f(5,8) r(2) p tip by (simp add: tip_ok_def subchain_def)
  then show ?thesis using tip own by auto
qed

lemma restore_grown:
  assumes g: "grown P c" and heights: "heights_ok c" and digest: "digest32 (sha256 P)" and t: "tables_hold c d"
    and gz: "block_hash P (genesis P) \<noteq> ZERO"
  shows "\<exists>r. restore P d = Ok r \<and> chain_inv P r \<and> tip_hash r = tip_hash c \<and> username_owner r = username_owner c \<and>
    canonical_index r = canonical_index c"
proof -
  note f = grown_facts [OF g]
  obtain p where p: "ancestors c (tip_hash c) = Ok p" using t by (auto simp: tables_hold_def)
  obtain tm where tm: "meta c (tip_hash c) = Some tm" using ancestors_Ok_known [OF p] by blast
  note shape = ancestors_shape [OF f(1,2) tm p]
  have inv0: "chain_inv P (new_chain P)" by (rule new_chain_inv [OF gz])
  have sub0: "subchain (new_chain P) c" using g by (simp add: grown_def)
  have "take 1 p = [block_hash P (genesis P)]" using shape f(7) by (cases p) auto
  then have dom0: "dom (meta (new_chain P)) = set (take 1 p)" by (simp add: new_chain_def Let_def)
  have fl0: "floor_height (new_chain P) = 0" by (simp add: new_chain_def Let_def)
  obtain r where r: "restore_loop P d (new_chain P) 1 = Some (Ok r)" "chain_inv P r" "subchain r c" "dom (meta r) = set p"
    using restore_loop_path [OF g p heights digest t inv0 sub0 dom0] shape by (auto simp: Suc_le_eq)
  then have "restore P d = Ok r" using t fl0 by (simp add: restore_def tables_hold_def)
  then show ?thesis using same_tip [OF g p r(2-4)] r(2) by blast
qed

subsection \<open>Runs of a store\<close>

lemma chain_persist_after_apply [simp]: "chain (fst (persist_after_apply P io s b)) = chain s"
  by (cases "get_meta (chain s) (block_hash P b)"; cases "ancestors (chain s) (tip_hash (chain s))";
      cases "tip_height (chain s)") (simp_all add: persist_after_apply_def Let_def)

lemma chain_store_try_apply: "chain (fst (store_try_apply P io s b now)) = fst (try_apply P (chain s) b now)"
proof -
  obtain c' r where r: "try_apply P (chain s) b now = (c', r)" by (cases "try_apply P (chain s) b now")
  have "chain (fst (case persist_after_apply P io s' b of (s2, Ok _) \<Rightarrow> (s2, Ok x) | (s2, Err e) \<Rightarrow> (s2, Err e)
      | (s2, Panic) \<Rightarrow> (s2, Panic) | (s2, Diverge) \<Rightarrow> (s2, Diverge))) = chain s'" for s' and x :: ApplyOutcome
    using chain_persist_after_apply [of P io s' b]
    by (cases "persist_after_apply P io s' b"; cases "snd (persist_after_apply P io s' b)") simp_all
  with r show ?thesis by (cases r) (simp_all add: store_try_apply_def Let_def)
qed

fun store_run :: "Primitives \<Rightarrow> ChainStore \<Rightarrow> (Block \<times> nat) list \<Rightarrow> ChainStore" where
  "store_run P s [] = s"
| "store_run P s ((b, now) # bs) = store_run P (fst (store_try_apply P True s b now)) bs"

definition input_ok :: "Primitives \<Rightarrow> Block \<times> nat \<Rightarrow> bool" where
  "input_ok P bn \<longleftrightarrow> block_hash P (fst bn) \<noteq> ZERO \<and>
     timestamp (header (fst bn)) + MAX_FUTURE_DRIFT_SECS < 2 ^ 64"

lemma store_step:
  assumes g: "grown P (chain s)" and n: "heights_le n (chain s)" "n < 2 ^ 64 - 2" and t: "tables_hold (chain s) (db s)"
    and ok: "input_ok P (b, now)"
  defines "s' \<equiv> fst (store_try_apply P True s b now)"
  shows "grown P (chain s') \<and> heights_le (Suc n) (chain s') \<and> tables_hold (chain s') (db s')"
proof -
  let ?c = "chain s" and ?hash = "block_hash P b"
  have nz: "?hash \<noteq> ZERO" and ts: "timestamp (header b) + MAX_FUTURE_DRIFT_SECS < 2 ^ 64"
    using ok by (simp_all add: input_ok_def)
  have ok: "heights_ok ?c" by (rule heights_le_ok [OF n(1)]) (use n(2) in simp)
  have inv: "chain_inv P ?c" using g by (simp add: grown_def)
  have step: "heights_le (Suc n) (fst (try_apply P ?c b now))"
    using try_apply_step [OF inv n(1) _ nz] n(2) by simp
  have g': "grown P (fst (try_apply P ?c b now))" by (rule grown_step [OF g ok nz ts])
  have ok': "heights_ok (fst (try_apply P ?c b now))" by (rule heights_le_ok [OF step]) (use n(2) in simp)
  obtain p where hts: "\<And>k. t_canonical_heights (db s) k = (if k < length p then Some (hash_bytes (p ! k)) else None)"
    and max: "length p \<le> Suc (read_max_height (t_max_height (db s)))"
    using t by (auto simp: tables_hold_def)
  have persist: "grown P (chain s') \<and> heights_le (Suc n) (chain s') \<and> tables_hold (chain s') (db s')"
    if res: "try_apply P ?c b now = (c', Ok x)" "x \<noteq> AlreadyKnown" and blk: "blocks c' = (blocks ?c)(?hash \<mapsto> b)"
      "floor_hash c' = floor_hash ?c" for c' x
  proof -
    have c': "fst (try_apply P ?c b now) = c'" using res by simp
    obtain d' where d': "persist_after_apply P True \<lparr>db = db s, chain = c'\<rparr> b = (\<lparr>db = d', chain = c'\<rparr>, Ok ())" "tables_hold c' d'"
      using persist_tables [of P c' b "db s"] g' ok' blk t hts max unfolding c' by (auto simp: tables_hold_def)
    have "s' = \<lparr>db = d', chain = c'\<rparr>" using res d'(1) unfolding s'_def
      by (cases s) (simp add: store_try_apply_def Let_def)
    then show ?thesis using g' step d' by (simp add: c')
  qed
  from inv ok nz show ?thesis
  proof (cases rule: try_apply_cases [where now = now])
    case valid
    from inv ok nz valid show ?thesis
    proof (cases rule: try_apply_valid)
      case (fork w)
      from fork(2) show ?thesis by (rule persist) simp_all
    next
      case (tip w p st)
      from tip(6) show ?thesis by (rule persist) simp_all
    qed
  next
    case known
    then have "s' = s" by (simp add: s'_def store_try_apply_def)
    then show ?thesis using g t n(1) by (auto simp: heights_le_def le_Suc_eq)
  next
    case (invalid e)
    then have "s' = s" by (simp add: s'_def store_try_apply_def)
    then show ?thesis using g t n(1) by (auto simp: heights_le_def le_Suc_eq)
  qed
qed

lemma store_run_inv:
  "grown P (chain s) \<Longrightarrow> heights_le n (chain s) \<Longrightarrow> tables_hold (chain s) (db s) \<Longrightarrow>
    list_all (input_ok P) bs \<Longrightarrow> n + length bs < 2 ^ 64 - 2 \<Longrightarrow>
    grown P (chain (store_run P s bs)) \<and> heights_le (n + length bs) (chain (store_run P s bs)) \<and>
    tables_hold (chain (store_run P s bs)) (db (store_run P s bs))"
proof (induction bs arbitrary: s n)
  case (Cons bn bs)
  obtain b now where bn: "bn = (b, now)" by (cases bn)
  have "grown P (chain (fst (store_try_apply P True s b now))) \<and>
      heights_le (Suc n) (chain (fst (store_try_apply P True s b now))) \<and>
      tables_hold (chain (fst (store_try_apply P True s b now))) (db (fst (store_try_apply P True s b now)))"
    using Cons.prems by (intro store_step) (simp_all add: bn)
  then show ?case using Cons.IH [of "fst (store_try_apply P True s b now)" "Suc n"] Cons.prems by (simp add: bn)
qed simp

lemma open_fresh:
  assumes gz: "block_hash P (genesis P) \<noteq> ZERO"
  shows "\<exists>d. open_store P True empty_database = Ok \<lparr>db = d, chain = new_chain P\<rparr> \<and> tables_hold (new_chain P) d"
proof -
  have g: "grown P (new_chain P)" by (rule grown_new [OF gz])
  have "\<exists>d'. persist_after_apply P True \<lparr>db = empty_database, chain = new_chain P\<rparr> (genesis P) =
      (\<lparr>db = d', chain = new_chain P\<rparr>, Ok ()) \<and> tables_hold (new_chain P) d'"
  proof (rule persist_tables [OF g])
    show "heights_ok (new_chain P)" by (rule heights_le_ok [OF heights_le_new]) simp
  qed (simp_all add: empty_database_def new_chain_def Let_def split: if_splits)
  then show ?thesis by (auto simp: open_store_def empty_database_def)
qed

subsection \<open>Properties\<close>

text \<open>C2: a store that was opened on an empty database, fed any sequence of blocks and closed is
  reopened with the same tip, the same owner of every name and the same height index (as long as
  nothing was pruned and every write committed).\<close>

theorem reopen_restores:
  assumes "block_hash P (genesis P) \<noteq> ZERO" and "digest32 (sha256 P)"
    and "open_store P True empty_database = Ok s" and "list_all (input_ok P) bs" and "length bs < 2 ^ 64 - 2"
  shows "\<exists>r. open_store P io (db (store_run P s bs)) = Ok r \<and>
    tip_hash (chain r) = tip_hash (chain (store_run P s bs)) \<and>
    username_owner (chain r) = username_owner (chain (store_run P s bs)) \<and>
    canonical_index (chain r) = canonical_index (chain (store_run P s bs))"
proof -
  let ?s = "store_run P s bs"
  have "tables_hold (new_chain P) (db s)" "chain s = new_chain P" using open_fresh [OF assms(1)] assms(3) by auto
  then have inv: "grown P (chain ?s)" "heights_le (length bs) (chain ?s)" "tables_hold (chain ?s) (db ?s)"
    using store_run_inv [of P s 0 bs] grown_new [OF assms(1)] heights_le_new assms(4,5) by simp_all
  obtain r where "restore P (db ?s) = Ok r" "tip_hash r = tip_hash (chain ?s)"
    "username_owner r = username_owner (chain ?s)" "canonical_index r = canonical_index (chain ?s)"
    using restore_grown [OF inv(1) heights_le_ok [OF inv(2)] assms(2) inv(3) assms(1)] assms(5) by auto
  then show ?thesis using inv(3) by (auto simp: open_store_def tables_hold_def)
qed

lemma reopen_restores_witness:
  "\<exists>s r. open_store toy True empty_database = Ok s \<and>
     open_store toy True (db (store_run toy s [(sample_block, 1750000300)])) = Ok r \<and>
     tip_hash (chain r) = block_hash toy sample_block"
proof -
  obtain s where s: "open_store toy True empty_database = Ok s" and c: "chain s = new_chain toy"
    and t: "tables_hold (chain s) (db s)"
    using open_fresh [OF sample_nonzero(1)] by auto
  have ok: "list_all (input_ok toy) [(sample_block, 1750000300)]"
    using sample_nonzero(2) by (simp add: input_ok_def MAX_FUTURE_DRIFT_SECS_def) (simp add: sample_block_def)
  have "tip_hash (chain (store_run toy s [(sample_block, 1750000300)])) = block_hash toy sample_block"
  proof -
    have "chain (fst (store_try_apply toy True s sample_block 1750000300)) = fst (try_apply toy (new_chain toy) sample_block 1750000300)"
      by (simp add: chain_store_try_apply c)
    moreover from sample_genesis_inv sample_heights sample_nonzero(2) sample_new sample_valid
    have "tip_hash (fst (try_apply toy (new_chain toy) sample_block 1750000300)) = block_hash toy sample_block"
      by (cases rule: try_apply_valid) (use sample_extends in auto)
    ultimately show ?thesis by simp
  qed
  with reopen_restores [OF sample_nonzero(1) toy_digest32 s ok, of True] s show ?thesis by auto
qed

text \<open>C29: once the floor has moved, the next retarget boundary cannot be passed by a chain whose
  interval starts below its floor: the difficulty expected there is an error, so no block is valid.
  A store restored from a checkpoint whose height is not a multiple of 288 ends up there.\<close>

theorem boundary_below_floor_blocks:
  assumes "chain_inv P c" and "heights_ok c" and "meta c (prev_hash (header b)) = Some pm"
    and "(m_height pm + 1) mod 288 = 0" and "m_height pm + 1 < floor_height c + 288"
  shows "validate_block P c b now \<noteq> Ok () \<and> (\<exists>e. expected_difficulty c (prev_hash (header b)) = Err e)"
proof -
  have new: "u64_add (m_height pm) 1 = m_height pm + 1"
    using assms(2,3) by (intro u64_add_exact) (auto simp: heights_ok_def)
  have "288 \<le> m_height pm + 1" using assms(4) by (metis add_gr_0 dvd_imp_le mod_0_imp_dvd zero_less_one)
  then have lt: "m_height pm + 1 - 288 < floor_height c" using assms(5) by linarith
  from \<open>288 \<le> _\<close> have start: "u64_sub (m_height pm + 1) 288 = m_height pm + 1 - 288"
    using assms(2,3) by (intro u64_sub_exact) (auto simp: heights_ok_def)
  have "returns (ancestors c (prev_hash (header b)))" using assms(1) by (intro returns_ancestors) (simp add: chain_inv_def)
  then have "\<exists>e. expected_difficulty c (prev_hash (header b)) = Err e"
    using assms(3,4) new start lt
    by (cases "ancestors c (prev_hash (header b))") (auto simp: expected_difficulty_def RETARGET_INTERVAL_BLOCKS_def Let_def)
  then show ?thesis using validate_block_OkD by fastforce
qed

lemma boundary_below_floor_blocks_witness:
  "validate_block toy (from_checkpoint \<lparr> cp_height = 287, cp_hash = Hash32 [1], cp_timestamp = 0,
     cp_difficulty_target = 0, cp_cumulative_work = Fin 5, cp_username_owner = Map.empty \<rparr>)
     (sample_block\<lparr>header := (header sample_block)\<lparr>prev_hash := Hash32 [1]\<rparr>\<rparr>) 0 \<noteq> Ok ()"
proof -
  let ?cp = "\<lparr> cp_height = 287, cp_hash = Hash32 [1], cp_timestamp = 0, cp_difficulty_target = 0,
    cp_cumulative_work = Fin 5, cp_username_owner = Map.empty \<rparr>"
  let ?b = "sample_block\<lparr>header := (header sample_block)\<lparr>prev_hash := Hash32 [1]\<rparr>\<rparr>"
  have "Hash32 [1] \<noteq> ZERO" by (simp add: ZERO_def numeral_eq_Suc)
  then have inv: "chain_inv toy (from_checkpoint ?cp)" by (intro from_checkpoint_inv) simp_all
  have "heights_ok (from_checkpoint ?cp)" by (auto simp: heights_ok_def from_checkpoint_def split: if_splits)
  from boundary_below_floor_blocks [OF inv this, of ?b] show ?thesis by (simp add: from_checkpoint_def)
qed

end
