(* ===== verification/Tables.thy ===== *)
theory Tables
  imports Hash "HOL-Library.AList"
begin

text \<open>
  The tables of \<^verbatim>\<open>redb\<close> that \<^verbatim>\<open>packages/p2p-core/src/mailbox.rs\<close> keeps: a map that iterates in
  ascending key order, here an association list kept sorted. \<open>table\<close> is the interface the mailbox
  uses; the sorted list provides it.
\<close>

locale table =
  fixes ins :: "'k::linorder \<Rightarrow> 'v \<Rightarrow> 't \<Rightarrow> 't"
    and rem :: "'k \<Rightarrow> 't \<Rightarrow> 't"
    and look :: "'t \<Rightarrow> 'k \<rightharpoonup> 'v"
    and rows :: "'t \<Rightarrow> ('k \<times> 'v) list"
    and inv :: "'t \<Rightarrow> bool"
  assumes look_ins: "inv t \<Longrightarrow> look (ins k v t) = (look t)(k \<mapsto> v)"
    and look_rem: "inv t \<Longrightarrow> look (rem k t) = (look t)(k := None)"
    and inv_ins: "inv t \<Longrightarrow> inv (ins k v t)"
    and inv_rem: "inv t \<Longrightarrow> inv (rem k t)"
    and look_rows: "inv t \<Longrightarrow> look t = map_of (rows t)"
    and rows_sorted: "inv t \<Longrightarrow> sorted_wrt (<) (map fst (rows t))"
begin

lemma rows_distinct: "inv t \<Longrightarrow> distinct (map fst (rows t))"
  using rows_sorted strict_sorted_iff by blast

lemma in_rows: "inv t \<Longrightarrow> (k, v) \<in> set (rows t) \<longleftrightarrow> look t k = Some v"
  by (simp add: look_rows rows_distinct)

lemma in_rows_ins: "inv t \<Longrightarrow> (k', v') \<in> set (rows (ins k v t)) \<longleftrightarrow> (if k' = k then v' = v else (k', v') \<in> set (rows t))"
  by (auto simp: in_rows inv_ins look_ins)

lemma in_rows_rem: "inv t \<Longrightarrow> (k', v') \<in> set (rows (rem k t)) \<longleftrightarrow> k' \<noteq> k \<and> (k', v') \<in> set (rows t)"
  by (auto simp: in_rows inv_rem look_rem)

end

fun table_insert :: "'k::linorder \<Rightarrow> 'v \<Rightarrow> ('k \<times> 'v) list \<Rightarrow> ('k \<times> 'v) list" where
  "table_insert k v [] = [(k, v)]"
| "table_insert k v ((k', v') # t) =
     (if k < k' then (k, v) # (k', v') # t
      else if k = k' then (k, v) # t
      else (k', v') # table_insert k v t)"

definition table_ok :: "('k::linorder \<times> 'v) list \<Rightarrow> bool" where
  "table_ok t \<longleftrightarrow> sorted_wrt (<) (map fst t)"

lemma keys_table_insert: "set (map fst (table_insert k v t)) = insert k (set (map fst t))"
  by (induction k v t rule: table_insert.induct) auto

lemma table_ok_insert: "table_ok t \<Longrightarrow> table_ok (table_insert k v t)"
proof (induction t)
  case (Cons kv t)
  then show ?case using keys_table_insert [of k v t] by (cases kv) (auto simp: table_ok_def)
qed (simp add: table_ok_def)

lemma map_of_table_insert: "table_ok t \<Longrightarrow> map_of (table_insert k v t) = (map_of t)(k \<mapsto> v)"
proof (induction t)
  case (Cons kv t)
  then show ?case by (cases kv) (auto simp: table_ok_def fun_eq_iff)
qed simp

lemma table_ok_delete: "table_ok t \<Longrightarrow> table_ok (AList.delete k t)"
  by (simp add: table_ok_def delete_keys removeAll_filter_not_eq sorted_wrt_filter)

interpretation sorted_table: table table_insert AList.delete map_of "\<lambda>t. t" table_ok
  by unfold_locales (simp_all add: map_of_table_insert table_ok_insert table_ok_delete delete_conv', simp add: table_ok_def)

end
