(* ===== verification/Mailbox.thy ===== *)
theory Mailbox
  imports Primitives Tables
begin

unbundle bit_operations_syntax

text \<open>
  \<^verbatim>\<open>packages/p2p-core/src/mailbox.rs\<close>: deposits stamped with proof of work, the tags they are
  stored under and the cache that keeps them. The three tables of the cache are fields of the
  state, with values kept decoded; \<^verbatim>\<open>bincode\<close> matters only through the length of what it writes.
  Database errors are not modelled: a \<^verbatim>\<open>redb\<close> transaction that fails leaves the tables as they were.
\<close>

subsection \<open>Errors and constants\<close>

datatype P2pError =
    InvalidSeed string | Setup string | Listen string string | Dial string string | NodeShutDown
  | LedgerFailure string | MailboxFailure string | MixFailure string

definition MAILBOX_POW_LEADING_ZERO_BITS :: nat where "MAILBOX_POW_LEADING_ZERO_BITS = 20"
definition MAX_CLOCK_DRIFT_SECS :: nat where "MAX_CLOCK_DRIFT_SECS = 2 * 60 * 60"
definition MAX_ENVELOPE_BYTES :: nat where "MAX_ENVELOPE_BYTES = 64 * 1024"
definition RETENTION_SECS :: nat where "RETENTION_SECS = 14 * 24 * 60 * 60"
definition DEFAULT_CACHE_LIMIT_BYTES :: nat where "DEFAULT_CACHE_LIMIT_BYTES = 50 * 1024 * 1024"
definition TAG_EPOCH_SECS :: nat where "TAG_EPOCH_SECS = 24 * 60 * 60"
definition MAILBOX_TAG_LEN :: nat where "MAILBOX_TAG_LEN = 32"

subsection \<open>Tags\<close>

definition epoch_for :: "nat \<Rightarrow> nat" where
  "epoch_for now = now div TAG_EPOCH_SECS"

text \<open>\<^verbatim>\<open>Hkdf::new(None, _)\<close> uses a salt of 32 zero bytes.\<close>

definition mailbox_tag :: "Primitives \<Rightarrow> bytes \<Rightarrow> nat \<Rightarrow> bytes" where
  "mailbox_tag P shared_material epoch =
     hkdf_sha256 P (replicate 32 0) shared_material (ascii ''spiritchat-mailbox-tag-v1'' @ be_bytes 8 epoch) MAILBOX_TAG_LEN"

definition shared_material_from_identity_keys :: "bytes \<Rightarrow> bytes \<Rightarrow> bytes" where
  "shared_material_from_identity_keys a b =
     (let (first, second) = (if a \<le> b then (a, b) else (b, a)) in
      ascii ''spiritchat-mailbox-shared-material-v1'' @ first @ second)"

subsection \<open>Proof of work\<close>

record MailboxDeposit =
  d_tag :: bytes
  d_envelope :: bytes
  deposited_at :: nat
  pow_nonce :: bytes

definition pow_preimage :: "Primitives \<Rightarrow> bytes \<Rightarrow> bytes \<Rightarrow> nat \<Rightarrow> bytes \<Rightarrow> bytes" where
  "pow_preimage P tag envelope at nonce =
     ascii ''spiritchat-mailbox-pow-v1'' @ tag @ sha256 P envelope @ le_bytes 8 at @ nonce"

definition pow_hash :: "Primitives \<Rightarrow> bytes \<Rightarrow> bytes \<Rightarrow> nat \<Rightarrow> bytes \<Rightarrow> bytes" where
  "pow_hash P tag envelope at nonce = sha256 P (pow_preimage P tag envelope at nonce)"

text \<open>\<^verbatim>\<open>u8::leading_zeros\<close>.\<close>

definition byte_leading_zeros :: "byte \<Rightarrow> nat" where
  "byte_leading_zeros b = length (takeWhile (\<lambda>i. \<not> bit b i) [7, 6, 5, 4, 3, 2, 1, 0])"

fun leading_zero_bits :: "bytes \<Rightarrow> nat" where
  "leading_zero_bits [] = 0"
| "leading_zero_bits (b # bs) = (if b = 0 then 8 + leading_zero_bits bs else byte_leading_zeros b)"

definition meets_pow :: "bytes \<Rightarrow> bool" where
  "meets_pow h \<longleftrightarrow> MAILBOX_POW_LEADING_ZERO_BITS \<le> leading_zero_bits h"

text \<open>The search wraps around and never stops when no nonce fits; \<open>None\<close> stands for that.\<close>

partial_function (option) mine_stamp_from :: "Primitives \<Rightarrow> bytes \<Rightarrow> bytes \<Rightarrow> nat \<Rightarrow> nat \<Rightarrow> bytes option" where
  "mine_stamp_from P tag envelope at nonce =
     (let candidate = le_bytes 8 nonce in
      if meets_pow (pow_hash P tag envelope at candidate) then Some candidate
      else mine_stamp_from P tag envelope at ((nonce + 1) mod 2 ^ 64))"

definition mine_stamp :: "Primitives \<Rightarrow> bytes \<Rightarrow> bytes \<Rightarrow> nat \<Rightarrow> bytes option" where
  "mine_stamp P tag envelope at = mine_stamp_from P tag envelope at 0"

definition abs_diff :: "nat \<Rightarrow> nat \<Rightarrow> nat" where
  "abs_diff a b = (if a \<le> b then b - a else a - b)"

definition validate :: "Primitives \<Rightarrow> MailboxDeposit \<Rightarrow> nat \<Rightarrow> (P2pError, unit) res" where
  "validate P d now =
     (if d_envelope d = [] \<or> MAX_ENVELOPE_BYTES < length (d_envelope d)
      then Err (MailboxFailure ''envelope size out of bounds'')
      else if MAX_CLOCK_DRIFT_SECS < abs_diff (deposited_at d) now
      then Err (MailboxFailure ''deposit timestamp too far from local clock'')
      else if \<not> meets_pow (pow_hash P (d_tag d) (d_envelope d) (deposited_at d) (pow_nonce d))
      then Err (MailboxFailure ''proof-of-work stamp does not meet the required difficulty'')
      else Ok ())"

subsection \<open>The cache\<close>

record StoredDeposit =
  s_tag :: bytes
  s_envelope :: bytes

record CachedDeposit =
  c_key :: bytes
  c_envelope :: bytes

record MailboxStore =
  deposits :: "(bytes \<times> StoredDeposit) list"
  by_tag :: "(bytes \<times> bytes) list"
  total_bytes :: nat
  limit_bytes :: nat

definition deposit_key :: "Primitives \<Rightarrow> MailboxDeposit \<Rightarrow> bytes" where
  "deposit_key P d =
     be_bytes 8 (deposited_at d) @ sha256 P (pow_preimage P (d_tag d) (d_envelope d) (deposited_at d) (pow_nonce d))"

text \<open>Opening keeps the tables of the file; the limit is not stored in it.\<close>

definition mailbox_open :: "MailboxStore \<Rightarrow> MailboxStore" where
  "mailbox_open file = file\<lparr> limit_bytes := DEFAULT_CACHE_LIMIT_BYTES \<rparr>"

definition no_mailbox_file :: MailboxStore where
  "no_mailbox_file = \<lparr> deposits = [], by_tag = [], total_bytes = 0, limit_bytes = 0 \<rparr>"

abbreviation fresh_mailbox :: MailboxStore where
  "fresh_mailbox \<equiv> mailbox_open no_mailbox_file"

definition set_limit_bytes :: "nat \<Rightarrow> MailboxStore \<Rightarrow> MailboxStore" where
  "set_limit_bytes limit s = s\<lparr> limit_bytes := limit \<rparr>"

definition remove_locked :: "bytes \<Rightarrow> bytes \<Rightarrow> nat \<Rightarrow> MailboxStore \<Rightarrow> MailboxStore" where
  "remove_locked key tag envelope_len s =
     s\<lparr> deposits := AList.delete key (deposits s), by_tag := removeAll (tag, key) (by_tag s),
        total_bytes := total_bytes s - envelope_len \<rparr>"

definition evict_oldest :: "MailboxStore \<Rightarrow> bool \<times> MailboxStore" where
  "evict_oldest s =
     (case deposits s of
        [] \<Rightarrow> (False, s)
      | (key, stored) # _ \<Rightarrow> (True, remove_locked key (s_tag stored) (length (s_envelope stored)) s))"

lemma evict_oldest_shrinks: "evict_oldest s = (True, s') \<Longrightarrow> length (deposits s') < length (deposits s)"
  by (auto simp: evict_oldest_def remove_locked_def le_imp_less_Suc [OF length_delete_le] split: list.splits prod.splits)

function evict_until_room_for :: "nat \<Rightarrow> MailboxStore \<Rightarrow> MailboxStore" where
  "evict_until_room_for additional s =
     (if u64_add (total_bytes s) additional \<le> limit_bytes s then s
      else
        (case evict_oldest s of
           (False, s') \<Rightarrow> s'
         | (True, s') \<Rightarrow> evict_until_room_for additional s'))"
  by pat_completeness auto
termination by (relation "measure (\<lambda>(_, s). length (deposits s))") (auto dest: evict_oldest_shrinks [OF sym])

declare evict_until_room_for.simps [simp del]

definition stored_size :: "Primitives \<Rightarrow> StoredDeposit \<Rightarrow> nat" where
  "stored_size P stored = length (bincode_deposit P (s_tag stored) (s_envelope stored))"

definition accept :: "Primitives \<Rightarrow> MailboxDeposit \<Rightarrow> MailboxStore \<Rightarrow> MailboxStore" where
  "accept P d s =
     (let key = deposit_key P d;
          stored = \<lparr> s_tag = d_tag d, s_envelope = d_envelope d \<rparr>;
          added = stored_size P stored;
          s = evict_until_room_for added s in
      s\<lparr> deposits := table_insert key stored (deposits s),
         by_tag := List.insert (s_tag stored, key) (by_tag s),
         total_bytes := u64_add (total_bytes s) added \<rparr>)"

definition remove_deposit :: "bytes \<Rightarrow> MailboxStore \<Rightarrow> MailboxStore" where
  "remove_deposit key s =
     (case map_of (deposits s) key of
        None \<Rightarrow> s
      | Some stored \<Rightarrow> remove_locked key (s_tag stored) (length (s_envelope stored)) s)"

definition for_tag :: "bytes \<Rightarrow> MailboxStore \<Rightarrow> CachedDeposit list" where
  "for_tag tag s =
     (let keys = sort (map snd (filter (\<lambda>(t, k). t = tag) (by_tag s))) in
      List.map_filter (\<lambda>key. map_option (\<lambda>stored. \<lparr> c_key = key, c_envelope = s_envelope stored \<rparr>)
        (map_of (deposits s) key)) keys)"

text \<open>\<^verbatim>\<open>redb\<close> iterates over a multimap once per tag, in ascending order.\<close>

definition distinct_tags :: "MailboxStore \<Rightarrow> bytes list" where
  "distinct_tags s = remdups_adj (filter (\<lambda>t. length t = MAILBOX_TAG_LEN) (sort (remdups (map fst (by_tag s)))))"

function evict_expired :: "nat \<Rightarrow> MailboxStore \<Rightarrow> MailboxStore" where
  "evict_expired now s =
     (case deposits s of
        [] \<Rightarrow> s
      | (key, stored) # _ \<Rightarrow>
          if now - of_be (take 8 key) \<le> RETENTION_SECS then s
          else evict_expired now (remove_locked key (s_tag stored) (length (s_envelope stored)) s))"
  by pat_completeness auto
termination
  by (relation "measure (\<lambda>(_, s). length (deposits s))")
    (auto simp: remove_locked_def le_imp_less_Suc [OF length_delete_le])

declare evict_expired.simps [simp del]

subsection \<open>The invariant of the cache\<close>

definition stored_bytes :: "Primitives \<Rightarrow> MailboxStore \<Rightarrow> nat" where
  "stored_bytes P s = sum_list (map (\<lambda>(k, v). stored_size P v) (deposits s))"

text \<open>The deposits are sorted by key, the tag index lists exactly them, and the running total never
  understates what is stored.\<close>

definition mailbox_ok :: "Primitives \<Rightarrow> MailboxStore \<Rightarrow> bool" where
  "mailbox_ok P s \<longleftrightarrow> table_ok (deposits s) \<and> distinct (by_tag s) \<and>
     (\<forall>t k. (t, k) \<in> set (by_tag s) \<longleftrightarrow> (\<exists>v. map_of (deposits s) k = Some v \<and> s_tag v = t)) \<and>
     stored_bytes P s \<le> total_bytes s"

lemma sum_list_delete:
  "distinct (map fst t) \<Longrightarrow> map_of t k = Some v \<Longrightarrow>
    sum_list (map (\<lambda>(k, v). f v) (AList.delete k t)) + f v = (sum_list (map (\<lambda>(k, v). f v) t) :: nat)"
proof (induction t)
  case (Cons kv t)
  then show ?case
    by (cases kv) (auto simp: dom_map_of_conv_image_fst split: if_splits)
qed simp

lemma remove_locked_ok:
  assumes "bincode_laws P" and "mailbox_ok P s" and "map_of (deposits s) k = Some v"
  shows "mailbox_ok P (remove_locked k (s_tag v) (length (s_envelope v)) s)"
proof -
  have ok: "table_ok (deposits s)" using assms(2) by (simp add: mailbox_ok_def)
  have "stored_bytes P (remove_locked k (s_tag v) (length (s_envelope v)) s) + stored_size P v = stored_bytes P s"
    using sum_list_delete [OF sorted_table.rows_distinct [OF ok] assms(3), of "stored_size P"]
    by (simp add: stored_bytes_def remove_locked_def)
  moreover have "length (s_envelope v) \<le> stored_size P v" using assms(1) by (simp add: bincode_laws_def stored_size_def)
  moreover have "stored_bytes P s \<le> total_bytes s" using assms(2) by (simp add: mailbox_ok_def)
  ultimately have "stored_bytes P (remove_locked k (s_tag v) (length (s_envelope v)) s) \<le> total_bytes s - length (s_envelope v)"
    by linarith
  moreover have "(t, k') \<in> set (removeAll (s_tag v, k) (by_tag s)) \<longleftrightarrow>
      (\<exists>w. map_of (AList.delete k (deposits s)) k' = Some w \<and> s_tag w = t)" for t k'
    using assms(2,3) by (auto simp: mailbox_ok_def delete_conv')
  ultimately show ?thesis
    using assms(2) sorted_table.inv_rem [OF ok]
    by (simp add: mailbox_ok_def remove_locked_def distinct_removeAll)
qed

lemma first_deposit:
  "mailbox_ok P s \<Longrightarrow> deposits s = (k, v) # t \<Longrightarrow> map_of (deposits s) k = Some v \<and> AList.delete k (deposits s) = t"
  by (auto simp: mailbox_ok_def table_ok_def intro!: delete_id)

lemma evict_oldest_cases:
  assumes "bincode_laws P" and "mailbox_ok P s"
  obtains (none) "deposits s = []" and "evict_oldest s = (False, s)"
  | (some) s' where "evict_oldest s = (True, s')" and "mailbox_ok P s'" and "deposits s' = tl (deposits s)"
      and "deposits s \<noteq> []" and "total_bytes s' \<le> total_bytes s" and "limit_bytes s' = limit_bytes s"
proof (cases "deposits s")
  case (Cons kv t)
  obtain k v where kv: "kv = (k, v)" by (cases kv)
  note first = first_deposit [OF assms(2) Cons [unfolded kv]]
  show ?thesis
    by (rule some [of "remove_locked k (s_tag v) (length (s_envelope v)) s"])
      (use conjunct2 [OF first] remove_locked_ok [OF assms conjunct1 [OF first]] in
        \<open>simp_all add: evict_oldest_def remove_locked_def Cons kv\<close>)
qed (simp add: evict_oldest_def)

lemma evict_until_room_for_spec:
  assumes "bincode_laws P" and "mailbox_ok P s"
  shows "mailbox_ok P (evict_until_room_for a s) \<and>
    (\<exists>n. deposits (evict_until_room_for a s) = drop n (deposits s)) \<and>
    (u64_add (total_bytes (evict_until_room_for a s)) a \<le> limit_bytes s \<or> deposits (evict_until_room_for a s) = []) \<and>
    total_bytes (evict_until_room_for a s) \<le> total_bytes s \<and>
    limit_bytes (evict_until_room_for a s) = limit_bytes s"
  using assms(2)
proof (induction a s rule: evict_until_room_for.induct)
  case (1 a s)
  show ?case
  proof (cases "u64_add (total_bytes s) a \<le> limit_bytes s")
    case True
    then show ?thesis using "1.prems"
      by (subst (1 2 3 4 5 6) evict_until_room_for.simps) (auto intro: exI [of _ 0])
  next
    case False
    from assms(1) "1.prems" show ?thesis
    proof (cases rule: evict_oldest_cases)
      case none
      then have "evict_until_room_for a s = s" using False by (subst evict_until_room_for.simps) simp
      then show ?thesis using "1.prems" none by (auto intro: exI [of _ 0])
    next
      case (some s')
      have step: "evict_until_room_for a s = evict_until_room_for a s'"
        using False some(1) by (subst evict_until_room_for.simps) simp
      from "1.IH" [OF False some(1) [symmetric] refl some(2)] obtain n where
        "deposits (evict_until_room_for a s') = drop n (deposits s')" by blast
      then have "deposits (evict_until_room_for a s') = drop (Suc n) (deposits s)"
        by (simp add: some(3) drop_Suc)
      then show ?thesis using "1.IH" [OF False some(1) [symmetric] refl some(2)] some(5,6) step by auto
    qed
  qed
qed

lemma sum_list_table_insert:
  "table_ok t \<Longrightarrow> sum_list (map (\<lambda>(k, v). f v) (table_insert k v t)) \<le> f v + (sum_list (map (\<lambda>(k, v). f v) t) :: nat)"
  by (induction k v t rule: table_insert.induct) (auto simp: table_ok_def)

lemma accept_ok:
  assumes "bincode_laws P" and "mailbox_ok P s" and "total_bytes s + stored_size P \<lparr> s_tag = d_tag d, s_envelope = d_envelope d \<rparr> < 2 ^ 64"
    and fresh: "\<And>v. map_of (deposits s) (deposit_key P d) = Some v \<Longrightarrow> s_tag v = d_tag d"
  shows "mailbox_ok P (accept P d s)"
proof -
  let ?v = "\<lparr> s_tag = d_tag d, s_envelope = d_envelope d \<rparr>" and ?k = "deposit_key P d"
  define e where "e = evict_until_room_for (stored_size P ?v) s"
  obtain n where e: "mailbox_ok P e" "deposits e = drop n (deposits s)" "total_bytes e \<le> total_bytes s"
    using evict_until_room_for_spec [OF assms(1,2), of "stored_size P ?v"] by (auto simp: e_def)
  have ok: "table_ok (deposits s)" "table_ok (deposits e)" using assms(2) e(1) by (simp_all add: mailbox_ok_def)
  have tags: "s_tag v = d_tag d" if "map_of (deposits e) ?k = Some v" for v
  proof -
    have "(?k, v) \<in> set (deposits s)" using that set_drop_subset [of n "deposits s"] by (auto simp: e(2) dest: map_of_SomeD)
    then show ?thesis using fresh sorted_table.in_rows [OF ok(1)] by blast
  qed
  have total: "u64_add (total_bytes e) (stored_size P ?v) = total_bytes e + stored_size P ?v"
    using assms(3) e(3) by (intro u64_add_exact) linarith
  have a: "accept P d s = e\<lparr> deposits := table_insert ?k ?v (deposits e),
      by_tag := List.insert (d_tag d, ?k) (by_tag e), total_bytes := total_bytes e + stored_size P ?v \<rparr>"
    by (simp add: accept_def Let_def e_def [symmetric] total)
  have "stored_bytes P (accept P d s) \<le> stored_size P ?v + stored_bytes P e"
    using sum_list_table_insert [OF ok(2), of "stored_size P" ?k ?v] by (simp add: stored_bytes_def a)
  moreover have "stored_bytes P e \<le> total_bytes e" using e(1) by (simp add: mailbox_ok_def)
  moreover have "(t, k) \<in> set (List.insert (d_tag d, ?k) (by_tag e)) \<longleftrightarrow>
      (\<exists>v. map_of (table_insert ?k ?v (deposits e)) k = Some v \<and> s_tag v = t)" for t k
    using e(1) tags by (auto simp: mailbox_ok_def sorted_table.look_ins [OF ok(2)])
  ultimately show ?thesis
    using e(1) sorted_table.inv_ins [OF ok(2)] by (simp add: mailbox_ok_def a)
qed

subsection \<open>Histories\<close>

datatype mailbox_op = Accept MailboxDeposit | Remove bytes | Expire nat | SetLimit nat

fun mailbox_step :: "Primitives \<Rightarrow> mailbox_op \<Rightarrow> MailboxStore \<Rightarrow> MailboxStore" where
  "mailbox_step P (Accept d) s = accept P d s"
| "mailbox_step P (Remove key) s = remove_deposit key s"
| "mailbox_step P (Expire now) s = evict_expired now s"
| "mailbox_step P (SetLimit n) s = set_limit_bytes n s"

definition accepted :: "mailbox_op list \<Rightarrow> MailboxDeposit set" where
  "accepted ops = {d. Accept d \<in> set ops}"

definition added_bytes :: "Primitives \<Rightarrow> mailbox_op list \<Rightarrow> nat" where
  "added_bytes P ops = sum_list (map (\<lambda>op. case op of
     Accept d \<Rightarrow> stored_size P \<lparr> s_tag = d_tag d, s_envelope = d_envelope d \<rparr> | _ \<Rightarrow> 0) ops)"

text \<open>No two deposits with different tags collide in their keys, which end in a SHA-256 digest of the tag.\<close>

definition keys_identify_tags :: "Primitives \<Rightarrow> MailboxDeposit set \<Rightarrow> bool" where
  "keys_identify_tags P ds \<longleftrightarrow> (\<forall>d \<in> ds. \<forall>d' \<in> ds. deposit_key P d = deposit_key P d' \<longrightarrow> d_tag d = d_tag d')"

definition came_from :: "Primitives \<Rightarrow> MailboxDeposit set \<Rightarrow> MailboxStore \<Rightarrow> bool" where
  "came_from P ds s \<longleftrightarrow> (\<forall>(k, v) \<in> set (deposits s). \<exists>d \<in> ds. k = deposit_key P d \<and> s_tag v = d_tag d \<and> s_envelope v = d_envelope d)"

lemma remove_locked_subset: "set (deposits (remove_locked k t n s)) \<subseteq> set (deposits s)"
  by (auto simp: remove_locked_def AList.delete_eq)

lemma evict_expired_ok:
  assumes "bincode_laws P" and "mailbox_ok P s"
  shows "mailbox_ok P (evict_expired now s) \<and> set (deposits (evict_expired now s)) \<subseteq> set (deposits s) \<and>
    total_bytes (evict_expired now s) \<le> total_bytes s"
  using assms(2)
proof (induction now s rule: evict_expired.induct)
  case (1 now s)
  show ?case
  proof (cases "deposits s")
    case Nil
    then show ?thesis using "1.prems" by (simp add: evict_expired.simps)
  next
    case (Cons kv t)
    obtain k v where kv: "kv = (k, v)" by (cases kv)
    let ?s = "remove_locked k (s_tag v) (length (s_envelope v)) s"
    show ?thesis
    proof (cases "now - of_be (take 8 k) \<le> RETENTION_SECS")
      case True
      then show ?thesis using "1.prems" Cons kv by (simp add: evict_expired.simps)
    next
      case False
      have "mailbox_ok P ?s"
        using remove_locked_ok [OF assms(1) "1.prems"] first_deposit [OF "1.prems" Cons [unfolded kv]] by blast
      from "1.IH" [OF Cons kv [symmetric] False this] have
        "mailbox_ok P (evict_expired now ?s)" "set (deposits (evict_expired now ?s)) \<subseteq> set (deposits ?s)"
        "total_bytes (evict_expired now ?s) \<le> total_bytes ?s" by auto
      moreover have "evict_expired now s = evict_expired now ?s"
        using Cons kv False by (subst evict_expired.simps) simp
      moreover have "total_bytes ?s \<le> total_bytes s" by (simp add: remove_locked_def)
      ultimately show ?thesis using remove_locked_subset [of k "s_tag v" "length (s_envelope v)" s] by auto
    qed
  qed
qed

lemma mailbox_step_ok:
  assumes "bincode_laws P" and "mailbox_ok P s" and "came_from P ds s" and "keys_identify_tags P ds"
    and "total_bytes s + added_bytes P [op] < 2 ^ 64" and "accepted [op] \<subseteq> ds"
  shows "mailbox_ok P (mailbox_step P op s) \<and> came_from P ds (mailbox_step P op s) \<and>
    total_bytes (mailbox_step P op s) \<le> total_bytes s + added_bytes P [op]"
proof (cases op)
  case (Accept d)
  have d: "d \<in> ds" using assms(6) by (simp add: accepted_def Accept)
  have ok: "table_ok (deposits s)" using assms(2) by (simp add: mailbox_ok_def)
  let ?v = "\<lparr> s_tag = d_tag d, s_envelope = d_envelope d \<rparr>"
  have fits: "total_bytes s + stored_size P ?v < 2 ^ 64" using assms(5) by (simp add: added_bytes_def Accept)
  have fresh: "s_tag v = d_tag d" if "map_of (deposits s) (deposit_key P d) = Some v" for v
  proof -
    from map_of_SomeD [OF that] assms(3) obtain d' where "d' \<in> ds" "deposit_key P d = deposit_key P d'" "s_tag v = d_tag d'"
      unfolding came_from_def by blast
    then show ?thesis using assms(4) d unfolding keys_identify_tags_def by metis
  qed
  define e where "e = evict_until_room_for (stored_size P ?v) s"
  obtain n where e: "mailbox_ok P e" "deposits e = drop n (deposits s)" "total_bytes e \<le> total_bytes s"
    using evict_until_room_for_spec [OF assms(1,2), of "stored_size P ?v"] by (auto simp: e_def)
  have a: "deposits (accept P d s) = table_insert (deposit_key P d) ?v (deposits e)"
    "total_bytes (accept P d s) = u64_add (total_bytes e) (stored_size P ?v)"
    by (simp_all add: accept_def Let_def e_def [symmetric])
  have "came_from P ds (accept P d s)"
  proof -
    have "table_ok (deposits e)" using e(1) by (simp add: mailbox_ok_def)
    then show ?thesis using assms(3) d set_drop_subset [of n "deposits s"]
      by (auto simp: came_from_def a(1) sorted_table.in_rows_ins e(2) split: if_splits) fastforce+
  qed
  moreover have "total_bytes (accept P d s) \<le> total_bytes s + stored_size P ?v"
    using e(3) fits by (simp add: a(2) u64_add_exact)
  ultimately show ?thesis using accept_ok [OF assms(1,2) fits fresh] by (simp add: Accept added_bytes_def)
next
  case (Remove key)
  show ?thesis
  proof (cases "map_of (deposits s) key")
    case (Some v)
    then show ?thesis
      using remove_locked_ok [OF assms(1,2) Some] assms(3) remove_locked_subset [of key "s_tag v" "length (s_envelope v)" s]
      by (auto simp: Remove remove_deposit_def came_from_def) (auto simp: remove_locked_def)
  qed (use assms(2,3) in \<open>simp add: Remove remove_deposit_def\<close>)
next
  case (Expire now)
  then show ?thesis using evict_expired_ok [OF assms(1,2), of now] assms(3) by (auto simp: came_from_def)
next
  case (SetLimit n)
  then show ?thesis using assms(2,3) by (simp add: set_limit_bytes_def mailbox_ok_def came_from_def stored_bytes_def)
qed

definition mailbox_run :: "Primitives \<Rightarrow> mailbox_op list \<Rightarrow> MailboxStore \<Rightarrow> MailboxStore" where
  "mailbox_run P ops s = fold (mailbox_step P) ops s"

lemma mailbox_run_ok:
  assumes "bincode_laws P" and "mailbox_ok P s" and "came_from P ds s" and "keys_identify_tags P ds"
    and "total_bytes s + added_bytes P ops < 2 ^ 64" and "accepted ops \<subseteq> ds"
  shows "mailbox_ok P (mailbox_run P ops s)"
  using assms(2,3,5,6)
proof (induction ops arbitrary: s)
  case (Cons op ops)
  have split: "added_bytes P (op # ops) = added_bytes P [op] + added_bytes P ops" by (simp add: added_bytes_def)
  have sub: "accepted [op] \<subseteq> ds" "accepted ops \<subseteq> ds" using Cons.prems(4) by (auto simp: accepted_def)
  have "total_bytes s + added_bytes P [op] < 2 ^ 64" using Cons.prems(3) split by linarith
  note step = mailbox_step_ok [OF assms(1) Cons.prems(1,2) assms(4) this sub(1)]
  then have "total_bytes (mailbox_step P op s) + added_bytes P ops < 2 ^ 64" using Cons.prems(3) split by linarith
  then show ?case using Cons.IH [of "mailbox_step P op s"] step sub(2) by (simp add: mailbox_run_def)
qed (simp add: mailbox_run_def)

lemma fresh_mailbox_ok: "mailbox_ok P fresh_mailbox" "came_from P ds fresh_mailbox" "total_bytes fresh_mailbox = 0"
  by (simp_all add: mailbox_open_def no_mailbox_file_def mailbox_ok_def came_from_def table_ok_def stored_bytes_def)

subsection \<open>Looking up a tag\<close>

text \<open>What \<^verbatim>\<open>for_tag\<close> promises: the deposits of the tag, oldest first, found by scanning them all.\<close>

definition scan_tag :: "bytes \<Rightarrow> MailboxStore \<Rightarrow> CachedDeposit list" where
  "scan_tag tag s = map (\<lambda>(k, v). \<lparr> c_key = k, c_envelope = s_envelope v \<rparr>) (filter (\<lambda>(k, v). s_tag v = tag) (deposits s))"

lemma for_tag_scan:
  assumes "mailbox_ok P s"
  shows "for_tag tag s = scan_tag tag s"
proof -
  let ?rows = "filter (\<lambda>(k, v). s_tag v = tag) (deposits s)"
  let ?keys = "map snd (filter (\<lambda>(t, k). t = tag) (by_tag s))"
  have ok: "table_ok (deposits s)" and "distinct (by_tag s)"
    and index: "\<And>t k. (t, k) \<in> set (by_tag s) \<longleftrightarrow> (\<exists>v. map_of (deposits s) k = Some v \<and> s_tag v = t)"
    using assms by (auto simp: mailbox_ok_def)
  have "sorted_wrt (<) (map fst ?rows)"
    using ok by (simp add: table_ok_def sorted_wrt_map sorted_wrt_filter)
  moreover have "distinct ?keys"
    using \<open>distinct (by_tag s)\<close> by (auto simp: distinct_map inj_on_def)
  moreover have "set ?keys = set (map fst ?rows)"
  proof (intro set_eqI)
    fix k
    have "k \<in> set ?keys \<longleftrightarrow> (tag, k) \<in> set (by_tag s)" by (auto simp: image_iff)
    also have "\<dots> \<longleftrightarrow> (\<exists>v. (k, v) \<in> set (deposits s) \<and> s_tag v = tag)"
      by (simp add: index sorted_table.in_rows [OF ok])
    also have "\<dots> \<longleftrightarrow> k \<in> set (map fst ?rows)" by (auto simp: image_iff)
    finally show "k \<in> set ?keys \<longleftrightarrow> k \<in> set (map fst ?rows)" .
  qed
  ultimately have keys: "sort ?keys = map fst ?rows"
    by (intro sorted_distinct_set_unique) (simp_all only: strict_sorted_iff sorted_sort distinct_sort set_sort)
  have "List.map_filter (\<lambda>key. map_option (\<lambda>v. \<lparr> c_key = key, c_envelope = s_envelope v \<rparr>) (map_of (deposits s) key)) (map fst rows) =
      map (\<lambda>(k, v). \<lparr> c_key = k, c_envelope = s_envelope v \<rparr>) rows"
    if "set rows \<subseteq> set (deposits s)" for rows
    using that
  proof (induction rows)
    case (Cons r rows)
    then have "map_of (deposits s) (fst r) = Some (snd r)"
      using sorted_table.in_rows [OF ok, of "fst r" "snd r"] by simp
    then show ?case using Cons by (cases r) (simp add: List.map_filter_simps)
  qed (simp add: List.map_filter_simps)
  from this [of ?rows] show ?thesis by (simp add: for_tag_def scan_tag_def keys)
qed

subsection \<open>Proof of work\<close>

lemma byte_leading_zeros_iff:
  assumes "k \<le> 8"
  shows "k \<le> byte_leading_zeros b \<longleftrightarrow> unat b < 2 ^ (8 - k)"
proof -
  have "\<forall>n \<in> set [0..<256]. \<forall>k \<in> set [0..<9]. k \<le> byte_leading_zeros (word_of_nat n) \<longleftrightarrow> n < 2 ^ (8 - k)"
    by code_simp
  moreover have "unat b \<in> set [0..<256]" using unat_byte_less [of b] by simp
  moreover have "k \<in> set [0..<9]" using assms by simp
  ultimately have "k \<le> byte_leading_zeros (word_of_nat (unat b)) \<longleftrightarrow> unat b < 2 ^ (8 - k)" by blast
  then show ?thesis by simp
qed

lemma byte_leading_zeros_le: "byte_leading_zeros b \<le> 8"
  using length_takeWhile_le [of "\<lambda>i. \<not> bit b i" "[7, 6, 5, 4, 3, 2, 1, 0]"] by (simp add: byte_leading_zeros_def)

lemma digits_less_iff:
  fixes a r m N :: nat
  assumes "r < N"
  shows "a * N + r < m * N \<longleftrightarrow> a < m"
proof
  assume "a * N + r < m * N"
  then have "a * N < m * N" by linarith
  then show "a < m" by simp
next
  assume "a < m"
  then show "a * N + r < m * N" using digit_less [of a m r N 0] assms by simp
qed

text \<open>The stamp is a bound on the digest read as a number.\<close>

lemma leading_zero_bits_iff:
  "k \<le> 8 * length bs \<Longrightarrow> k \<le> leading_zero_bits bs \<longleftrightarrow> of_be bs < 2 ^ (8 * length bs - k)"
proof (induction bs arbitrary: k)
  case (Cons b bs)
  let ?N = "8 * length bs"
  have pow: "(256 :: nat) ^ length bs = 2 ^ ?N" by (simp add: power_mult)
  have r: "of_be bs < 2 ^ ?N" using of_be_bound [of bs] by (simp only: pow)
  have whole: "of_be (b # bs) = unat b * 2 ^ ?N + of_be bs" by (simp add: pow)
  show ?case
  proof (cases "k \<le> 8")
    case True
    then have "(2 :: nat) ^ (8 * length (b # bs) - k) = 2 ^ (8 - k) * 2 ^ ?N" by (simp flip: power_add)
    then have "of_be (b # bs) < 2 ^ (8 * length (b # bs) - k) \<longleftrightarrow> unat b < 2 ^ (8 - k)"
      using digits_less_iff [OF r] by (simp only: whole)
    moreover have "k \<le> leading_zero_bits (b # bs) \<longleftrightarrow> k \<le> byte_leading_zeros b"
      using True byte_leading_zeros_iff [of 8 b] by (cases "b = 0") (simp_all add: byte_leading_zeros_iff)
    ultimately show ?thesis using byte_leading_zeros_iff [OF True] by simp
  next
    case False
    show ?thesis
    proof (cases "b = 0")
      case True
      have "k - 8 \<le> leading_zero_bits bs \<longleftrightarrow> of_be bs < 2 ^ (?N - (k - 8))"
        using Cons.prems by (intro Cons.IH) simp
      moreover have "?N - (k - 8) = 8 * length (b # bs) - k" using \<open>\<not> k \<le> 8\<close> by simp
      ultimately show ?thesis using True \<open>\<not> k \<le> 8\<close> by (simp add: le_diff_conv add.commute)
    next
      case nz: False
      have "\<not> k \<le> leading_zero_bits (b # bs)" using nz False byte_leading_zeros_le [of b] by simp
      moreover have "1 * (2 :: nat) ^ ?N \<le> unat b * 2 ^ ?N" using nz by (intro mult_right_mono) (simp_all add: unat_gt_0 Suc_le_eq)
      then have "2 ^ ?N \<le> of_be (b # bs)" by (simp only: whole)
      moreover have "(2 :: nat) ^ (8 * length (b # bs) - k) \<le> 2 ^ ?N" using False by (intro power_increasing) simp_all
      ultimately show ?thesis by linarith
    qed
  qed
qed simp

lemma meets_pow_iff: "length h = 32 \<Longrightarrow> meets_pow h \<longleftrightarrow> of_be h < 2 ^ 236"
  using leading_zero_bits_iff [of 20 h] by (simp add: meets_pow_def MAILBOX_POW_LEADING_ZERO_BITS_def)

lemmas mine_stamp_from_induct = mine_stamp_from.raw_induct [rotated, consumes 1, case_names step]

lemma mine_stamp_from_reaches:
  "\<lbrakk>n + k < 2 ^ 64; meets_pow (pow_hash P tag env at (le_bytes 8 (n + k)))\<rbrakk> \<Longrightarrow>
    \<exists>j \<le> k. mine_stamp_from P tag env at n = Some (le_bytes 8 (n + j)) \<and> meets_pow (pow_hash P tag env at (le_bytes 8 (n + j)))"
proof (induction k arbitrary: n)
  case 0
  then show ?case by (subst mine_stamp_from.simps) (simp add: Let_def del: le_bytes_numeral)
next
  case (Suc k)
  show ?case
  proof (cases "meets_pow (pow_hash P tag env at (le_bytes 8 n))")
    case True
    then show ?thesis by (subst mine_stamp_from.simps) (auto simp: Let_def simp del: le_bytes_numeral intro!: exI [of _ 0])
  next
    case False
    have "(n + 1) mod 2 ^ 64 = n + 1" using Suc.prems(1) by (intro mod_less) linarith
    then have step: "mine_stamp_from P tag env at n = mine_stamp_from P tag env at (n + 1)"
      using False by (subst mine_stamp_from.simps) (simp add: Let_def del: le_bytes_numeral)
    have "n + 1 + k < 2 ^ 64" and "meets_pow (pow_hash P tag env at (le_bytes 8 (n + 1 + k)))"
      using Suc.prems by (simp_all del: le_bytes_numeral)
    from Suc.IH [OF this] obtain j where j: "j \<le> k" "mine_stamp_from P tag env at (n + 1) = Some (le_bytes 8 (n + 1 + j))"
      "meets_pow (pow_hash P tag env at (le_bytes 8 (n + 1 + j)))" by blast
    then show ?thesis using step by (intro exI [of _ "Suc j"]) (simp del: le_bytes_numeral)
  qed
qed

subsection \<open>Properties\<close>

text \<open>C37: if any nonce gives a digest below 2 to the 236, the search for a stamp ends and the stamped
  deposit is accepted by every node whose clock is close enough.\<close>

theorem mined_stamp_validates:
  assumes "digest32 (sha256 P)" and "n < 2 ^ 64" and "of_be (pow_hash P tag env at (le_bytes 8 n)) < 2 ^ 236"
    and "env \<noteq> []" and "length env \<le> MAX_ENVELOPE_BYTES" and "abs_diff at now \<le> MAX_CLOCK_DRIFT_SECS"
  shows "\<exists>nonce. mine_stamp P tag env at = Some nonce \<and>
    validate P \<lparr> d_tag = tag, d_envelope = env, deposited_at = at, pow_nonce = nonce \<rparr> now = Ok ()"
proof -
  have "length (pow_hash P tag env at (le_bytes 8 n)) = 32" using assms(1) by (simp only: pow_hash_def digest32_def)
  then have "meets_pow (pow_hash P tag env at (le_bytes 8 (0 + n)))" using assms(3) by (simp only: meets_pow_iff add_0)
  then obtain j where "mine_stamp P tag env at = Some (le_bytes 8 (0 + j))"
    and "meets_pow (pow_hash P tag env at (le_bytes 8 (0 + j)))"
    using mine_stamp_from_reaches [of 0 n P tag env at] assms(2) by (auto simp: mine_stamp_def simp del: le_bytes_numeral)
  then show ?thesis using assms(4-6) by (auto simp: validate_def simp del: le_bytes_numeral)
qed

lemma mined_stamp_validates_witness:
  "\<exists>nonce. mine_stamp toy [1] [2, 3] 1000 = Some nonce \<and>
    validate toy \<lparr> d_tag = [1], d_envelope = [2, 3], deposited_at = 1000, pow_nonce = nonce \<rparr> 1500 = Ok ()"
proof (rule mined_stamp_validates)
  show "of_be (pow_hash toy [1] [2, 3] 1000 (le_bytes 8 0)) < 2 ^ 236"
    using unat_byte_less [of "sum_list (pow_preimage toy [1] [2, 3] 1000 (le_bytes 8 0))"]
    by (simp add: pow_hash_def of_be_append del: le_bytes_numeral)
qed (simp_all add: digest32_def MAX_ENVELOPE_BYTES_def MAX_CLOCK_DRIFT_SECS_def abs_diff_def)

text \<open>C17: in every history of a cache a tag is answered from the index with exactly the deposits stored
  under it, oldest first.\<close>

theorem mailbox_serves_tags:
  assumes "bincode_laws P" and "keys_identify_tags P (accepted ops)" and "added_bytes P ops < 2 ^ 64"
  shows "for_tag tag (mailbox_run P ops fresh_mailbox) = scan_tag tag (mailbox_run P ops fresh_mailbox)"
  by (rule for_tag_scan, rule mailbox_run_ok [OF assms(1) fresh_mailbox_ok(1,2) assms(2)])
    (use assms(3) in \<open>simp_all add: fresh_mailbox_ok(3)\<close>)

text \<open>C38: accepting a deposit keeps the cache within its limit by dropping the oldest deposits first, and
  drops none when there is room; only a deposit larger than the limit is kept alone.\<close>

theorem accept_within_budget:
  assumes "bincode_laws P" and "mailbox_ok P s"
    and "total_bytes s + stored_size P \<lparr> s_tag = d_tag d, s_envelope = d_envelope d \<rparr> < 2 ^ 64"
  shows "(\<exists>n. deposits (accept P d s) =
        table_insert (deposit_key P d) \<lparr> s_tag = d_tag d, s_envelope = d_envelope d \<rparr> (drop n (deposits s)) \<and>
      (0 < n \<longrightarrow> limit_bytes s < total_bytes s + stored_size P \<lparr> s_tag = d_tag d, s_envelope = d_envelope d \<rparr>)) \<and>
    (stored_bytes P (accept P d s) \<le> limit_bytes s \<or> length (deposits (accept P d s)) = 1)"
proof -
  let ?v = "\<lparr> s_tag = d_tag d, s_envelope = d_envelope d \<rparr>" and ?k = "deposit_key P d"
  define e where "e = evict_until_room_for (stored_size P ?v) s"
  from evict_until_room_for_spec [OF assms(1,2), of "stored_size P ?v"] obtain n' where
    e: "mailbox_ok P e" "deposits e = drop n' (deposits s)" "total_bytes e \<le> total_bytes s"
      "u64_add (total_bytes e) (stored_size P ?v) \<le> limit_bytes s \<or> deposits e = []"
    unfolding e_def by blast
  have "e = s" if "total_bytes s + stored_size P ?v \<le> limit_bytes s"
    using that assms(3) unfolding e_def by (subst evict_until_room_for.simps) (simp add: u64_add_exact)
  then obtain n where n: "deposits e = drop n (deposits s)" "0 < n \<longrightarrow> limit_bytes s < total_bytes s + stored_size P ?v"
    using e(2) by (cases "total_bytes s + stored_size P ?v \<le> limit_bytes s") (force intro: that [of 0] that [of n'])+
  have a: "deposits (accept P d s) = table_insert ?k ?v (deposits e)" by (simp add: accept_def Let_def e_def)
  have ok: "table_ok (deposits e)" "stored_bytes P e \<le> total_bytes e" using e(1) by (simp_all add: mailbox_ok_def)
  have "stored_bytes P (accept P d s) \<le> limit_bytes s" if "u64_add (total_bytes e) (stored_size P ?v) \<le> limit_bytes s"
  proof -
    have "total_bytes e + stored_size P ?v \<le> limit_bytes s"
      using that assms(3) e(3) by (simp add: u64_add_exact)
    moreover have "stored_bytes P (accept P d s) \<le> stored_size P ?v + stored_bytes P e"
      using sum_list_table_insert [OF ok(1), of "stored_size P" ?k ?v] by (simp add: stored_bytes_def a)
    ultimately show ?thesis using ok(2) by linarith
  qed
  moreover have "length (deposits (accept P d s)) = 1" if "deposits e = []" by (simp add: a that)
  moreover have "deposits (accept P d s) = table_insert ?k ?v (drop n (deposits s))" by (simp only: a n(1))
  ultimately show ?thesis using e(4) n(2) by blast
qed


text \<open>Two deposits for the concrete runs.\<close>

definition toy_deposit :: "nat \<Rightarrow> MailboxDeposit" where
  "toy_deposit at = \<lparr> d_tag = replicate 32 7, d_envelope = [2, 3], deposited_at = at, pow_nonce = le_bytes 8 0 \<rparr>"

lemma toy_sizes: "stored_size toy \<lparr> s_tag = d_tag (toy_deposit at), s_envelope = d_envelope (toy_deposit at) \<rparr> = 42"
  by (simp add: stored_size_def toy_deposit_def)

lemma mailbox_serves_tags_witness:
  "for_tag (replicate 32 7) (mailbox_run toy [Accept (toy_deposit 5), Expire 9, Accept (toy_deposit 4)] fresh_mailbox) =
    scan_tag (replicate 32 7) (mailbox_run toy [Accept (toy_deposit 5), Expire 9, Accept (toy_deposit 4)] fresh_mailbox)"
proof (rule mailbox_serves_tags [OF toy_laws(6)])
  have "d \<in> accepted [Accept (toy_deposit 5), Expire 9, Accept (toy_deposit 4)] \<Longrightarrow> d_tag d = (replicate 32 7)" for d
    by (auto simp: accepted_def toy_deposit_def)
  then show "keys_identify_tags toy (accepted [Accept (toy_deposit 5), Expire 9, Accept (toy_deposit 4)])"
    by (simp add: keys_identify_tags_def)
qed (simp add: added_bytes_def toy_sizes)

text \<open>With room for one deposit, the second one takes the place of the first.\<close>

lemma accept_within_budget_witness:
  "\<exists>s. map fst (deposits s) = [deposit_key toy (toy_deposit 5)] \<and> limit_bytes s = 60 \<and>
    map fst (deposits (accept toy (toy_deposit 6) s)) = [deposit_key toy (toy_deposit 6)] \<and>
    (stored_bytes toy (accept toy (toy_deposit 6) s) \<le> 60 \<or> length (deposits (accept toy (toy_deposit 6) s)) = 1)"
proof -
  let ?v = "\<lambda>at. \<lparr> s_tag = d_tag (toy_deposit at), s_envelope = d_envelope (toy_deposit at) \<rparr>"
  let ?k = "\<lambda>at. deposit_key toy (toy_deposit at)"
  let ?s = "set_limit_bytes 60 fresh_mailbox\<lparr> deposits := [(?k 5, ?v 5)], by_tag := [(replicate 32 7, ?k 5)], total_bytes := 42 \<rparr>"
  have limit: "limit_bytes ?s = 60" by (simp add: set_limit_bytes_def)
  have ok: "mailbox_ok toy ?s"
    by (simp add: mailbox_ok_def table_ok_def stored_bytes_def toy_sizes) (auto simp: toy_deposit_def)
  have fits: "total_bytes ?s + stored_size toy (?v 6) < 2 ^ 64" by (simp add: toy_sizes)
  obtain n where n: "deposits (accept toy (toy_deposit 6) ?s) = table_insert (?k 6) (?v 6) (drop n (deposits ?s))"
    "stored_bytes toy (accept toy (toy_deposit 6) ?s) \<le> 60 \<or> length (deposits (accept toy (toy_deposit 6) ?s)) = 1"
    using accept_within_budget [OF toy_laws(6) ok fits] unfolding limit by blast
  have "?k 5 < ?k 6" by (simp add: deposit_key_def toy_deposit_def be_bytes_def)
  then have "\<not> ?k 6 < ?k 5" "?k 6 \<noteq> ?k 5" by auto
  then have "n \<noteq> 0" using n by (intro notI) (simp add: stored_bytes_def toy_sizes)
  then have "map fst (deposits (accept toy (toy_deposit 6) ?s)) = [?k 6]" using n(1) by simp
  then show ?thesis using n(2) limit by (intro exI [of _ ?s]) simp
qed

lemma lexicographic_append:
  fixes xs ys :: bytes
  shows "length xs = length ys \<Longrightarrow> xs < ys \<Longrightarrow> xs @ a < ys @ b"
  by (induction xs ys rule: list_induct2) auto

lemma older_first:
  fixes k k' :: bytes
  assumes "k < k'" and "length k = 40" and "length k' = 40"
  shows "of_be (take 8 k) \<le> of_be (take 8 k')"
proof (rule ccontr)
  assume "\<not> ?thesis"
  then have "take 8 k' < take 8 k" using lexicographic_less_iff [of "take 8 k'" "take 8 k"] assms(2,3) by simp
  then have "take 8 k' @ drop 8 k' < take 8 k @ drop 8 k" using assms(2,3) by (intro lexicographic_append) simp_all
  then show False using assms(1) by simp
qed

definition is_fresh :: "nat \<Rightarrow> bytes \<times> StoredDeposit \<Rightarrow> bool" where
  "is_fresh now kv \<longleftrightarrow> now - of_be (take 8 (fst kv)) \<le> RETENTION_SECS"

text \<open>The sweep always ends and removes exactly the deposits older than the retention time, although
  it only ever looks at the first one.\<close>

theorem expired_deposits_swept:
  assumes "bincode_laws P" and "mailbox_ok P s" and "\<forall>kv \<in> set (deposits s). length (fst kv) = 40"
  shows "deposits (evict_expired now s) = filter (is_fresh now) (deposits s)"
  using assms(2,3)
proof (induction now s rule: evict_expired.induct)
  case (1 now s)
  show ?case
  proof (cases "deposits s")
    case Nil
    then show ?thesis by (simp add: evict_expired.simps)
  next
    case (Cons kv t)
    obtain k v where kv: "kv = (k, v)" by (cases kv)
    let ?s = "remove_locked k (s_tag v) (length (s_envelope v)) s"
    note first = first_deposit [OF "1.prems"(1) Cons [unfolded kv]]
    have later: "of_be (take 8 k) \<le> of_be (take 8 (fst kv'))" if "kv' \<in> set t" for kv'
      using "1.prems" that by (intro older_first) (auto simp: Cons kv mailbox_ok_def table_ok_def)
    show ?thesis
    proof (cases "now - of_be (take 8 k) \<le> RETENTION_SECS")
      case True
      then have "\<forall>kv' \<in> set (deposits s). is_fresh now kv'"
        using later by (fastforce simp: is_fresh_def Cons kv)
      then show ?thesis using True Cons kv by (simp add: evict_expired.simps)
    next
      case False
      have ok: "mailbox_ok P ?s" using remove_locked_ok [OF assms(1) "1.prems"(1)] first by blast
      have t: "deposits ?s = t" using first by (simp add: remove_locked_def)
      have "deposits (evict_expired now ?s) = filter (is_fresh now) t"
        using "1.IH" [OF Cons kv [symmetric] False ok] "1.prems"(2) by (simp add: t Cons)
      moreover have "evict_expired now s = evict_expired now ?s"
        using Cons kv False by (subst evict_expired.simps) simp
      moreover have "\<not> is_fresh now kv" using False by (simp add: is_fresh_def kv)
      ultimately show ?thesis by (simp add: Cons)
    qed
  qed
qed

lemma expired_deposits_swept_witness:
  "deposits (evict_expired 2000000 (accept toy (toy_deposit 5) fresh_mailbox)) = []"
proof -
  have e: "evict_until_room_for 42 fresh_mailbox = fresh_mailbox"
    by (subst evict_until_room_for.simps) (simp add: mailbox_open_def no_mailbox_file_def DEFAULT_CACHE_LIMIT_BYTES_def)
  have acc: "deposits (accept toy (toy_deposit 5) fresh_mailbox) =
      [(deposit_key toy (toy_deposit 5), \<lparr> s_tag = replicate 32 7, s_envelope = [2, 3] \<rparr>)]"
    by (simp only: accept_def Let_def toy_sizes e) (simp add: mailbox_open_def no_mailbox_file_def toy_deposit_def)
  have "mailbox_ok toy (accept toy (toy_deposit 5) fresh_mailbox)"
    by (rule accept_ok [OF toy_laws(6) fresh_mailbox_ok(1)]) (simp_all add: toy_sizes fresh_mailbox_ok(3), simp add: mailbox_open_def no_mailbox_file_def)
  then have "deposits (evict_expired 2000000 (accept toy (toy_deposit 5) fresh_mailbox)) =
      filter (is_fresh 2000000) (deposits (accept toy (toy_deposit 5) fresh_mailbox))"
    by (rule expired_deposits_swept [OF toy_laws(6)]) (simp add: acc deposit_key_def)
  also have "\<dots> = []"
    by (simp add: acc is_fresh_def deposit_key_def RETENTION_SECS_def) (simp add: toy_deposit_def be_bytes_def)
  finally show ?thesis .
qed

text \<open>C40: delivering and removing a deposit does not free what storing it counted: the running total of
  an empty cache grows by the serialization overhead of every deposit that passed through.\<close>

theorem removal_leaks_budget:
  assumes "bincode_laws P" and "deposits s = []"
    and "total_bytes s + stored_size P \<lparr> s_tag = d_tag d, s_envelope = d_envelope d \<rparr> < 2 ^ 64"
  shows "deposits (remove_deposit (deposit_key P d) (accept P d s)) = [] \<and>
    total_bytes (remove_deposit (deposit_key P d) (accept P d s)) =
      total_bytes s + (stored_size P \<lparr> s_tag = d_tag d, s_envelope = d_envelope d \<rparr> - length (d_envelope d))"
proof -
  let ?v = "\<lparr> s_tag = d_tag d, s_envelope = d_envelope d \<rparr>"
  have "evict_until_room_for (stored_size P ?v) s = s"
    using assms(2) by (subst evict_until_room_for.simps) (simp add: evict_oldest_def)
  then have a: "deposits (accept P d s) = [(deposit_key P d, ?v)]"
    "total_bytes (accept P d s) = total_bytes s + stored_size P ?v"
    using assms(2,3) by (simp_all add: accept_def Let_def u64_add_exact)
  have "length (d_envelope d) \<le> stored_size P ?v" using assms(1) by (simp add: bincode_laws_def stored_size_def)
  then show ?thesis by (simp add: remove_deposit_def remove_locked_def a)
qed

lemma removal_leaks_budget_witness:
  "deposits (remove_deposit (deposit_key toy (toy_deposit 5)) (accept toy (toy_deposit 5) fresh_mailbox)) = [] \<and>
    total_bytes (remove_deposit (deposit_key toy (toy_deposit 5)) (accept toy (toy_deposit 5) fresh_mailbox)) = 40"
  using removal_leaks_budget [OF toy_laws(6), of fresh_mailbox "toy_deposit 5"]
  by (simp add: fresh_mailbox_ok(3) toy_sizes) (simp add: mailbox_open_def no_mailbox_file_def toy_deposit_def)

end
