(* ===== verification/Network.thy ===== *)
theory Network
  imports Store Mailbox
begin

text \<open>
  What \<^verbatim>\<open>packages/p2p-core\<close> takes from \<^verbatim>\<open>libp2p\<close>, \<^verbatim>\<open>sphinx-packet\<close>, \<^verbatim>\<open>rand\<close> and \<^verbatim>\<open>bincode\<close>, as one
  record of functions, and the three small modules around them: \<^verbatim>\<open>identity.rs\<close>, \<^verbatim>\<open>username.rs\<close> and
  \<^verbatim>\<open>rendezvous.rs\<close>. A peer id, a Sphinx packet and a reply block are represented by their bytes; a
  multiaddress is the list of its protocols. What the event loop reads from outside while it handles
  one event (clock, random draws, the answers of the swarm) is a second record, \<open>World\<close>.
\<close>

subsection \<open>Parameters\<close>

type_synonym PeerId = bytes
type_synonym NodeAddress = bytes
type_synonym RoutingKey = bytes
type_synonym SphinxPacket = bytes
type_synonym SURB = bytes
type_synonym QueryId = nat
type_synonym RequestId = nat

datatype Protocol = P2p PeerId | P2pCircuit | OtherProtocol bytes

type_synonym Multiaddr = "Protocol list"

record MixHop =
  address :: NodeAddress
  hop_public_key :: RoutingKey

datatype ProcessedPacketData =
    ForwardHop SphinxPacket NodeAddress nat
  | FinalHop bytes bytes bytes

record Network =
  prims :: Primitives
  addr_text :: "Multiaddr \<Rightarrow> bytes"
  addr_parse :: "bytes \<Rightarrow> Multiaddr option"
  utf8_valid :: "bytes \<Rightarrow> bool"
  ed_keypair :: "bytes \<Rightarrow> (string, bytes) res"
  keypair_public :: "bytes \<Rightarrow> bytes"
  ed_try_public :: "bytes \<Rightarrow> (string, bytes) res"
  to_peer_id :: "bytes \<Rightarrow> PeerId"
  kad_distance :: "bytes \<Rightarrow> PeerId \<Rightarrow> nat"
  sphinx_new :: "bytes \<Rightarrow> MixHop list \<Rightarrow> bytes \<Rightarrow> bytes \<Rightarrow> nat list \<Rightarrow> (string, SphinxPacket) res"
  sphinx_wf :: "bytes \<Rightarrow> bool"
  sphinx_process :: "SphinxPacket \<Rightarrow> bytes \<Rightarrow> (string, ProcessedPacketData) res"
  recover_plaintext :: "bytes \<Rightarrow> (string, bytes) res"
  surb_new :: "MixHop list \<Rightarrow> bytes \<Rightarrow> bytes \<Rightarrow> nat list \<Rightarrow> (string, SURB) res"
  surb_wf :: "bytes \<Rightarrow> bool"
  surb_use :: "SURB \<Rightarrow> bytes \<Rightarrow> nat \<Rightarrow> (string, SphinxPacket \<times> NodeAddress) res"
  default_payload_size :: nat
  max_path_length :: nat
  debug_text :: "bytes \<Rightarrow> string"
  enc_deposit :: "MailboxDeposit \<Rightarrow> bytes option"
  dec_deposit :: "bytes \<Rightarrow> MailboxDeposit option"
  enc_tx :: "Transaction \<Rightarrow> bytes option"
  dec_tx :: "bytes \<Rightarrow> Transaction option"
  enc_block :: "Block \<Rightarrow> bytes option"
  dec_block :: "bytes \<Rightarrow> Block option"
  enc_announcement :: "RoutingKey \<Rightarrow> bytes option"
  dec_announcement :: "bytes \<Rightarrow> RoutingKey option"

text \<open>A relay a path can use: its routing address, its peer id and its routing key.\<close>

type_synonym MixPeer = "NodeAddress \<times> PeerId \<times> RoutingKey"

text \<open>The first argument of the random draws numbers the draws of one event.\<close>

record World =
  clock :: "nat \<Rightarrow> nat"
  db_ok :: "nat \<Rightarrow> bool"
  query_id :: QueryId
  put_accepted :: bool
  request_id :: RequestId
  dial_error :: "string option"
  listen_error :: "string option"
  rng_choose :: "nat \<Rightarrow> MixPeer list \<Rightarrow> MixPeer option"
  rng_choose_multiple :: "nat \<Rightarrow> MixPeer list \<Rightarrow> nat \<Rightarrow> MixPeer list"
  rng_bytes :: "nat \<Rightarrow> nat \<Rightarrow> bytes"
  rng_bool :: "nat \<Rightarrow> bool"
  rng_delay :: "nat \<Rightarrow> nat \<Rightarrow> nat \<Rightarrow> nat"

text \<open>\<^verbatim>\<open>generate_from_average_duration\<close> of \<^verbatim>\<open>sphinx-packet\<close>: so many delays, each drawn around the average.\<close>

definition rng_delays :: "World \<Rightarrow> nat \<Rightarrow> nat \<Rightarrow> nat \<Rightarrow> nat list" where
  "rng_delays w i n avg = map (\<lambda>j. rng_delay w i j avg) [0..<n]"

lemma length_rng_delays [simp]: "length (rng_delays w i n avg) = n"
  by (simp add: rng_delays_def)

text \<open>\<^verbatim>\<open>IteratorRandom\<close>: one of the items, or as many of them as asked for and available.\<close>

definition rand_laws :: "World \<Rightarrow> bool" where
  "rand_laws w \<longleftrightarrow>
     (\<forall>i xs. (xs = [] \<longrightarrow> rng_choose w i xs = None) \<and> (xs \<noteq> [] \<longrightarrow> (\<exists>x \<in> set xs. rng_choose w i xs = Some x))) \<and>
     (\<forall>i xs n. mset (rng_choose_multiple w i xs n) \<subseteq># mset xs \<and>
        length (rng_choose_multiple w i xs n) = min n (length xs))"

subsection \<open>Texts\<close>

text \<open>The decimal text of a number, as \<^verbatim>\<open>format!\<close> writes it.\<close>

fun nat_string :: "nat \<Rightarrow> string" where
  "nat_string n = (if n < 10 then [char_of (48 + n)] else nat_string (n div 10) @ [char_of (48 + n mod 10)])"

declare nat_string.simps [simp del]

text \<open>\<^verbatim>\<open>impl Debug for Hash32\<close>, which \<^verbatim>\<open>Display\<close> uses.\<close>

definition hex_digit :: "nat \<Rightarrow> char" where
  "hex_digit d = (if d < 10 then char_of (48 + d) else char_of (87 + d))"

definition hash_text :: "Hash32 \<Rightarrow> string" where
  "hash_text h = concat (map (\<lambda>b. [hex_digit (unat b div 16), hex_digit (unat b mod 16)]) (hash_bytes h))"

text \<open>The messages of the two error types; \<open>debug_text\<close> is the quoted form of a string, and the dash in
  two of them is the UTF-8 sequence of U+2014.\<close>

definition dash :: string where "dash = [CHR 0xE2, CHR 0x80, CHR 0x94]"

fun error_text :: "Network \<Rightarrow> LedgerError \<Rightarrow> string" where
  "error_text N (InvalidUsername reason) = ''invalid username: '' @ reason"
| "error_text N SignatureInvalid = ''transaction signature does not verify against its own owner_public_key''"
| "error_text N (TooManyTransactions actual limit) =
     ''block contains '' @ nat_string actual @ '' transactions, more than the maximum of '' @ nat_string limit"
| "error_text N (BlockTooLarge actual limit) =
     ''block is '' @ nat_string actual @ '' bytes, more than the maximum of '' @ nat_string limit"
| "error_text N TxCommitmentMismatch = ''block's tx_commitment does not match the hash of its actual transactions''"
| "error_text N ProofOfWorkInvalid = ''block's proof-of-work hash does not meet its own difficulty_target''"
| "error_text N (DifficultyMismatch hgt) =
     ''block's difficulty_target does not match the retarget expected at height '' @ nat_string hgt"
| "error_text N (UnknownParent h) =
     ''block references an unknown parent '' @ hash_text h @ '' '' @ dash @ '' sync that block first''"
| "error_text N (HeightMismatch parent actual) =
     ''block height '' @ nat_string actual @ '' is not its parent's height '' @ nat_string parent @ '' plus one''"
| "error_text N TimestampTooOld = ''block timestamp is not after the median of its last 11 ancestors''"
| "error_text N TimestampTooFarInFuture = ''block timestamp is too far in the future''"
| "error_text N AnchorInvalid =
     ''transaction's anchor_block_hash is not a real ancestor of this block within the allowed window''"
| "error_text N (UsernameAlreadyClaimed name) =
     ''username '' @ debug_text N name @ '' is already claimed by an earlier block in this chain''"
| "error_text N (DuplicateClaimInBlock name) = ''block contains more than one claim for username '' @ debug_text N name"
| "error_text N (UnknownBlock h) = ''a block hash was referenced that this chain has never seen: '' @ hash_text h"
| "error_text N (HeightNotFound hgt) =
     ''no canonical block at height '' @ nat_string hgt @ '' '' @ dash @ '' it's either not yet mined or already pruned''"
| "error_text N GenesisMismatch = ''candidate genesis block does not match the hardcoded genesis''"
| "error_text N (Storage reason) = ''persistent storage error: '' @ reason"

fun p2p_error_text :: "P2pError \<Rightarrow> string" where
  "p2p_error_text (InvalidSeed reason) = ''invalid identity seed: '' @ reason"
| "p2p_error_text (Setup reason) = ''failed to build the network transport/behaviour: '' @ reason"
| "p2p_error_text (Listen addr source) = ''failed to listen on '' @ addr @ '': '' @ source"
| "p2p_error_text (Dial peer source) = ''failed to dial '' @ peer @ '': '' @ source"
| "p2p_error_text NodeShutDown = ''the P2P event loop task is no longer running''"
| "p2p_error_text (LedgerFailure reason) = ''@username ledger storage error: '' @ reason"
| "p2p_error_text (MailboxFailure reason) = ''mailbox error: '' @ reason"
| "p2p_error_text (MixFailure reason) = ''mix routing error: '' @ reason"

subsection \<open>Identity\<close>

definition keypair_from_seed :: "Network \<Rightarrow> bytes \<Rightarrow> (P2pError, bytes) res" where
  "keypair_from_seed N seed = map_err InvalidSeed (ed_keypair N seed)"

definition peer_id_from_seed :: "Network \<Rightarrow> bytes \<Rightarrow> (P2pError, PeerId) res" where
  "peer_id_from_seed N seed =
     bind_res (keypair_from_seed N seed) (\<lambda>kp. Ok (to_peer_id N (keypair_public N kp)))"

definition peer_id_from_public_key :: "Network \<Rightarrow> bytes \<Rightarrow> (P2pError, PeerId) res" where
  "peer_id_from_public_key N pk =
     bind_res (map_err InvalidSeed (ed_try_public N pk)) (\<lambda>key. Ok (to_peer_id N key))"

subsection \<open>Keys of the distributed hash table\<close>

definition USERNAME_KEY_PREFIX :: bytes where
  "USERNAME_KEY_PREFIX = ascii ''/spiritchat/username/1/''"

text \<open>\<^verbatim>\<open>username::normalize\<close> is \<^verbatim>\<open>trim().to_lowercase()\<close>, the function \<^verbatim>\<open>normalize_username\<close> of the
  ledger.\<close>

definition dht_normalize :: "Network \<Rightarrow> bytes \<Rightarrow> bytes" where
  "dht_normalize N name = normalize_username (prims N) name"

definition username_record_key :: "Network \<Rightarrow> bytes \<Rightarrow> bytes" where
  "username_record_key N name = USERNAME_KEY_PREFIX @ dht_normalize N name"

definition ADDRS_KEY_PREFIX :: bytes where
  "ADDRS_KEY_PREFIX = ascii ''/spiritchat/addrs/1/''"

definition addrs_record_key :: "PeerId \<Rightarrow> bytes" where
  "addrs_record_key peer = ADDRS_KEY_PREFIX @ peer"

subsection \<open>Address records\<close>

definition encode_addresses :: "Network \<Rightarrow> Multiaddr list \<Rightarrow> bytes" where
  "encode_addresses N addrs = join_with [10] (map (addr_text N) addrs)"

text \<open>\<^verbatim>\<open>str::lines\<close>: the text between line feeds, without a carriage return before them; what follows
  the last line feed is a line only when it is not empty.\<close>

definition strip_cr :: "bytes \<Rightarrow> bytes" where
  "strip_cr line = (if line \<noteq> [] \<and> last line = 13 then butlast line else line)"

fun lines_from :: "bytes \<Rightarrow> bytes \<Rightarrow> bytes list" where
  "lines_from current [] = (if current = [] then [] else [current])"
| "lines_from current (b # bs) =
     (if b = 10 then strip_cr current # lines_from [] bs else lines_from (current @ [b]) bs)"

definition lines :: "bytes \<Rightarrow> bytes list" where
  "lines text = lines_from [] text"

definition decode_addresses :: "Network \<Rightarrow> bytes \<Rightarrow> Multiaddr list" where
  "decode_addresses N bs =
     (if \<not> utf8_valid N bs then [] else List.map_filter (addr_parse N) (lines bs))"

text \<open>\<^verbatim>\<open>libp2p\<close>: the text of a multiaddress is UTF-8 and stays so when joined with line feeds, it is not
  empty, has no line break in it and is parsed back.\<close>

definition addr_laws :: "Network \<Rightarrow> bool" where
  "addr_laws N \<longleftrightarrow>
     (\<forall>addrs. utf8_valid N (join_with [10] (map (addr_text N) addrs))) \<and>
     (\<forall>a. addr_text N a \<noteq> [] \<and> 10 \<notin> set (addr_text N a) \<and> 13 \<notin> set (addr_text N a) \<and>
        addr_parse N (addr_text N a) = Some a)"

lemma lines_from_text: "10 \<notin> set t \<Longrightarrow> lines_from cur (t @ bs) = lines_from (cur @ t) bs"
  by (induction t arbitrary: cur) auto

lemma lines_from_join:
  assumes "\<forall>t \<in> set ts. t \<noteq> [] \<and> 10 \<notin> set t \<and> 13 \<notin> set t"
  shows "lines_from [] (join_with [10] ts) = ts"
  using assms
proof (induction "[10::byte]" ts rule: join_with.induct)
  case (2 xs)
  then show ?case using lines_from_text [of xs "[]" "[]"] by simp
next
  case (3 xs ys zs)
  have "last xs \<in> set xs" "13 \<notin> set xs" using "3.prems" by simp_all
  then have "last xs \<noteq> 13" by auto
  then have "strip_cr xs = xs" by (simp add: strip_cr_def)
  then show ?case using 3 lines_from_text [of xs "[]" "10 # join_with [10] (ys # zs)"] by simp
qed simp

lemma addresses_roundtrip:
  assumes "addr_laws N"
  shows "decode_addresses N (encode_addresses N addrs) = addrs"
proof -
  have "lines (encode_addresses N addrs) = map (addr_text N) addrs"
    using assms unfolding lines_def encode_addresses_def by (intro lines_from_join) (auto simp: addr_laws_def)
  moreover have "List.map_filter (addr_parse N) (map (addr_text N) addrs) = addrs"
    using assms by (induction addrs) (auto simp: addr_laws_def List.map_filter_simps)
  ultimately show ?thesis using assms by (simp add: decode_addresses_def addr_laws_def encode_addresses_def)
qed

text \<open>The keys of the two kinds of records never meet.\<close>

lemma record_keys_disjoint: "username_record_key N name \<noteq> addrs_record_key peer"
  by (simp add: username_record_key_def addrs_record_key_def USERNAME_KEY_PREFIX_def ADDRS_KEY_PREFIX_def ascii_def)

end
