(* ===== verification/Crypto_Bindings.thy ===== *)
theory Crypto_Bindings
  imports Handshake Recovery Network
begin

text \<open>
  \<^verbatim>\<open>packages/crypto-core-ffi\<close>, the half that wraps the encryption core: identities, agreement keys,
  recovery phrases, prekey stores, contact cards, the handshake, ratchets and username claims as
  objects that cross the language boundary as bytes. An object behind a \<^verbatim>\<open>Mutex\<close> is a value with its
  poison flag: a panic while the lock is held leaves it poisoned, and from then on every call panics.
\<close>

subsection \<open>Errors\<close>

text \<open>The messages of the encryption core, and the one error type of the boundary.\<close>

fun crypto_error_text :: "CryptoError \<Rightarrow> string" where
  "crypto_error_text (InvalidKeyLength expected actual) =
     ''invalid key length: expected '' @ nat_string expected @ '' bytes, got '' @ nat_string actual"
| "crypto_error_text CryptoSignatureInvalid = ''signature verification failed''"
| "crypto_error_text (Decode what) = ''malformed encoded data: '' @ what"
| "crypto_error_text DecryptionFailed = ''AEAD authentication failed (message tampered or wrong key)''"
| "crypto_error_text PrekeyExhausted = ''no one-time prekey available''"
| "crypto_error_text MessageKeyUnavailable = ''message key for this counter was already used or is unavailable''"
| "crypto_error_text TooManySkippedKeys = ''too many skipped message keys in one chain (possible replay/DoS)''"
| "crypto_error_text (InvalidRecoveryPhrase reason) = ''invalid recovery phrase: '' @ reason"

datatype FfiError = FfiCrypto string | FfiP2p string

definition crypto_failure :: "CryptoError \<Rightarrow> FfiError" where
  "crypto_failure e = FfiCrypto (crypto_error_text e)"

definition p2p_failure :: "P2pError \<Rightarrow> FfiError" where
  "p2p_failure e = FfiP2p (p2p_error_text e)"

type_synonym 'a ffi = "(FfiError, 'a) res"

text \<open>The \<^verbatim>\<open>?\<close> operator on a result of the encryption core.\<close>

abbreviation lifted :: "(CryptoError, 'a) res \<Rightarrow> 'a ffi" where
  "lifted r \<equiv> map_err crypto_failure r"

subsection \<open>Locks\<close>

datatype 'a Mutex = Mutex (poisoned: bool) (guarded: 'a)

definition unlocked :: "'a \<Rightarrow> 'a Mutex" where
  "unlocked x = Mutex False x"

definition with_lock :: "('a \<Rightarrow> 'a \<times> 'b ffi) \<Rightarrow> 'a Mutex \<Rightarrow> 'a Mutex \<times> 'b ffi" where
  "with_lock f m =
     (if poisoned m then (m, Panic)
      else case f (guarded m) of (x, r) \<Rightarrow> (Mutex (r = Panic) x, r))"

subsection \<open>Identities\<close>

type_synonym FfiIdentity = IdentityKeyPair

definition ffi_identity_generate :: "bytes \<Rightarrow> FfiIdentity" where
  "ffi_identity_generate random = generate_identity random"

definition ffi_identity_from_secret_bytes :: "bytes \<Rightarrow> FfiIdentity ffi" where
  "ffi_identity_from_secret_bytes bs = lifted (identity_key_from_bytes bs)"

definition ffi_identity_secret_bytes :: "FfiIdentity \<Rightarrow> bytes" where
  "ffi_identity_secret_bytes kp = signing_key kp"

definition ffi_identity_public_key_bytes :: "Primitives \<Rightarrow> FfiIdentity \<Rightarrow> bytes" where
  "ffi_identity_public_key_bytes P kp = verifying_key (public_key P kp)"

definition ffi_identity_fingerprint :: "Primitives \<Rightarrow> FfiIdentity \<Rightarrow> bytes" where
  "ffi_identity_fingerprint P kp = fingerprint_of P (public_key P kp)"

definition ffi_identity_sign :: "Primitives \<Rightarrow> FfiIdentity \<Rightarrow> bytes \<Rightarrow> bytes" where
  "ffi_identity_sign P kp message = identity_sign P kp message"

definition ffi_identity_verify :: "Primitives \<Rightarrow> bytes \<Rightarrow> bytes \<Rightarrow> bytes \<Rightarrow> bool" where
  "ffi_identity_verify P key message sig =
     (case identity_public_from_bytes P key of
        Ok pk \<Rightarrow> if length sig \<noteq> 64 then False else identity_verify P pk message sig = Ok ()
      | _ \<Rightarrow> False)"

definition identity_fingerprint_of_public_key :: "Primitives \<Rightarrow> bytes \<Rightarrow> bytes ffi" where
  "identity_fingerprint_of_public_key P key =
     bind_res (lifted (identity_public_from_bytes P key)) (\<lambda>pk. Ok (fingerprint_of P pk))"

subsection \<open>Agreement keys\<close>

type_synonym FfiAgreementKey = AgreementKeyPair

definition ffi_agreement_generate :: "bytes \<Rightarrow> FfiAgreementKey" where
  "ffi_agreement_generate random = AgreementKeyPair (take 32 random)"

definition ffi_agreement_from_secret_bytes :: "bytes \<Rightarrow> FfiAgreementKey ffi" where
  "ffi_agreement_from_secret_bytes bs = lifted (agreement_from_bytes bs)"

definition ffi_agreement_secret_bytes :: "FfiAgreementKey \<Rightarrow> bytes" where
  "ffi_agreement_secret_bytes k = agreement_secret k"

definition ffi_agreement_public_bytes :: "Primitives \<Rightarrow> FfiAgreementKey \<Rightarrow> bytes" where
  "ffi_agreement_public_bytes P k = agreement_public P k"

subsection \<open>Recovery phrases\<close>

type_synonym FfiRecoveryPhrase = RecoveryPhrase

definition ffi_phrase_generate :: "Primitives \<Rightarrow> bytes \<Rightarrow> FfiRecoveryPhrase" where
  "ffi_phrase_generate P random = phrase_generate P random"

definition ffi_phrase_from_words :: "Primitives \<Rightarrow> bytes \<Rightarrow> FfiRecoveryPhrase ffi" where
  "ffi_phrase_from_words P words = lifted (phrase_parse P words)"

definition ffi_phrase_words :: "FfiRecoveryPhrase \<Rightarrow> bytes" where
  "ffi_phrase_words ph = phrase_words ph"

definition ffi_phrase_derive_identity_seed :: "Primitives \<Rightarrow> FfiRecoveryPhrase \<Rightarrow> bytes" where
  "ffi_phrase_derive_identity_seed P ph = derive_identity_seed P ph"

subsection \<open>Blobs\<close>

definition blob_content_id :: "Primitives \<Rightarrow> bytes \<Rightarrow> bytes" where
  "blob_content_id P bs = sha256 P bs"

subsection \<open>Prekey stores\<close>

type_synonym FfiPrekeyStore = "PrekeyStore Mutex"

definition ffi_prekeys_generate :: "Primitives \<Rightarrow> FfiIdentity \<Rightarrow> nat \<Rightarrow> bytes \<Rightarrow> (nat \<Rightarrow> bytes) \<Rightarrow> FfiPrekeyStore" where
  "ffi_prekeys_generate P kp one_time_count random random_one_time =
     unlocked (prekey_generate P kp random (map random_one_time [0..<one_time_count]))"

definition ffi_prekeys_from_bytes :: "bytes \<Rightarrow> FfiPrekeyStore ffi" where
  "ffi_prekeys_from_bytes bs = bind_res (lifted (prekey_from_bytes bs)) (\<lambda>st. Ok (unlocked st))"

definition ffi_prekeys_to_bytes :: "FfiPrekeyStore \<Rightarrow> FfiPrekeyStore \<times> bytes ffi" where
  "ffi_prekeys_to_bytes m = with_lock (\<lambda>st. (st, Ok (prekey_to_bytes st))) m"

definition ffi_prekeys_contact_card ::
  "Primitives \<Rightarrow> FfiIdentity \<Rightarrow> FfiAgreementKey \<Rightarrow> FfiPrekeyStore \<Rightarrow> FfiPrekeyStore \<times> bytes ffi" where
  "ffi_prekeys_contact_card P kp agreement m =
     (let signed_agreement = agreement_sign_with P agreement kp in
      with_lock (\<lambda>st. let (st, bundle) = public_bundle P (public_key P kp) signed_agreement st in
                       (st, Ok (bundle_to_bytes bundle))) m)"

definition ffi_prekeys_one_time_prekey_count :: "FfiPrekeyStore \<Rightarrow> FfiPrekeyStore \<times> nat ffi" where
  "ffi_prekeys_one_time_prekey_count m =
     with_lock (\<lambda>st. (st, Ok (length (available_one_time_secrets st) mod 2 ^ 32))) m"

definition ffi_prekeys_signed_prekey_secret_bytes :: "FfiPrekeyStore \<Rightarrow> FfiPrekeyStore \<times> bytes ffi" where
  "ffi_prekeys_signed_prekey_secret_bytes m = with_lock (\<lambda>st. (st, Ok (signed_prekey_secret st))) m"

subsection \<open>Contact cards\<close>

type_synonym FfiContactCard = PrekeyBundle

definition ffi_card_parse :: "Primitives \<Rightarrow> bytes \<Rightarrow> FfiContactCard ffi" where
  "ffi_card_parse P bs =
     bind_res (lifted (bundle_from_bytes P bs)) (\<lambda>bundle.
     bind_res (lifted (bundle_verify P bundle)) (\<lambda>_. Ok bundle))"

definition ffi_card_identity_public_key_bytes :: "FfiContactCard \<Rightarrow> bytes" where
  "ffi_card_identity_public_key_bytes cc = verifying_key (identity cc)"

definition ffi_card_signed_prekey_public_bytes :: "FfiContactCard \<Rightarrow> bytes" where
  "ffi_card_signed_prekey_public_bytes cc = spk_public (signed_prekey cc)"

definition ffi_card_has_one_time_prekey :: "FfiContactCard \<Rightarrow> bool" where
  "ffi_card_has_one_time_prekey cc \<longleftrightarrow> one_time_prekey cc \<noteq> None"

definition ffi_card_fingerprint :: "Primitives \<Rightarrow> FfiContactCard \<Rightarrow> bytes" where
  "ffi_card_fingerprint P cc = fingerprint_of P (identity cc)"

subsection \<open>The handshake\<close>

record FfiHandshakeResult =
  shared_secret_bytes :: bytes
  initial_message_bytes :: bytes

record FfiRespondResult =
  responder_shared_secret :: bytes
  initiator_identity_bytes :: bytes

definition x3dh_initiate ::
  "Primitives \<Rightarrow> bytes \<Rightarrow> FfiIdentity \<Rightarrow> FfiAgreementKey \<Rightarrow> FfiContactCard \<Rightarrow> FfiHandshakeResult ffi" where
  "x3dh_initiate P random kp agreement cc =
     bind_res (lifted (initiate P random kp agreement cc)) (\<lambda>result.
       Ok \<lparr> shared_secret_bytes = as_bytes (shared_secret result),
            initial_message_bytes = initial_to_bytes (initial_message result) \<rparr>)"

definition x3dh_respond ::
  "Primitives \<Rightarrow> FfiAgreementKey \<Rightarrow> FfiPrekeyStore \<Rightarrow> bytes \<Rightarrow> FfiPrekeyStore \<times> FfiRespondResult ffi" where
  "x3dh_respond P agreement prekeys bs =
     (case lifted (initial_from_bytes P bs) of
        Ok message \<Rightarrow>
          with_lock (\<lambda>st. let (st, secret) = respond P agreement st message in
            (st, bind_res (lifted secret) (\<lambda>secret.
               Ok \<lparr> responder_shared_secret = as_bytes secret,
                    initiator_identity_bytes = verifying_key (initiator_identity message) \<rparr>))) prekeys
      | Err e \<Rightarrow> (prekeys, Err e)
      | Panic \<Rightarrow> (prekeys, Panic)
      | Diverge \<Rightarrow> (prekeys, Diverge))"

subsection \<open>Ratchets\<close>

type_synonym FfiRatchet = "DoubleRatchet Mutex"

definition ffi_ratchet_init_initiator :: "Primitives \<Rightarrow> bytes \<Rightarrow> bytes \<Rightarrow> bytes \<Rightarrow> FfiRatchet ffi" where
  "ffi_ratchet_init_initiator P random secret_bytes remote_ratchet_public_bytes =
     bind_res (lifted (shared_secret_from_bytes secret_bytes)) (\<lambda>secret.
     bind_res (lifted (init_initiator_from_bytes P random (as_bytes secret) remote_ratchet_public_bytes)) (\<lambda>ratchet.
       Ok (unlocked ratchet)))"

definition ffi_ratchet_init_responder :: "Primitives \<Rightarrow> bytes \<Rightarrow> bytes \<Rightarrow> FfiRatchet ffi" where
  "ffi_ratchet_init_responder P secret_bytes my_ratchet_secret_bytes =
     bind_res (lifted (shared_secret_from_bytes secret_bytes)) (\<lambda>secret.
     bind_res (lifted (init_responder_from_bytes P (as_bytes secret) my_ratchet_secret_bytes)) (\<lambda>ratchet.
       Ok (unlocked ratchet)))"

definition ffi_ratchet_from_bytes :: "Primitives \<Rightarrow> bytes \<Rightarrow> FfiRatchet ffi" where
  "ffi_ratchet_from_bytes P bs = bind_res (lifted (ratchet_from_bytes P bs)) (\<lambda>ratchet. Ok (unlocked ratchet))"

definition ffi_ratchet_to_bytes :: "FfiRatchet \<Rightarrow> FfiRatchet \<times> bytes ffi" where
  "ffi_ratchet_to_bytes m = with_lock (\<lambda>r. (r, Ok (ratchet_to_bytes r))) m"

definition ffi_ratchet_encrypt :: "Primitives \<Rightarrow> bytes \<Rightarrow> bytes \<Rightarrow> bytes \<Rightarrow> FfiRatchet \<Rightarrow> FfiRatchet \<times> bytes ffi" where
  "ffi_ratchet_encrypt P nonce_bytes plaintext associated_data m =
     with_lock (\<lambda>r. let (r, result) = encrypt P nonce_bytes r plaintext associated_data in
       (r, bind_res (lifted result) (\<lambda>(h, ciphertext). Ok (envelope_encode h ciphertext)))) m"

definition ffi_ratchet_decrypt :: "Primitives \<Rightarrow> bytes \<Rightarrow> bytes \<Rightarrow> bytes \<Rightarrow> FfiRatchet \<Rightarrow> FfiRatchet \<times> bytes ffi" where
  "ffi_ratchet_decrypt P random message associated_data m =
     (case lifted (envelope_decode message) of
        Ok (h, ciphertext) \<Rightarrow>
          with_lock (\<lambda>r. let (r, result) = decrypt P random r h ciphertext associated_data in (r, lifted result)) m
      | Err e \<Rightarrow> (m, Err e)
      | Panic \<Rightarrow> (m, Panic)
      | Diverge \<Rightarrow> (m, Diverge))"

definition ffi_ratchet_local_ratchet_public_bytes :: "FfiRatchet \<Rightarrow> FfiRatchet \<times> bytes ffi" where
  "ffi_ratchet_local_ratchet_public_bytes m = with_lock (\<lambda>r. (r, Ok (dh_self_public r))) m"

end
