(* ===== verification/Conversation.thy ===== *)
theory Conversation
  imports Crypto_Bindings
begin

text \<open>
  What an application gets from the objects of \<^verbatim>\<open>packages/crypto-core-ffi\<close> when it uses them the way
  \<^verbatim>\<open>tests/end_to_end.rs\<close> does: two people meet over a contact card, every message crosses as bytes, and
  either side may save and restore its ratchet between messages.
\<close>

subsection \<open>Locks\<close>

lemma with_lock_unlocked:
  "f x = (y, r) \<Longrightarrow> r \<noteq> Panic \<Longrightarrow> with_lock f (unlocked x) = (unlocked y, r)"
  by (simp add: with_lock_def unlocked_def)

lemma lifted_Panic [simp]: "lifted r = Panic \<longleftrightarrow> r = Panic" "Panic = lifted r \<longleftrightarrow> r = Panic"
  by (cases r; simp)+

subsection \<open>Messages that arrive in order\<close>

text \<open>\<open>following P s r\<close>: \<open>r\<close> stands exactly where \<open>s\<close> sends. \<open>derives P s r\<close>: \<open>s\<close> has not sent on its
  chain yet, and \<open>r\<close> will derive that chain.\<close>

definition following :: "DoubleRatchet \<Rightarrow> DoubleRatchet \<Rightarrow> bool" where
  "following s r \<longleftrightarrow> sending_chain s \<noteq> None \<and> receiving_chain r = sending_chain s \<and>
     dh_remote r = Some (dh_self_public s)"

definition derives :: "Primitives \<Rightarrow> DoubleRatchet \<Rightarrow> DoubleRatchet \<Rightarrow> bool" where
  "derives P s r \<longleftrightarrow>
     x_public P (dh_self s) = dh_self_public s \<and> x_public P (dh_self r) = dh_self_public r \<and>
     dh_remote s = Some (dh_self_public r) \<and> \<not> same_remote P (dh_remote r) (dh_self_public s) \<and>
     (\<exists>ck. root_kdf P (root_key r) (x_dh P (dh_self s) (dh_self_public r)) = (root_key s, ck) \<and> sending_chain s = Some ck) \<and>
     send_count s = 0 \<and> previous_sending_chain_length s = recv_count r"

text \<open>Two ratchets in a conversation where nothing is under way: \<open>s\<close> spoke last, or has not been able
  to speak yet.\<close>

definition conversing :: "Primitives \<Rightarrow> DoubleRatchet \<Rightarrow> DoubleRatchet \<Rightarrow> bool" where
  "conversing P s r \<longleftrightarrow> skipped s = [] \<and> skipped r = [] \<and> derives P r s \<and> recv_count r = send_count s \<and>
     (sending_chain s = None \<or> following s r)"

lemma skip_nothing:
  assumes "until \<le> recv_count r"
  shows "skip_message_keys P until r = Ok r"
  using assms by (auto simp: skip_message_keys_def skip_loop.simps split: option.split)

lemma encrypt_shape:
  assumes "sending_chain s = Some ck" and "encrypt P iv s pt aad = (s', Ok m)"
  shows "s' = s\<lparr> sending_chain := Some (snd (chain_ratchet P ck)), send_count := (send_count s + 1) mod 2 ^ 32 \<rparr>"
    and "fst m = \<lparr> dh_public = dh_self_public s, previous_chain_length = previous_sending_chain_length s,
      message_number = send_count s \<rparr>"
    and "aead_encrypt P iv (fst (chain_ratchet P ck)) pt (full_associated_data aad (fst m)) = Ok (snd m)"
  using assms by (auto simp: encrypt_def Let_def split_beta bind_res_Ok)

lemma next_message:
  assumes "aead_laws P" and "following s r" and "recv_count r = send_count s" and "skipped r = []" and "length iv = 12"
    and "encrypt P iv s pt aad = (s', Ok m)"
  shows "decrypt P rnd r (fst m) (snd m) aad =
      (r\<lparr> receiving_chain := sending_chain s', recv_count := send_count s' \<rparr>, Ok pt) \<and>
    following s' (r\<lparr> receiving_chain := sending_chain s', recv_count := send_count s' \<rparr>)"
proof -
  obtain ck where f: "sending_chain s = Some ck" "receiving_chain r = Some ck" "dh_remote r = Some (dh_self_public s)"
    "recv_count r = send_count s" using assms(2,3) by (auto simp: following_def)
  note e = encrypt_shape [OF f(1) assms(6)]
  have "aead_decrypt P (fst (chain_ratchet P ck)) (snd m) (full_associated_data aad (fst m)) = Ok pt"
    by (rule aead_roundtrip [OF assms(1,5) e(3)])
  then have "decrypt P rnd r (fst m) (snd m) aad =
      (r\<lparr> receiving_chain := sending_chain s', recv_count := send_count s' \<rparr>, Ok pt)"
    using assms(4) f by (simp add: decrypt_def decrypt_working_def skipped_take_def e(1,2) skip_nothing Let_def split_beta)
  then show ?thesis using f e(1) by (simp add: following_def)
qed

lemma first_of_turn:
  assumes "aead_laws P" and "x25519_laws P" and "derives P s r" and "skipped r = []" and "length iv = 12"
    and "encrypt P iv s pt aad = (s', Ok m)" and "x_canon P (x_public P rnd) \<noteq> x_canon P (dh_self_public r)"
    and "recv_count s = send_count r"
  shows "\<exists>r'. decrypt P rnd r (fst m) (snd m) aad = (r', Ok pt) \<and> following s' r' \<and> recv_count r' = send_count s' \<and> derives P r' s' \<and> skipped r' = [] \<and>
    dh_self r' = rnd"
proof -
  note d = assms(3) [unfolded derives_def]
  obtain ck where root: "root_kdf P (root_key r) (x_dh P (dh_self s) (dh_self_public r)) = (root_key s, ck)"
    and ck: "sending_chain s = Some ck" using d by blast
  have counts: "send_count s = 0" "previous_sending_chain_length s = recv_count r"
    and new: "\<not> same_remote P (dh_remote r) (dh_self_public s)" using d by blast+
  note e = encrypt_shape [OF ck assms(6)]
  have "x_dh P (dh_self r) (dh_self_public s) = x_dh P (dh_self s) (dh_self_public r)"
    using d assms(2) unfolding x25519_laws_def by metis
  then have "root_kdf P (root_key r) (x_dh P (dh_self r) (dh_self_public s)) = (root_key s, ck)" using root by simp
  note step = dh_ratchet_step_simps [OF this, of rnd]
  let ?r = "dh_ratchet_step P rnd (dh_self_public s) r"
  let ?r' = "?r\<lparr> receiving_chain := sending_chain s', recv_count := send_count s' \<rparr>"
  have "aead_decrypt P (fst (chain_ratchet P ck)) (snd m) (full_associated_data aad (fst m)) = Ok pt"
    by (rule aead_roundtrip [OF assms(1,5) e(3)])
  then have "decrypt P rnd r (fst m) (snd m) aad = (?r', Ok pt)"
    using assms(4) counts new
    by (simp add: decrypt_def decrypt_working_def skipped_take_def e(1,2) skip_nothing Let_def split_beta step
        skipped_unchanged [OF assms(4)])
  moreover have "following s' ?r'" by (simp add: following_def e(1) step)
  moreover have "derives P ?r' s'"
  proof -
    have "dh_remote s = Some (dh_self_public r)" "x_public P (dh_self s) = dh_self_public s" using d by blast+
    then show ?thesis using assms(7,8) by (simp add: derives_def e(1) step same_remote_def prod_eq_iff)
  qed
  moreover have "recv_count ?r' = send_count s'" "skipped ?r' = []" "dh_self ?r' = rnd" using assms(4) by (simp_all add: step)
  ultimately show ?thesis by blast
qed

lemma conversing_speaks_on:
  assumes "aead_laws P" and "conversing P s r" and "length iv = 12" and "encrypt P iv s pt aad = (s', Ok m)"
  shows "\<exists>r'. decrypt P rnd r (fst m) (snd m) aad = (r', Ok pt) \<and> conversing P s' r' \<and>
    dh_self_public s' = dh_self_public s \<and> dh_self_public r' = dh_self_public r"
proof -
  have f: "following s r" "recv_count r = send_count s" "skipped r = []" "skipped s = []" "derives P r s"
    using assms(2,4) by (auto simp: conversing_def encrypt_def)
  then obtain ck where ck: "sending_chain s = Some ck" by (auto simp: following_def)
  let ?r' = "r\<lparr> receiving_chain := sending_chain s', recv_count := send_count s' \<rparr>"
  note nxt = next_message [OF assms(1) f(1,2,3) assms(3,4), of rnd]
  moreover have "conversing P s' ?r'"
    using f nxt encrypt_shape(1) [OF ck assms(4)] by (simp add: conversing_def derives_def)
  moreover have "dh_self_public s' = dh_self_public s" using encrypt_shape(1) [OF ck assms(4)] by simp
  ultimately show ?thesis by auto
qed

lemma conversing_answers:
  assumes "aead_laws P" and "x25519_laws P" and "conversing P s r" and "length iv = 12" and "encrypt P iv r pt aad = (r', Ok m)"
    and "x_canon P (x_public P rnd) \<noteq> x_canon P (dh_self_public s)"
  shows "\<exists>s'. decrypt P rnd s (fst m) (snd m) aad = (s', Ok pt) \<and> conversing P r' s' \<and>
    dh_self_public r' = dh_self_public r \<and> dh_self_public s' = x_public P rnd"
proof -
  have f: "derives P r s" "recv_count r = send_count s" "skipped r = []" "skipped s = []"
    using assms(3) by (auto simp: conversing_def)
  then obtain ck where ck: "sending_chain r = Some ck" by (auto simp: derives_def)
  obtain s' where "decrypt P rnd s (fst m) (snd m) aad = (s', Ok pt)" "following r' s'" "recv_count s' = send_count r'"
    "derives P s' r'" "skipped s' = []" "dh_self s' = rnd"
    using first_of_turn [OF assms(1,2) f(1,4) assms(4-6) f(2)] by blast
  then show ?thesis using f(3) encrypt_shape(1) [OF ck assms(5)] by (auto simp: conversing_def derives_def)
qed

lemma conversing_start:
  "conversing P (init_responder P secret b) (init_initiator P a secret (x_public P b))"
  by (simp add: conversing_def derives_def init_initiator_def init_responder_def same_remote_def skipped_new_def
      split: prod.split)

subsection \<open>Meeting and talking\<close>

text \<open>Bob shows a card, Alice scans it and starts the handshake, Bob answers, and both start their
  ratchets; \<open>e\<close> and \<open>a\<close> are the secrets Alice draws.\<close>

definition meet ::
  "Primitives \<Rightarrow> bytes \<Rightarrow> bytes \<Rightarrow> FfiIdentity \<Rightarrow> FfiAgreementKey \<Rightarrow> FfiIdentity \<Rightarrow> FfiAgreementKey \<Rightarrow>
    FfiPrekeyStore \<Rightarrow> (FfiRatchet \<times> FfiRatchet \<times> FfiRespondResult) ffi" where
  "meet P e a alice alice_agreement bob bob_agreement prekeys =
     (let (prekeys, card_bytes) = ffi_prekeys_contact_card P bob bob_agreement prekeys in
      bind_res card_bytes (\<lambda>card_bytes.
      bind_res (ffi_card_parse P card_bytes) (\<lambda>bob_card.
      bind_res (x3dh_initiate P e alice alice_agreement bob_card) (\<lambda>handshake.
        let (prekeys, answer) = x3dh_respond P bob_agreement prekeys (initial_message_bytes handshake) in
        bind_res answer (\<lambda>answer.
          let (prekeys, secret) = ffi_prekeys_signed_prekey_secret_bytes prekeys in
          bind_res secret (\<lambda>secret.
          bind_res (ffi_ratchet_init_initiator P a (shared_secret_bytes handshake)
              (ffi_card_signed_prekey_public_bytes bob_card)) (\<lambda>alice_ratchet.
          bind_res (ffi_ratchet_init_responder P (responder_shared_secret answer) secret) (\<lambda>bob_ratchet.
            Ok (alice_ratchet, bob_ratchet, answer)))))))))"

text \<open>One message: sealed by \<open>s\<close>, carried as bytes, opened by \<open>r\<close>. And a restart of the application.\<close>

definition say ::
  "Primitives \<Rightarrow> bytes \<Rightarrow> bytes \<Rightarrow> bytes \<Rightarrow> bytes \<Rightarrow> FfiRatchet \<Rightarrow> FfiRatchet \<Rightarrow> (FfiRatchet \<times> FfiRatchet) \<times> bytes ffi" where
  "say P iv rnd aad pt s r =
     (let (s, sent) = ffi_ratchet_encrypt P iv pt aad s in
      case sent of
        Ok wire \<Rightarrow> let (r, got) = ffi_ratchet_decrypt P rnd wire aad r in ((s, r), got)
      | failed \<Rightarrow> ((s, r), failed))"

definition restart :: "Primitives \<Rightarrow> FfiRatchet \<Rightarrow> FfiRatchet ffi" where
  "restart P m = bind_res (snd (ffi_ratchet_to_bytes m)) (ffi_ratchet_from_bytes P)"

datatype turn = Say bool bytes bytes bytes bytes | Restart bool

text \<open>What is read in a conversation of Alice (\<open>True\<close>) and Bob; it ends when a restart fails.\<close>

fun converse :: "Primitives \<Rightarrow> FfiRatchet \<Rightarrow> FfiRatchet \<Rightarrow> turn list \<Rightarrow> bytes ffi list" where
  "converse P A B [] = []"
| "converse P A B (Say True iv rnd aad pt # ts) = (let ((A, B), got) = say P iv rnd aad pt A B in got # converse P A B ts)"
| "converse P A B (Say False iv rnd aad pt # ts) = (let ((B, A), got) = say P iv rnd aad pt B A in got # converse P A B ts)"
| "converse P A B (Restart True # ts) = (case restart P A of Ok A \<Rightarrow> converse P A B ts | _ \<Rightarrow> [])"
| "converse P A B (Restart False # ts) = (case restart P B of Ok B \<Rightarrow> converse P A B ts | _ \<Rightarrow> [])"

fun said :: "turn list \<Rightarrow> bytes list" where
  "said [] = []"
| "said (Say who iv rnd aad pt # ts) = pt # said ts"
| "said (Restart who # ts) = said ts"

fun drawn :: "turn list \<Rightarrow> bytes list" where
  "drawn [] = []"
| "drawn (Say who iv rnd aad pt # ts) = rnd # drawn ts"
| "drawn (Restart who # ts) = drawn ts"

fun alice_first :: "turn list \<Rightarrow> bool" where
  "alice_first [] \<longleftrightarrow> True"
| "alice_first (Say who iv rnd aad pt # ts) \<longleftrightarrow> who"
| "alice_first (Restart who # ts) \<longleftrightarrow> alice_first ts"

fun sized :: "turn \<Rightarrow> bool" where
  "sized (Say who iv rnd aad pt) \<longleftrightarrow> length iv = 12 \<and> length rnd = 32"
| "sized (Restart who) \<longleftrightarrow> True"

text \<open>The cipher seals every message (it refuses only plaintexts beyond 256 GiB).\<close>

definition seals :: "Primitives \<Rightarrow> bool" where
  "seals P \<longleftrightarrow> (\<forall>k n a pt. aead_seal P k n a pt \<noteq> None)"

lemma encrypt_seals:
  assumes "seals P" and "sending_chain s \<noteq> None"
  obtains s' m where "encrypt P iv s pt aad = (s', Ok m)" and "sending_chain s' \<noteq> None"
proof -
  obtain ck where ck: "sending_chain s = Some ck" using assms(2) by blast
  have "\<exists>ct. aead_encrypt P iv (fst (chain_ratchet P ck)) pt ad = Ok ct" for ad
    using assms(1) by (auto simp: seals_def aead_encrypt_def split: option.split)
  then obtain ct where "aead_encrypt P iv (fst (chain_ratchet P ck)) pt
      (full_associated_data aad \<lparr> dh_public = dh_self_public s, previous_chain_length = previous_sending_chain_length s,
        message_number = send_count s \<rparr>) = Ok ct" by blast
  then show ?thesis using that by (simp add: encrypt_def ck Let_def split_beta)
qed

lemma say_eq:
  assumes "encrypt P iv s pt aad = (s', Ok m)" and "decrypt P rnd r (fst m) (snd m) aad = (r', Ok pt)"
    and "wf_message_header (fst m)"
  shows "say P iv rnd aad pt (unlocked s) (unlocked r) = ((unlocked s', unlocked r'), Ok pt)"
proof -
  have "envelope_decode (envelope_encode (fst m) (snd m)) = Ok m"
    by (simp add: envelope_decode_def envelope_encode_def msg_header.decode_encode [OF assms(3)])
  then show ?thesis using assms(1,2)
    by (simp add: say_def ffi_ratchet_encrypt_def ffi_ratchet_decrypt_def with_lock_def unlocked_def split_beta)
qed

lemma say_delivers:
  assumes "aead_laws P" and "x25519_laws P" and "kdf_laws P" and "seals P" and "wf_ratchet P s" and "wf_ratchet P r"
    and "length iv = 12" and "length rnd = 32" and "sending_chain s \<noteq> None"
    and "conversing P s r \<or> conversing P r s \<and> x_canon P (x_public P rnd) \<noteq> x_canon P (dh_self_public r)"
  obtains s' r' where "say P iv rnd aad pt (unlocked s) (unlocked r) = ((unlocked s', unlocked r'), Ok pt)"
    and "wf_ratchet P s'" and "wf_ratchet P r'" and "conversing P s' r'" and "sending_chain s' \<noteq> None"
    and "dh_self_public s' = dh_self_public s" and "dh_self_public r' \<in> {dh_self_public r, x_public P rnd}"
proof -
  obtain s' m where e: "encrypt P iv s pt aad = (s', Ok m)" "sending_chain s' \<noteq> None"
    by (rule encrypt_seals [OF assms(4,9)])
  obtain r' where d: "decrypt P rnd r (fst m) (snd m) aad = (r', Ok pt)" "conversing P s' r'"
    "dh_self_public s' = dh_self_public s" "dh_self_public r' \<in> {dh_self_public r, x_public P rnd}"
    using assms(10) conversing_speaks_on [OF assms(1) _ assms(7) e(1)] conversing_answers [OF assms(1,2) _ assms(7) e(1)]
    by blast
  obtain ck where "sending_chain s = Some ck" using assms(9) by blast
  from encrypt_shape(2) [OF this e(1)] have h: "wf_message_header (fst m)"
    using assms(2,5) by (simp add: wf_message_header_def wf_ratchet_store x25519_laws_def)
  have "wf_ratchet P s'" "wf_ratchet P r'"
    using encrypt_wf [OF assms(3,5), of iv pt aad] e(1) decrypt_wf [OF assms(3,8) h assms(6) d(1)] by simp_all
  then show ?thesis using that say_eq [OF e(1) d(1) h] d(2-4) e(2) by blast
qed

lemma restart_same: "wf_ratchet P r \<Longrightarrow> restart P (unlocked r) = Ok (unlocked r)"
  using ratchet_roundtrip [of P r "[]"]
  by (simp add: restart_def ffi_ratchet_to_bytes_def ffi_ratchet_from_bytes_def with_lock_def unlocked_def)

lemma conversing_sends: "conversing P s r \<Longrightarrow> sending_chain r \<noteq> None"
  by (auto simp: conversing_def derives_def)

lemma converse_reads:
  assumes "aead_laws P" and "x25519_laws P" and "kdf_laws P" and "seals P"
  shows "list_all sized ts \<Longrightarrow> wf_ratchet P s \<Longrightarrow> wf_ratchet P r \<Longrightarrow> conversing P s r \<or> conversing P r s \<Longrightarrow>
    sending_chain s \<noteq> None \<Longrightarrow> sending_chain r \<noteq> None \<or> alice_first ts \<Longrightarrow>
    {x_canon P (dh_self_public s), x_canon P (dh_self_public r)} \<subseteq> K \<Longrightarrow>
    K \<inter> x_canon P ` x_public P ` set (drawn ts) = {} \<Longrightarrow> distinct (map (\<lambda>k. x_canon P (x_public P k)) (drawn ts)) \<Longrightarrow>
    converse P (unlocked s) (unlocked r) ts = map Ok (said ts)"
proof (induction ts arbitrary: s r K)
  case (Cons t ts)
  show ?case
  proof (cases t)
    case (Restart who)
    then show ?thesis using Cons.IH [of s r K] Cons.prems by (cases who) (simp_all add: restart_same)
  next
    case (Say who iv rnd aad pt)
    let ?K = "insert (x_canon P (x_public P rnd)) K"
    have len: "length iv = 12" "length rnd = 32" and sized: "list_all sized ts" using Cons.prems(1) by (simp_all add: Say)
    have new: "x_canon P (x_public P rnd) \<notin> K" and rest: "?K \<inter> x_canon P ` x_public P ` set (drawn ts) = {}"
      "distinct (map (\<lambda>k. x_canon P (x_public P k)) (drawn ts))"
      using Cons.prems(8,9) by (auto simp: Say)
    show ?thesis
    proof (cases who)
      case True
      have "conversing P s r \<or> conversing P r s \<and> x_canon P (x_public P rnd) \<noteq> x_canon P (dh_self_public r)"
        using Cons.prems(4,7) new by auto
      then obtain s' r' where "say P iv rnd aad pt (unlocked s) (unlocked r) = ((unlocked s', unlocked r'), Ok pt)"
        "wf_ratchet P s'" "wf_ratchet P r'" "conversing P s' r'" "sending_chain s' \<noteq> None"
        "dh_self_public s' = dh_self_public s" "dh_self_public r' \<in> {dh_self_public r, x_public P rnd}"
        by (rule say_delivers [OF assms Cons.prems(2,3) len Cons.prems(5), where aad = aad and pt = pt])
      then show ?thesis using Cons.IH [OF sized, of s' r' ?K] conversing_sends [of P s' r'] Cons.prems(7) rest
        by (auto simp: Say True)
    next
      case False
      then have "sending_chain r \<noteq> None" using Cons.prems(6) by (simp add: Say)
      moreover have "conversing P r s \<or> conversing P s r \<and> x_canon P (x_public P rnd) \<noteq> x_canon P (dh_self_public s)"
        using Cons.prems(4,7) new by auto
      ultimately obtain s' r' where "say P iv rnd aad pt (unlocked r) (unlocked s) = ((unlocked r', unlocked s'), Ok pt)"
        "wf_ratchet P r'" "wf_ratchet P s'" "conversing P r' s'" "sending_chain r' \<noteq> None"
        "dh_self_public r' = dh_self_public r" "dh_self_public s' \<in> {dh_self_public s, x_public P rnd}"
        by (rule say_delivers [OF assms Cons.prems(3,2) len, where aad = aad and pt = pt])
      then show ?thesis using Cons.IH [OF sized, of s' r' ?K] conversing_sends [of P r' s'] Cons.prems(7) rest
        by (auto simp: Say False)
    qed
  qed
qed simp

subsection \<open>Properties\<close>

lemma meet_succeeds:
  assumes "ed25519_laws P" and "x25519_laws P" and "kdf_laws P" and "store_signed_by P bob st" and "length (signed_prekey_secret st) = 32"
  obtains k where "length k = 32"
    and "meet P e a alice alice_agreement bob bob_agreement (unlocked st) =
      Ok (unlocked (init_initiator P a k (x_public P (signed_prekey_secret st))),
          unlocked (init_responder P k (signed_prekey_secret st)),
          \<lparr> responder_shared_secret = k, initiator_identity_bytes = ffi_identity_public_key_bytes P alice \<rparr>)"
proof -
  obtain st' b where cc: "own_card P bob bob_agreement st = (st', b)" by (cases "own_card P bob bob_agreement st")
  obtain result where i: "initiate P e alice alice_agreement b = Ok result"
    and r: "respond P bob_agreement st' (initial_message result) =
      (st\<lparr> available_one_time_secrets := butlast (available_one_time_secrets st) \<rparr>, Ok (shared_secret result))"
    using handshake_secret [OF assms(1,2,4) cc] by blast
  have verify: "bundle_verify P b = Ok ()" by (rule own_card_verifies [OF assms(1,4) cc])
  have b: "wf_bundle P b" "spk_public (signed_prekey b) = x_public P (signed_prekey_secret st)"
    using cc assms(1,2,4)
    by (auto simp: own_card_def public_bundle_def wf_bundle_def store_signed_by_def sign_prekey_def agreement_sign_with_def
        agreement_public_def public_key_def identity_sign_def ed25519_laws_def x25519_laws_def Let_def split: if_splits)
  have parse: "bundle_from_bytes P (bundle_to_bytes b) = Ok b" using bundle_roundtrip [OF b(1), of "[]"] by simp
  have m: "wf_initial P (initial_message result)" "initiator_identity (initial_message result) = public_key P alice"
    "length (as_bytes (shared_secret result)) = 32"
    using i b(1) assms(1-3)
    by (auto simp: initiate_def verify wf_initial_def wf_bundle_def agreement_sign_with_def agreement_public_def public_key_def
        identity_sign_def ed25519_laws_def x25519_laws_def kdf_laws_def derive_shared_secret_def Let_def)
  have read: "initial_from_bytes P (initial_to_bytes (initial_message result)) = Ok (initial_message result)"
    using initial_message_roundtrip [OF m(1), of "[]"] by simp
  show ?thesis
  proof (rule that [OF m(3)])
    show "meet P e a alice alice_agreement bob bob_agreement (unlocked st) =
      Ok (unlocked (init_initiator P a (as_bytes (shared_secret result)) (x_public P (signed_prekey_secret st))),
          unlocked (init_responder P (as_bytes (shared_secret result)) (signed_prekey_secret st)),
          \<lparr> responder_shared_secret = as_bytes (shared_secret result),
             initiator_identity_bytes = ffi_identity_public_key_bytes P alice \<rparr>)"
      using cc i r verify parse read m(2,3) b(2) assms(2,5)
      by (simp add: meet_def ffi_prekeys_contact_card_def own_card_def with_lock_def unlocked_def ffi_card_parse_def
          x3dh_initiate_def x3dh_respond_def ffi_prekeys_signed_prekey_secret_bytes_def ffi_ratchet_init_initiator_def
          ffi_ratchet_init_responder_def shared_secret_from_bytes_def init_initiator_from_bytes_def
          init_responder_from_bytes_def x25519_public_from_bytes_def ffi_card_signed_prekey_public_bytes_def
          ffi_identity_public_key_bytes_def x25519_laws_def Let_def)
  qed
qed

text \<open>C3: two people who met over a contact card understand each other through the bindings for as long
  as they talk. Everything crosses as bytes, whoever wants to speak speaks (the one who scanned the
  card first), and either application may be restarted between any two messages; every message is
  read as it was written, and the owner of the card learns who wrote.\<close>

theorem conversation_goes_on:
  assumes "ed25519_laws P" and "x25519_laws P" and "kdf_laws P" and "aead_laws P" and "seals P"
    and "store_signed_by P bob st" and "length (signed_prekey_secret st) = 32" and "length a = 32"
    and "list_all sized ts" and "alice_first ts"
    and "distinct (map (\<lambda>k. x_canon P (x_public P k)) (a # signed_prekey_secret st # drawn ts))"
  shows "\<exists>A B answer. meet P e a alice alice_agreement bob bob_agreement (unlocked st) = Ok (A, B, answer) \<and>
    initiator_identity_bytes answer = ffi_identity_public_key_bytes P alice \<and>
    converse P A B ts = map Ok (said ts)"
proof -
  let ?b = "signed_prekey_secret st"
  obtain k where k: "length k = 32"
    and m: "meet P e a alice alice_agreement bob bob_agreement (unlocked st) =
      Ok (unlocked (init_initiator P a k (x_public P ?b)), unlocked (init_responder P k ?b),
          \<lparr> responder_shared_secret = k, initiator_identity_bytes = ffi_identity_public_key_bytes P alice \<rparr>)"
    by (rule meet_succeeds [OF assms(1,2,3,6,7)])
  have "length (x_public P ?b) = 32" using assms(2) by (simp add: x25519_laws_def)
  then have "wf_ratchet P (init_initiator P a k (x_public P ?b))" "wf_ratchet P (init_responder P k ?b)"
    using ratchet_state_wf [OF assms(3) ratchet_state.initiator] ratchet_state_wf [OF assms(3) ratchet_state.responder]
      assms(7,8) k by blast+
  then have "converse P (unlocked (init_initiator P a k (x_public P ?b))) (unlocked (init_responder P k ?b)) ts = map Ok (said ts)"
    using assms(8-11) conversing_start [of P k ?b a]
    by (intro converse_reads [OF assms(4,2,3,5), where K = "{x_canon P (x_public P a), x_canon P (x_public P ?b)}"]) auto
  then show ?thesis using m by auto
qed

lemma conversation_goes_on_witness:
  "\<exists>A B answer. meet toy [7] (replicate 32 1) (IdentityKeyPair [5]) (AgreementKeyPair [6]) (IdentityKeyPair [1])
      (AgreementKeyPair [8]) (unlocked (prekey_generate toy (IdentityKeyPair [1]) (replicate 32 2) [[3], [4]])) =
        Ok (A, B, answer) \<and>
    converse toy A B [Restart False, Say True (replicate 12 0) (replicate 32 3) [] [10], Restart True, Restart False,
        Say False (replicate 12 0) (replicate 32 4) [1] [11, 12], Say False (replicate 12 1) (replicate 32 5) [] [13],
        Restart True, Say True (replicate 12 0) (replicate 32 6) [] [14]] =
      [Ok [10], Ok [11, 12], Ok [13], Ok [14]]"
proof -
  let ?st = "prekey_generate toy (IdentityKeyPair [1]) (replicate 32 2) [[3], [4]]"
  let ?ts = "[Restart False, Say True (replicate 12 0) (replicate 32 3) [] [10], Restart True, Restart False,
      Say False (replicate 12 0) (replicate 32 4) [1] [11, 12], Say False (replicate 12 1) (replicate 32 5) [] [13],
      Restart True, Say True (replicate 12 0) (replicate 32 6) [] [14]]"
  have "store_signed_by toy (IdentityKeyPair [1]) ?st"
    by (simp add: store_signed_by_def prekey_generate_def pool_ok_def store_pool_def pool_key_def)
  moreover have "seals toy" by (simp add: seals_def)
  moreover have "length (signed_prekey_secret ?st) = 32" by (simp add: prekey_generate_def)
  moreover have "distinct (map (\<lambda>k. x_canon toy (x_public toy k)) (replicate 32 1 # signed_prekey_secret ?st # drawn ?ts))"
    by (simp add: prekey_generate_def sum_list_replicate)
  ultimately show ?thesis
    using conversation_goes_on [OF toy_laws(1-4), of "IdentityKeyPair [1]" ?st "replicate 32 1" ?ts "[7]" "IdentityKeyPair [5]" "AgreementKeyPair [6]"
        "AgreementKeyPair [8]"]
    by (simp del: converse.simps toy_simps) blast
qed

subsection \<open>Ratchet objects\<close>

text \<open>The ratchet objects an application can hold: started from whatever bytes it passes, restored from
  whatever bytes it stored, and used in whatever way. The random secrets have 32 bytes.\<close>

inductive app_ratchet :: "Primitives \<Rightarrow> FfiRatchet \<Rightarrow> bool" for P where
  as_initiator: "length a = 32 \<Longrightarrow> ffi_ratchet_init_initiator P a secret remote = Ok m \<Longrightarrow> app_ratchet P m"
| as_responder: "ffi_ratchet_init_responder P secret own = Ok m \<Longrightarrow> app_ratchet P m"
| restored: "ffi_ratchet_from_bytes P bs = Ok m \<Longrightarrow> app_ratchet P m"
| saved: "app_ratchet P m \<Longrightarrow> app_ratchet P (fst (ffi_ratchet_to_bytes m))"
| shown: "app_ratchet P m \<Longrightarrow> app_ratchet P (fst (ffi_ratchet_local_ratchet_public_bytes m))"
| sealed: "app_ratchet P m \<Longrightarrow> app_ratchet P (fst (ffi_ratchet_encrypt P iv pt aad m))"
| opened: "app_ratchet P m \<Longrightarrow> length rnd = 32 \<Longrightarrow> app_ratchet P (fst (ffi_ratchet_decrypt P rnd wire aad m))"

lemma returns_encrypt: "returns (snd (encrypt P iv r pt aad))"
  by (auto simp: encrypt_def Let_def split_beta intro!: returns_bind split: option.split)

lemma decrypt_returns: "returns (snd (decrypt P rnd r h ct aad))"
  using returns_decrypt_working [of P rnd r h ct aad]
  by (cases "decrypt_working P rnd r h ct aad") (auto simp: decrypt_def)

lemma encrypt_call:
  "ffi_ratchet_encrypt P iv pt aad (unlocked r) =
    (unlocked (fst (encrypt P iv r pt aad)),
     bind_res (lifted (snd (encrypt P iv r pt aad))) (\<lambda>(h, ciphertext). Ok (envelope_encode h ciphertext)))"
  using returns_encrypt [of P iv r pt aad]
  by (cases "snd (encrypt P iv r pt aad)")
    (auto simp: ffi_ratchet_encrypt_def with_lock_def unlocked_def split_beta)

lemma decrypt_call:
  "ffi_ratchet_decrypt P rnd wire aad (unlocked r) =
    (case envelope_decode wire of
       Ok (h, ct) \<Rightarrow> (unlocked (fst (decrypt P rnd r h ct aad)), lifted (snd (decrypt P rnd r h ct aad)))
     | Err e \<Rightarrow> (unlocked r, Err (crypto_failure e))
     | Panic \<Rightarrow> (unlocked r, Panic)
     | Diverge \<Rightarrow> (unlocked r, Diverge))"
proof (cases "envelope_decode wire")
  case (Ok x)
  then show ?thesis using decrypt_returns [of P rnd r "fst x" "snd x" aad]
    by (cases x) (auto simp: ffi_ratchet_decrypt_def with_lock_def unlocked_def split_beta)
qed (simp_all add: ffi_ratchet_decrypt_def)

lemma envelope_decode_wf:
  "envelope_decode wire = Ok (h, ct) \<Longrightarrow> wf_message_header h"
  by (auto simp: envelope_decode_def header_decode_with_len_def bind_res_Ok wf_message_header_def split: if_splits)

lemma returns_varint_decode: "returns (varint_decode_loop v s i bs)"
  by (induction v s i bs rule: varint_decode_loop.induct) (auto simp: Let_def)

lemma returns_envelope_decode: "returns (envelope_decode wire)"
  by (auto simp: envelope_decode_def header_decode_with_len_def varint_decode_def returns_varint_decode intro!: returns_bind)

lemma decrypt_keeps_wf:
  assumes "kdf_laws P" and "length rnd = 32" and "wf_message_header h" and "wf_ratchet P r"
  shows "wf_ratchet P (fst (decrypt P rnd r h ct aad))"
proof (cases "\<exists>pt. snd (decrypt P rnd r h ct aad) = Ok pt")
  case True
  then show ?thesis using decrypt_wf [OF assms] by (metis prod.collapse)
next
  case False
  then have "fst (decrypt P rnd r h ct aad) = r" by (auto simp: decrypt_def split: res.splits prod.splits)
  then show ?thesis using assms(4) by simp
qed

lemma app_ratchet_wf:
  assumes "kdf_laws P" and "app_ratchet P m"
  shows "\<exists>r. m = unlocked r \<and> wf_ratchet P r"
  using assms(2)
proof (induction rule: app_ratchet.induct)
  case (as_initiator a secret remote m)
  then show ?case
    using ratchet_state_wf [OF assms(1) ratchet_state.initiator]
    by (auto simp: ffi_ratchet_init_initiator_def init_initiator_from_bytes_def x25519_public_from_bytes_def bind_res_Ok
        split: if_splits)
next
  case (as_responder secret own m)
  then show ?case
    using ratchet_state_wf [OF assms(1) ratchet_state.responder]
    by (auto simp: ffi_ratchet_init_responder_def init_responder_from_bytes_def shared_secret_from_bytes_def bind_res_Ok
        split: if_splits)
next
  case (restored bs m)
  then show ?case by (auto simp: ffi_ratchet_from_bytes_def bind_res_Ok dest: ratchet_read_wf)
next
  case (sealed m iv pt aad)
  then show ?case using encrypt_wf [OF assms(1)] by (auto simp: encrypt_call)
next
  case (opened m rnd wire aad)
  then obtain r where r: "m = unlocked r" "wf_ratchet P r" by blast
  show ?case
  proof (cases "envelope_decode wire")
    case (Ok x)
    then obtain h ct where x: "envelope_decode wire = Ok (h, ct)" by (cases x) simp
    then show ?thesis using decrypt_keeps_wf [OF assms(1) opened(2) envelope_decode_wf [OF x] r(2)]
      by (auto simp: r decrypt_call)
  qed (use r(2) in \<open>auto simp: r(1) decrypt_call\<close>)
qed (auto simp: ffi_ratchet_to_bytes_def ffi_ratchet_local_ratchet_public_bytes_def with_lock_def unlocked_def)

text \<open>C19: a ratchet object keeps its type: whatever bytes it was made from and whatever an application
  did with it, its keys have 32 bytes and its counters fit 32 bits, its lock is not poisoned, no call
  on it panics or hangs, and it is restored exactly from the bytes it is saved as.\<close>

theorem ratchet_objects_typed:
  assumes "kdf_laws P" and "app_ratchet P m"
  shows "\<not> poisoned m \<and> wf_ratchet P (guarded m) \<and> restart P m = Ok m \<and>
    returns (snd (ffi_ratchet_encrypt P iv pt aad m)) \<and> returns (snd (ffi_ratchet_decrypt P rnd wire aad m))"
proof -
  obtain r where r: "m = unlocked r" "wf_ratchet P r" using app_ratchet_wf [OF assms] by blast
  have "returns (snd (ffi_ratchet_encrypt P iv pt aad m))"
    by (auto simp: r(1) encrypt_call returns_encrypt intro!: returns_bind)
  moreover have "returns (snd (ffi_ratchet_decrypt P rnd wire aad m))"
    using returns_envelope_decode [of wire] decrypt_returns
    by (cases "envelope_decode wire") (auto simp: r(1) decrypt_call)
  moreover have "\<not> poisoned m" "wf_ratchet P (guarded m)" using r by (simp_all add: unlocked_def)
  ultimately show ?thesis using restart_same [OF r(2)] by (simp add: r(1))
qed

lemma ratchet_objects_typed_witness:
  "\<exists>m. ffi_ratchet_init_responder toy (replicate 32 1) (replicate 32 2) = Ok m \<and> restart toy m = Ok m \<and>
    returns (snd (ffi_ratchet_decrypt toy [9] [1, 2, 3] [] m))"
proof -
  obtain m where m: "ffi_ratchet_init_responder toy (replicate 32 1) (replicate 32 2) = Ok m"
    by (simp add: ffi_ratchet_init_responder_def shared_secret_from_bytes_def init_responder_from_bytes_def)
  from ratchet_objects_typed [OF toy_laws(3) app_ratchet.as_responder [OF m]] m show ?thesis by blast
qed

end
