(* ===== verification/Mix.thy ===== *)
theory Mix
  imports Network
begin

text \<open>
  \<^verbatim>\<open>packages/p2p-core/src/mix.rs\<close>, and from \<^verbatim>\<open>node.rs\<close> the framing of what a packet carries and the
  choice of paths. The Sphinx format itself is the \<^verbatim>\<open>sphinx-packet\<close> crate: parameters of \<open>Network\<close>.
  Durations are in milliseconds.
\<close>

subsection \<open>Packets\<close>

definition node_address_for :: "Network \<Rightarrow> bytes \<Rightarrow> NodeAddress" where
  "node_address_for N peer_id_bytes = sha256 (prims N) peer_id_bytes"

definition routing_keypair_from_seed :: "Network \<Rightarrow> bytes \<Rightarrow> bytes \<times> RoutingKey" where
  "routing_keypair_from_seed N identity_seed =
     (let secret = hkdf_sha256 (prims N) (replicate 32 0) identity_seed (ascii ''spiritchat-mix-routing-key-v1'') 32 in
      (secret, x_public (prims N) secret))"

definition path_length_error :: "string \<Rightarrow> Network \<Rightarrow> nat \<Rightarrow> P2pError" where
  "path_length_error what N n =
     MixFailure (what @ '' must have between 1 and '' @ nat_string (max_path_length N) @ '' hops, got '' @ nat_string n)"

definition build_packet ::
  "Network \<Rightarrow> bytes \<Rightarrow> MixHop list \<Rightarrow> bytes \<Rightarrow> bytes \<Rightarrow> nat list \<Rightarrow> (P2pError, SphinxPacket) res" where
  "build_packet N msg path destination_address destination_identifier delays =
     (if path = [] \<or> max_path_length N < length path then Err (path_length_error ''mix path'' N (length path))
      else map_err MixFailure (sphinx_new N msg path destination_address destination_identifier delays))"

definition DUMMY_PAYLOAD_MARKER :: bytes where
  "DUMMY_PAYLOAD_MARKER = ascii ''spiritchat-mix-dummy-v1''"

definition is_dummy_payload :: "bytes \<Rightarrow> bool" where
  "is_dummy_payload payload \<longleftrightarrow> take (length DUMMY_PAYLOAD_MARKER) payload = DUMMY_PAYLOAD_MARKER"

definition build_dummy_packet ::
  "Network \<Rightarrow> MixHop list \<Rightarrow> bytes \<Rightarrow> bytes \<Rightarrow> nat list \<Rightarrow> (P2pError, SphinxPacket) res" where
  "build_dummy_packet N path destination_address destination_identifier delays =
     build_packet N DUMMY_PAYLOAD_MARKER path destination_address destination_identifier delays"

text \<open>A traffic interval is read in whole seconds; shorter than one counts as one.\<close>

definition estimated_dummy_traffic_bytes_per_hour :: "Network \<Rightarrow> nat list \<Rightarrow> nat \<Rightarrow> (P2pError, nat) res" where
  "estimated_dummy_traffic_bytes_per_hour N delays traffic_interval =
     (let (_, public) = routing_keypair_from_seed N (replicate 32 0);
          hop = \<lparr> address = node_address_for N (replicate 32 0), hop_public_key = public \<rparr> in
      case build_dummy_packet N [hop] (replicate 32 0) (replicate 16 0) delays of
        Ok packet \<Rightarrow> Ok (length packet * (3600 div max (traffic_interval div 1000) 1) mod 2 ^ 64)
      | Diverge \<Rightarrow> Diverge
      | _ \<Rightarrow> Panic)"

definition build_surb ::
  "Network \<Rightarrow> MixHop list \<Rightarrow> bytes \<Rightarrow> bytes \<Rightarrow> nat list \<Rightarrow> (P2pError, SURB) res" where
  "build_surb N path destination_address destination_identifier delays =
     (if path = [] \<or> max_path_length N < length path then Err (path_length_error ''SURB path'' N (length path))
      else map_err MixFailure (surb_new N path destination_address destination_identifier delays))"

definition use_surb :: "Network \<Rightarrow> SURB \<Rightarrow> bytes \<Rightarrow> (P2pError, SphinxPacket \<times> NodeAddress) res" where
  "use_surb N surb reply_message = map_err MixFailure (surb_use N surb reply_message (default_payload_size N))"

datatype PeelOutcome =
    Forward SphinxPacket NodeAddress nat
  | Final bytes bytes bytes

definition peel :: "Network \<Rightarrow> SphinxPacket \<Rightarrow> bytes \<Rightarrow> (P2pError, PeelOutcome) res" where
  "peel N packet node_secret_key =
     bind_res (map_err MixFailure (sphinx_process N packet node_secret_key)) (\<lambda>processed.
       case processed of
         ForwardHop next_hop_packet next_hop_address delay \<Rightarrow> Ok (Forward next_hop_packet next_hop_address delay)
       | FinalHop destination identifier payload \<Rightarrow>
           bind_res (map_err MixFailure (recover_plaintext N payload)) (\<lambda>plain.
             Ok (Final destination identifier plain)))"

subsection \<open>What a packet carries\<close>

definition MIX_PAYLOAD_DEPOSIT_TAG :: byte where "MIX_PAYLOAD_DEPOSIT_TAG = 0x01"
definition MIX_PAYLOAD_QUERY_TAG :: byte where "MIX_PAYLOAD_QUERY_TAG = 0x02"
definition MIX_PAYLOAD_REPLY_TAG :: byte where "MIX_PAYLOAD_REPLY_TAG = 0x03"

definition frame_mailbox_deposit :: "Network \<Rightarrow> MailboxDeposit \<Rightarrow> bytes option" where
  "frame_mailbox_deposit N d = map_option (\<lambda>bs. MIX_PAYLOAD_DEPOSIT_TAG # bs) (enc_deposit N d)"

definition parse_mailbox_deposit :: "Network \<Rightarrow> bytes \<Rightarrow> MailboxDeposit option" where
  "parse_mailbox_deposit N payload =
     (case payload of
        [] \<Rightarrow> None
      | tag # rest \<Rightarrow> if tag \<noteq> MIX_PAYLOAD_DEPOSIT_TAG then None else dec_deposit N rest)"

definition frame_mailbox_query :: "bytes \<Rightarrow> SURB \<Rightarrow> bytes" where
  "frame_mailbox_query tag surb = [MIX_PAYLOAD_QUERY_TAG] @ tag @ surb"

definition parse_mailbox_query :: "Network \<Rightarrow> bytes \<Rightarrow> (bytes \<times> SURB) option" where
  "parse_mailbox_query N payload =
     (case payload of
        [] \<Rightarrow> None
      | marker # rest \<Rightarrow>
          if marker \<noteq> MIX_PAYLOAD_QUERY_TAG then None
          else if length rest \<le> MAILBOX_TAG_LEN then None
          else
            let surb_bytes = drop MAILBOX_TAG_LEN rest in
            if surb_wf N surb_bytes then Some (take MAILBOX_TAG_LEN rest, surb_bytes) else None)"

definition frame_mailbox_reply :: "bytes \<Rightarrow> bytes" where
  "frame_mailbox_reply envelope = MIX_PAYLOAD_REPLY_TAG # envelope"

definition parse_mailbox_reply :: "bytes \<Rightarrow> bytes option" where
  "parse_mailbox_reply payload =
     (case payload of
        [] \<Rightarrow> None
      | tag # rest \<Rightarrow> if tag \<noteq> MIX_PAYLOAD_REPLY_TAG then None else Some rest)"

subsection \<open>Paths\<close>

definition MIX_DUMMY_TRAFFIC_INTERVAL :: nat where "MIX_DUMMY_TRAFFIC_INTERVAL = 30 * 1000"
definition mix_dummy_traffic_interval_secs :: nat where
  "mix_dummy_traffic_interval_secs = MIX_DUMMY_TRAFFIC_INTERVAL div 1000"
definition MIX_DUMMY_TRAFFIC_HOP_DELAY :: nat where "MIX_DUMMY_TRAFFIC_HOP_DELAY = 100"
definition MIX_PATH_HOPS :: nat where "MIX_PATH_HOPS = 3"

type_synonym Relays = "(NodeAddress \<times> PeerId) list"
type_synonym RoutingKeys = "PeerId \<rightharpoonup> RoutingKey"

definition usable_relays :: "Relays \<Rightarrow> RoutingKeys \<Rightarrow> MixPeer list" where
  "usable_relays relays routing_keys =
     List.map_filter (\<lambda>(addr, peer). map_option (\<lambda>key. (addr, peer, key)) (routing_keys peer)) relays"

definition pick_mix_relay :: "World \<Rightarrow> nat \<Rightarrow> Relays \<Rightarrow> RoutingKeys \<Rightarrow> MixPeer option" where
  "pick_mix_relay w i relays routing_keys = rng_choose w i (usable_relays relays routing_keys)"

definition pick_mix_path :: "World \<Rightarrow> nat \<Rightarrow> Relays \<Rightarrow> RoutingKeys \<Rightarrow> nat \<Rightarrow> MixPeer list" where
  "pick_mix_path w i relays routing_keys hop_count =
     rng_choose_multiple w i (usable_relays relays routing_keys) hop_count"

text \<open>\<^verbatim>\<open>Iterator::min_by_key\<close>: the first of the items with the least key.\<close>

fun min_by_key :: "('a \<Rightarrow> nat) \<Rightarrow> 'a list \<Rightarrow> 'a option" where
  "min_by_key f [] = None"
| "min_by_key f (x # xs) =
     (case min_by_key f xs of None \<Rightarrow> Some x | Some y \<Rightarrow> if f x \<le> f y then Some x else Some y)"

definition closest_relay_to_tag :: "Network \<Rightarrow> bytes \<Rightarrow> Relays \<Rightarrow> RoutingKeys \<Rightarrow> MixPeer option" where
  "closest_relay_to_tag N tag relays routing_keys =
     min_by_key (\<lambda>(_, peer, _). kad_distance N tag peer) (usable_relays relays routing_keys)"

definition build_mix_path_to_tag ::
  "Network \<Rightarrow> World \<Rightarrow> nat \<Rightarrow> bytes \<Rightarrow> Relays \<Rightarrow> RoutingKeys \<Rightarrow> MixPeer list option" where
  "build_mix_path_to_tag N w i tag relays routing_keys =
     (case closest_relay_to_tag N tag relays routing_keys of
        None \<Rightarrow> None
      | Some (final_addr, final_peer, final_key) \<Rightarrow>
          let intermediate_candidates = filter (\<lambda>(addr, peer). peer \<noteq> final_peer) relays;
              path = pick_mix_path w i intermediate_candidates routing_keys (MIX_PATH_HOPS - 1) in
          Some (path @ [(final_addr, final_peer, final_key)]))"

definition hops_of :: "MixPeer list \<Rightarrow> MixHop list" where
  "hops_of hops = map (\<lambda>(addr, peer, key). \<lparr> address = addr, hop_public_key = key \<rparr>) hops"

subsection \<open>Which relays a path uses\<close>

text \<open>The relay table: one entry per address, and the address is that of the peer.\<close>

definition relays_ok :: "Network \<Rightarrow> Relays \<Rightarrow> bool" where
  "relays_ok N relays \<longleftrightarrow> distinct (map fst relays) \<and> (\<forall>(addr, peer) \<in> set relays. addr = node_address_for N peer)"

definition peer_of :: "MixPeer \<Rightarrow> PeerId" where
  "peer_of hop = fst (snd hop)"

lemma in_usable_relays: "(a, p, k) \<in> set (usable_relays relays ks) \<longleftrightarrow> (a, p) \<in> set relays \<and> ks p = Some k"
  by (auto simp: usable_relays_def List.map_filter_def image_iff split: if_splits) force+

lemma usable_relays_Cons:
  "usable_relays ((a, p) # relays) ks =
    (case ks p of None \<Rightarrow> usable_relays relays ks | Some k \<Rightarrow> (a, p, k) # usable_relays relays ks)"
  by (simp add: usable_relays_def List.map_filter_simps split: option.split)

lemma usable_relays_Nil [simp]: "usable_relays [] ks = []"
  by (simp add: usable_relays_def List.map_filter_simps)

lemma peers_of_usable: "peer_of ` set (usable_relays relays ks) \<subseteq> snd ` set relays"
  by (force simp: peer_of_def in_usable_relays)

lemma relays_distinct_peers: "relays_ok N relays \<Longrightarrow> distinct (map snd relays)"
proof (induction relays)
  case (Cons r relays)
  obtain a p where r: "r = (a, p)" by (cases r)
  have "p \<notin> snd ` set relays"
  proof
    assume "p \<in> snd ` set relays"
    then obtain b where "(b, p) \<in> set relays" by auto
    then show False using Cons.prems by (auto simp: relays_ok_def r rev_image_eqI)
  qed
  then show ?case using Cons by (simp add: relays_ok_def r)
qed simp

lemma usable_distinct_peers: "distinct (map snd relays) \<Longrightarrow> distinct (map peer_of (usable_relays relays ks))"
proof (induction relays)
  case (Cons r relays)
  obtain a p where r: "r = (a, p)" by (cases r)
  then show ?case using Cons peers_of_usable [of relays ks]
    by (auto simp: usable_relays_Cons peer_of_def split: option.split)
qed simp

lemma usable_without:
  "usable_relays (filter (\<lambda>(addr, peer). peer \<noteq> p) relays) ks = filter (\<lambda>hop. peer_of hop \<noteq> p) (usable_relays relays ks)"
proof (induction relays)
  case (Cons r relays)
  then show ?case by (cases r; cases "ks (snd r)") (auto simp: usable_relays_Cons peer_of_def)
qed simp

lemma length_filter_other:
  "distinct (map f xs) \<Longrightarrow> x \<in> set xs \<Longrightarrow> length (filter (\<lambda>y. f y \<noteq> f x) xs) = length xs - 1"
proof (induction xs)
  case (Cons y ys)
  show ?case
  proof (cases "y = x")
    case True
    have "\<forall>z \<in> set ys. f z \<noteq> f x" using Cons.prems(1) True by (metis distinct.simps(2) image_eqI list.simps(9) set_map)
    then show ?thesis using filter_True [of ys "\<lambda>z. f z \<noteq> f x"] by (simp add: True)
  next
    case False
    then have "x \<in> set ys" "f y \<noteq> f x" using Cons.prems by auto
    moreover from this have "0 < length ys" by (cases ys) auto
    ultimately show ?thesis using Cons by simp
  qed
qed simp

lemma min_by_key_None [simp]: "min_by_key f xs = None \<longleftrightarrow> xs = []"
  by (cases xs) (auto split: option.splits)

lemma min_by_key_least: "min_by_key f xs = Some x \<Longrightarrow> x \<in> set xs \<and> (\<forall>y \<in> set xs. f x \<le> f y)"
proof (induction xs arbitrary: x)
  case (Cons y ys)
  show ?case
  proof (cases "min_by_key f ys")
    case None
    then show ?thesis using Cons.prems by simp
  next
    case (Some z)
    then show ?thesis using Cons.prems Cons.IH [OF Some] by (auto split: if_splits)
  qed
qed simp

lemma closest_relay_alt:
  "closest_relay_to_tag N tag relays ks = min_by_key (\<lambda>hop. kad_distance N tag (peer_of hop)) (usable_relays relays ks)"
proof -
  have "(\<lambda>(_, peer, _). kad_distance N tag peer) = (\<lambda>hop :: MixPeer. kad_distance N tag (peer_of hop))"
    by (auto simp: peer_of_def)
  then show ?thesis by (simp add: closest_relay_to_tag_def)
qed

lemma closest_relay:
  assumes "closest_relay_to_tag N tag relays ks = Some hop"
  shows "hop \<in> set (usable_relays relays ks)"
    and "hop' \<in> set (usable_relays relays ks) \<Longrightarrow> kad_distance N tag (peer_of hop) \<le> kad_distance N tag (peer_of hop')"
  using min_by_key_least [OF assms [unfolded closest_relay_alt]] by auto

lemma mix_path_Some:
  assumes "build_mix_path_to_tag N w i tag relays ks = Some path"
  obtains hop where "closest_relay_to_tag N tag relays ks = Some hop"
    and "path = rng_choose_multiple w i (filter (\<lambda>h. peer_of h \<noteq> peer_of hop) (usable_relays relays ks)) 2 @ [hop]"
  using assms
  by (auto simp: build_mix_path_to_tag_def pick_mix_path_def usable_without MIX_PATH_HOPS_def peer_of_def Let_def
      split: option.splits prod.splits)

lemma distinct_submset: "mset xs \<subseteq># mset ys \<Longrightarrow> distinct ys \<Longrightarrow> distinct xs"
proof -
  assume sub: "mset xs \<subseteq># mset ys" and d: "distinct ys"
  obtain zs where "mset zs = mset ys - mset xs" using ex_mset by blast
  then have "mset (xs @ zs) = mset ys" using sub by (simp add: subset_mset.add_diff_inverse)
  then have "distinct (xs @ zs)" using d by (metis mset_eq_imp_distinct_iff)
  then show "distinct xs" by simp
qed

lemma picked:
  assumes "rand_laws w"
  shows "set (rng_choose_multiple w i xs n) \<subseteq> set xs" and "length (rng_choose_multiple w i xs n) = min n (length xs)"
    and "distinct (map f xs) \<Longrightarrow> distinct (map f (rng_choose_multiple w i xs n))"
proof -
  let ?ys = "rng_choose_multiple w i xs n"
  have sub: "mset ?ys \<subseteq># mset xs" and "length ?ys = min n (length xs)" using assms by (auto simp: rand_laws_def)
  then show "set ?ys \<subseteq> set xs" "length ?ys = min n (length xs)" 
    using set_mset_mono [OF sub] by simp_all
  have le: "mset (map f ?ys) \<subseteq># mset (map f xs)" using image_mset_subseteq_mono [OF sub, of f] by simp
  show "distinct (map f ?ys)" if "distinct (map f xs)"
    using le that by (rule distinct_submset)
qed

lemma mix_path_facts:
  assumes "rand_laws w" and "relays_ok N relays"
  shows "case build_mix_path_to_tag N w i tag relays ks of
      None \<Rightarrow> usable_relays relays ks = []
    | Some path \<Rightarrow>
        length path = min 3 (length (usable_relays relays ks)) \<and> path \<noteq> [] \<and> distinct (map peer_of path) \<and>
        set path \<subseteq> set (usable_relays relays ks) \<and>
        closest_relay_to_tag N tag relays ks = Some (last path) \<and>
        (\<forall>relay \<in> set (usable_relays relays ks). kad_distance N tag (peer_of (last path)) \<le> kad_distance N tag (peer_of relay))"
proof (cases "build_mix_path_to_tag N w i tag relays ks")
  case None
  then show ?thesis by (simp add: build_mix_path_to_tag_def closest_relay_alt Let_def split: option.splits prod.splits)
next
  case (Some path)
  let ?u = "usable_relays relays ks"
  from Some obtain hop where hop: "closest_relay_to_tag N tag relays ks = Some hop"
    and path: "path = rng_choose_multiple w i (filter (\<lambda>h. peer_of h \<noteq> peer_of hop) ?u) 2 @ [hop]"
    by (rule mix_path_Some)
  have u: "distinct (map peer_of ?u)" "hop \<in> set ?u"
    using usable_distinct_peers relays_distinct_peers assms(2) closest_relay(1) [OF hop] by blast+
  have n: "length (filter (\<lambda>h. peer_of h \<noteq> peer_of hop) ?u) = length ?u - 1" by (rule length_filter_other [OF u])
  have "distinct (map peer_of (filter (\<lambda>h. peer_of h \<noteq> peer_of hop) ?u))" using u(1) by (simp add: distinct_map_filter)
  note p = picked(1,2) [OF assms(1), of i "filter (\<lambda>h. peer_of h \<noteq> peer_of hop) ?u" 2] picked(3) [OF assms(1) this, of i 2]
  have "0 < length ?u" using u(2) by (cases ?u) auto
  then have "length path = min 3 (length ?u)" using p(2) n by (cases "length ?u") (simp_all add: path min_def)
  moreover have "distinct (map peer_of path)" "set path \<subseteq> set ?u" using p(1,3) u(2) by (auto simp: path)
  ultimately show ?thesis using hop closest_relay(2) [OF hop] by (simp add: Some path)
qed

text \<open>C36: a path to a tag is found exactly when some connected peer's routing key is known; it goes
  through as many relays as there are, at most three, never twice through the same peer, only
  through connected peers with their known keys, and ends at a relay that none of them is closer to the
  tag than, by the distance of the hash table.\<close>

theorem mix_path_sound:
  assumes "rand_laws w" and "relays_ok N relays"
  shows "case build_mix_path_to_tag N w i tag relays ks of
      None \<Rightarrow> usable_relays relays ks = []
    | Some path \<Rightarrow>
        length path = min 3 (length (usable_relays relays ks)) \<and> path \<noteq> [] \<and> distinct (map peer_of path) \<and>
        set path \<subseteq> set (usable_relays relays ks) \<and>
        closest_relay_to_tag N tag relays ks = Some (last path) \<and>
        (\<forall>relay \<in> set (usable_relays relays ks). kad_distance N tag (peer_of (last path)) \<le> kad_distance N tag (peer_of relay))"
  by (rule mix_path_facts [OF assms])

text \<open>Sender and recipient agree on where a message waits. Whatever order their tables list the
  relays in, if each knows the relay the other finds closest to the tag, both find the same one
  (distances to a tag tell peers apart).\<close>

theorem sender_and_recipient_meet:
  assumes "relays_ok N relays" and "relays_ok N relays'"
    and "inj (kad_distance N tag)"
    and "closest_relay_to_tag N tag relays ks = Some hop" and "closest_relay_to_tag N tag relays' ks' = Some hop'"
    and "hop \<in> set (usable_relays relays' ks')" and "hop' \<in> set (usable_relays relays ks)"
  shows "hop = hop'"
proof -
  have "kad_distance N tag (peer_of hop) = kad_distance N tag (peer_of hop')"
    using closest_relay(2) [OF assms(4) assms(7)] closest_relay(2) [OF assms(5) assms(6)] by simp
  then have peer: "peer_of hop = peer_of hop'" using assms(3) by (simp add: inj_eq)
  have "distinct (map peer_of (usable_relays relays ks))"
    by (intro usable_distinct_peers relays_distinct_peers [OF assms(1)])
  then show ?thesis using peer closest_relay(1) [OF assms(4)] assms(7) by (auto simp: distinct_map dest: inj_onD)
qed

subsection \<open>Telling payloads apart\<close>

text \<open>\<^verbatim>\<open>bincode\<close>: what is serialized is read back.\<close>

definition wire_laws :: "Network \<Rightarrow> bool" where
  "wire_laws N \<longleftrightarrow>
     (\<forall>d bs. enc_deposit N d = Some bs \<longrightarrow> dec_deposit N bs = Some d) \<and>
     (\<forall>tx bs. enc_tx N tx = Some bs \<longrightarrow> dec_tx N bs = Some tx) \<and>
     (\<forall>b bs. enc_block N b = Some bs \<longrightarrow> dec_block N bs = Some b) \<and>
     (\<forall>k bs. enc_announcement N k = Some bs \<longrightarrow> dec_announcement N bs = Some k)"

lemma dummy_marker: "DUMMY_PAYLOAD_MARKER = 0x73 # tl DUMMY_PAYLOAD_MARKER"
  by (simp add: DUMMY_PAYLOAD_MARKER_def ascii_def)

lemma is_dummy_first: "is_dummy_payload (b # bs) \<Longrightarrow> b = 0x73"
  by (subst (asm) is_dummy_payload_def, subst (asm) (1 2) dummy_marker) (simp add: take_Cons')

lemma is_dummy_marker: "is_dummy_payload (DUMMY_PAYLOAD_MARKER @ bs)"
  by (simp add: is_dummy_payload_def)

lemmas payload_tags = MIX_PAYLOAD_DEPOSIT_TAG_def MIX_PAYLOAD_QUERY_TAG_def MIX_PAYLOAD_REPLY_TAG_def

lemmas parse_defs = parse_mailbox_deposit_def parse_mailbox_query_def parse_mailbox_reply_def payload_tags

definition payload_kind :: "Network \<Rightarrow> bytes \<Rightarrow> bool \<times> MailboxDeposit option \<times> (bytes \<times> SURB) option \<times> bytes option" where
  "payload_kind N p = (is_dummy_payload p, parse_mailbox_deposit N p, parse_mailbox_query N p, parse_mailbox_reply p)"

text \<open>\<^verbatim>\<open>sphinx-packet\<close>: a packet is peeled along the hops it was built for by the holders of their
  secret keys, each learning the address of the next, and the last reads the message; a reply block
  names its first hop and turns a message into a packet for the hops it was built for.\<close>

fun delivers :: "Network \<Rightarrow> SphinxPacket \<Rightarrow> (bytes \<times> NodeAddress) list \<Rightarrow> bytes \<Rightarrow> bool" where
  "delivers N p [] msg = False"
| "delivers N p [(sk, a)] msg =
     (sphinx_wf N p \<and> (\<exists>d i body. sphinx_process N p sk = Ok (FinalHop d i body) \<and> recover_plaintext N body = Ok msg))"
| "delivers N p ((sk, a) # (sk', a') # hops) msg =
     (sphinx_wf N p \<and>
      (\<exists>q delay. sphinx_process N p sk = Ok (ForwardHop q a' delay) \<and> delivers N q ((sk', a') # hops) msg))"

definition hop_of_secret :: "Network \<Rightarrow> bytes \<Rightarrow> MixHop \<Rightarrow> bool" where
  "hop_of_secret N sk hop \<longleftrightarrow> hop_public_key hop = x_public (prims N) sk \<and> length (address hop) = 32"

definition sphinx_laws :: "Network \<Rightarrow> bool" where
  "sphinx_laws N \<longleftrightarrow>
     (\<forall>msg sks hops d i dl p. list_all2 (hop_of_secret N) sks hops \<longrightarrow> sphinx_new N msg hops d i dl = Ok p \<longrightarrow>
        delivers N p (zip sks (map address hops)) msg) \<and>
     (\<forall>sks hops d i dl s. list_all2 (hop_of_secret N) sks hops \<longrightarrow> surb_new N hops d i dl = Ok s \<longrightarrow>
        s \<noteq> [] \<and> surb_wf N s \<and>
        (\<forall>msg p a. surb_use N s msg (default_payload_size N) = Ok (p, a) \<longrightarrow>
           a = address (hd hops) \<and> delivers N p (zip sks (map address hops)) msg))"

text \<open>The crate returns, with a result or an error of its own, where a route is not empty, is no longer than
  the header has room for and comes with one delay for each hop.\<close>

definition sphinx_returns :: "Network \<Rightarrow> bool" where
  "sphinx_returns N \<longleftrightarrow>
     (\<forall>msg hops d i dl. hops \<noteq> [] \<and> length hops \<le> max_path_length N \<and> length dl = length hops \<longrightarrow>
        returns (sphinx_new N msg hops d i dl) \<and> returns (surb_new N hops d i dl)) \<and>
     (\<forall>s msg sz. returns (surb_use N s msg sz)) \<and>
     (\<forall>p sk. returns (sphinx_process N p sk)) \<and> (\<forall>b. returns (recover_plaintext N b))"

lemma returns_packets:
  assumes "sphinx_returns N"
  shows "length dl = length path \<Longrightarrow> returns (build_packet N msg path d i dl)"
    and "length dl = length path \<Longrightarrow> returns (build_dummy_packet N path d i dl)"
    and "length dl = length path \<Longrightarrow> returns (build_surb N path d i dl)"
    and "returns (use_surb N surb reply)"
    and "returns (peel N p sk)"
  using assms
  by (auto simp: sphinx_returns_def build_packet_def build_dummy_packet_def build_surb_def use_surb_def peel_def
      intro!: returns_bind split: ProcessedPacketData.split)

text \<open>What a node builds for the mix network is a packet or an error, never a panic.\<close>

lemma packets_return:
  assumes "sphinx_returns N" and "length dl = length path"
  shows "build_packet N msg path d i dl \<noteq> Panic" "build_packet N msg path d i dl \<noteq> Diverge"
    and "build_dummy_packet N path d i dl \<noteq> Panic" "build_dummy_packet N path d i dl \<noteq> Diverge"
    and "build_surb N path d i dl \<noteq> Panic" "build_surb N path d i dl \<noteq> Diverge"
  using returns_packets(1-3) [OF assms(1), OF assms(2)] by (metis returns.simps(3) returns.simps(4))+

lemma packets_open:
  assumes "sphinx_returns N"
  shows "use_surb N surb reply \<noteq> Panic" "use_surb N surb reply \<noteq> Diverge" "peel N p sk \<noteq> Panic" "peel N p sk \<noteq> Diverge"
  using returns_packets(4,5) [OF assms] by (metis returns.simps(3) returns.simps(4))+

subsection \<open>A small network\<close>

text \<open>A layer of a toy packet is a mark and the address of the next hop.\<close>

fun toy_pack :: "NodeAddress list \<Rightarrow> bytes \<Rightarrow> bytes" where
  "toy_pack [] msg = 0 # msg"
| "toy_pack (a # as) msg = 1 # a @ toy_pack as msg"

fun toy_process :: "bytes \<Rightarrow> (string, ProcessedPacketData) res" where
  "toy_process [] = Err ''empty''"
| "toy_process (b # bs) = (if b = 0 then Ok (FinalHop [] [] bs) else Ok (ForwardHop (drop 32 bs) (take 32 bs) 0))"

function toy_chunks :: "bytes \<Rightarrow> bytes list" where
  "toy_chunks bs = (if bs = [] then [] else take 32 bs # toy_chunks (drop 32 bs))"
  by pat_completeness auto
termination by (relation "measure length") auto

declare toy_chunks.simps [simp del]

definition toy_network :: Network where
  "toy_network = \<lparr> prims = toy,
     addr_text = (\<lambda>a. [1]), addr_parse = (\<lambda>bs. Some []), utf8_valid = (\<lambda>bs. True),
     ed_keypair = Ok, keypair_public = ed_public toy, ed_try_public = Ok, to_peer_id = id,
     kad_distance = (\<lambda>tag peer. of_be (1 # peer)),
     sphinx_new = (\<lambda>msg hops d i dl.
       if hops = [] then Err ''no hops'' else Ok (toy_pack (tl (map address hops)) msg)),
     sphinx_wf = (\<lambda>bs. True), sphinx_process = (\<lambda>p sk. toy_process p), recover_plaintext = Ok,
     surb_new = (\<lambda>hops d i dl. if hops = [] then Err ''no hops'' else Ok (concat (map address hops))),
     surb_wf = (\<lambda>bs. True),
     surb_use = (\<lambda>s msg sz. Ok (toy_pack (tl (toy_chunks s)) msg, take 32 s)),
     default_payload_size = 1024, max_path_length = 5, debug_text = (\<lambda>t. ''string''),
     enc_deposit = (\<lambda>d. if d = toy_deposit 5 then Some [9] else None), dec_deposit = (\<lambda>bs. Some (toy_deposit 5)),
     enc_tx = (\<lambda>tx. if tx = sample_tx then Some [9] else None), dec_tx = (\<lambda>bs. Some sample_tx),
     enc_block = (\<lambda>b. if b = sample_block then Some [9] else None), dec_block = (\<lambda>bs. Some sample_block),
     enc_announcement = Some, dec_announcement = Some \<rparr>"

lemma toy_network_wire: "wire_laws toy_network"
  by (simp add: wire_laws_def toy_network_def)

lemma toy_network_simps [simp]:
  "prims toy_network = toy"
  "sphinx_new toy_network msg hops d i dl =
    (if hops = [] then Err ''no hops'' else Ok (toy_pack (tl (map address hops)) msg))"
  "sphinx_wf toy_network bs" "surb_wf toy_network bs"
  "sphinx_process toy_network p sk = toy_process p" "recover_plaintext toy_network = Ok"
  "surb_new toy_network hops d i dl = (if hops = [] then Err ''no hops'' else Ok (concat (map address hops)))"
  "surb_use toy_network s msg sz = Ok (toy_pack (tl (toy_chunks s)) msg, take 32 s)"
  "max_path_length toy_network = 5"
  "enc_deposit toy_network dep = (if dep = toy_deposit 5 then Some [9] else None)"
  "dec_deposit toy_network bs = Some (toy_deposit 5)"
  "kad_distance toy_network tag peer = of_be (1 # peer)"
  by (simp_all add: toy_network_def)

lemma toy_network_keys:
  "ed_keypair toy_network = Ok" "keypair_public toy_network = ed_public toy" "to_peer_id toy_network = id"
  by (simp_all add: toy_network_def)

lemma toy_network_decodes:
  "dec_block toy_network bs = Some sample_block" "dec_tx toy_network bs = Some sample_tx"
  by (simp_all add: toy_network_def)

lemma toy_delivers:
  "length sks = length as \<Longrightarrow> \<forall>a \<in> set as. length a = 32 \<Longrightarrow> as \<noteq> [] \<Longrightarrow>
    delivers toy_network (toy_pack (tl as) msg) (zip sks as) msg"
proof (induction as arbitrary: sks)
  case (Cons a as)
  obtain sk sks' where sks: "sks = sk # sks'" using Cons.prems(1) by (cases sks) auto
  show ?case
  proof (cases as)
    case Nil
    then show ?thesis using Cons.prems by (simp add: sks)
  next
    case (Cons a' as')
    moreover obtain sk' sks'' where "sks' = sk' # sks''" using Cons.prems(1) by (cases sks') (auto simp: sks Cons)
    ultimately show ?thesis using Cons.IH [of sks'] Cons.prems by (simp add: sks)
  qed
qed simp

lemma toy_chunks_concat: "\<forall>a \<in> set as. length a = 32 \<Longrightarrow> toy_chunks (concat as) = as"
proof (induction as)
  case (Cons a as)
  then have "a @ concat as \<noteq> []" by auto
  then show ?case using Cons by (subst toy_chunks.simps) simp
qed (simp add: toy_chunks.simps)

lemma toy_network_sphinx: "sphinx_laws toy_network"
proof -
  have packets: "delivers toy_network (toy_pack (tl (map address hops)) msg) (zip sks (map address hops)) msg"
    and blocks: "toy_chunks (concat (map address hops)) = map address hops"
    and first: "concat (map address hops) \<noteq> []" "take 32 (concat (map address hops)) = address (hd hops)"
    if "list_all2 (hop_of_secret toy_network) sks hops" "hops \<noteq> []" for sks hops msg
  proof -
    have l: "length sks = length (map address hops)" "\<forall>a \<in> set (map address hops). length a = 32"
      using that by (auto simp: list_all2_conv_all_nth hop_of_secret_def in_set_conv_nth)
    then show "delivers toy_network (toy_pack (tl (map address hops)) msg) (zip sks (map address hops)) msg"
      using that by (intro toy_delivers) auto
    show "toy_chunks (concat (map address hops)) = map address hops" by (rule toy_chunks_concat [OF l(2)])
    show "concat (map address hops) \<noteq> []" "take 32 (concat (map address hops)) = address (hd hops)"
      using l that by (cases hops; auto)+
  qed
  show ?thesis
    unfolding sphinx_laws_def
  proof (intro conjI allI impI)
    fix msg sks hops d i dl p
    assume h: "list_all2 (hop_of_secret toy_network) sks hops" "sphinx_new toy_network msg hops d i dl = Ok p"
    then have "hops \<noteq> []" "p = toy_pack (tl (map address hops)) msg" by (auto split: if_splits)
    then show "delivers toy_network p (zip sks (map address hops)) msg" using packets [OF h(1)] by blast
  next
    fix sks hops d i dl s
    assume h: "list_all2 (hop_of_secret toy_network) sks hops" "surb_new toy_network hops d i dl = Ok s"
    then have ne: "hops \<noteq> []" and s: "s = concat (map address hops)" by (auto split: if_splits)
    show "s \<noteq> []" "surb_wf toy_network s" unfolding s using first(1) [OF h(1) ne] by simp_all
    fix msg p a
    assume "surb_use toy_network s msg (default_payload_size toy_network) = Ok (p, a)"
    then have "p = toy_pack (tl (toy_chunks s)) msg" "a = take 32 s" by simp_all
    then show "a = address (hd hops)" "delivers toy_network p (zip sks (map address hops)) msg"
      unfolding s blocks [OF h(1) ne] using first(2) [OF h(1) ne] packets [OF h(1) ne] by simp_all
  qed
qed

lemma toy_network_returns: "sphinx_returns toy_network"
proof -
  have "returns (toy_process p)" for p by (cases p) simp_all
  then show ?thesis by (simp add: sphinx_returns_def)
qed

lemma payload_kinds:
  assumes "wire_laws N" and "frame_mailbox_deposit N d = Some framed"
    and "length tag = 32" and "surb \<noteq> []" and "surb_wf N surb"
  shows "payload_kind N framed = (False, Some d, None, None) \<and>
    payload_kind N (frame_mailbox_query tag surb) = (False, None, Some (tag, surb), None) \<and>
    payload_kind N (frame_mailbox_reply envelope) = (False, None, None, Some envelope) \<and>
    payload_kind N DUMMY_PAYLOAD_MARKER = (True, None, None, None)"
proof -
  obtain bs where bs: "enc_deposit N d = Some bs" "framed = 1 # bs"
    using assms(2) by (auto simp: frame_mailbox_deposit_def payload_tags)
  have "payload_kind N framed = (False, Some d, None, None)"
    using assms(1) bs is_dummy_first [of 1 bs] by (auto simp: payload_kind_def parse_defs wire_laws_def)
  moreover have "payload_kind N (frame_mailbox_query tag surb) = (False, None, Some (tag, surb), None)"
    using assms(3-5) is_dummy_first [of 2 "tag @ surb"]
    by (auto simp: frame_mailbox_query_def payload_kind_def parse_defs MAILBOX_TAG_LEN_def)
  moreover have "payload_kind N (frame_mailbox_reply envelope) = (False, None, None, Some envelope)"
    using is_dummy_first [of 3 envelope] by (auto simp: frame_mailbox_reply_def payload_kind_def parse_defs)
  moreover have "payload_kind N DUMMY_PAYLOAD_MARKER = (True, None, None, None)"
  proof -
    obtain rest where m: "DUMMY_PAYLOAD_MARKER = 0x73 # rest" using dummy_marker by blast
    have "payload_kind N (0x73 # rest) = (is_dummy_payload (0x73 # rest), None, None, None)"
      by (simp add: payload_kind_def parse_defs)
    then show ?thesis using is_dummy_marker [of "[]"] by (simp add: m)
  qed
  ultimately show ?thesis by simp
qed

text \<open>Every framed payload is read back as what it is, and as nothing else: cover traffic,
  deposits, queries and replies are never taken for one another.\<close>

theorem payload_kinds_disjoint:
  assumes "wire_laws N" and "frame_mailbox_deposit N d = Some framed"
    and "length tag = 32" and "surb \<noteq> []" and "surb_wf N surb"
  shows "payload_kind N framed = (False, Some d, None, None) \<and>
    payload_kind N (frame_mailbox_query tag surb) = (False, None, Some (tag, surb), None) \<and>
    payload_kind N (frame_mailbox_reply envelope) = (False, None, None, Some envelope) \<and>
    payload_kind N DUMMY_PAYLOAD_MARKER = (True, None, None, None)"
  by (rule payload_kinds [OF assms])

lemma payload_kinds_disjoint_witness:
  "payload_kind toy_network [1, 9] = (False, Some (toy_deposit 5), None, None)"
  using payload_kinds_disjoint [OF toy_network_wire, of "toy_deposit 5" "[1, 9]" "replicate 32 0" "[1]"]
  by (simp add: frame_mailbox_deposit_def payload_tags)

definition toy_world :: World where
  "toy_world = \<lparr> clock = (\<lambda>i. 5), db_ok = (\<lambda>i. True), query_id = 0, put_accepted = True, request_id = 0,
     dial_error = None, listen_error = None,
     rng_choose = (\<lambda>i xs. case xs of [] \<Rightarrow> None | x # _ \<Rightarrow> Some x),
     rng_choose_multiple = (\<lambda>i xs n. take n xs),
     rng_bytes = (\<lambda>i n. replicate n 0), rng_bool = (\<lambda>i. True), rng_delay = (\<lambda>i j avg. avg) \<rparr>"

lemma toy_world_rand: "rand_laws toy_world"
proof -
  have "mset (take n xs) \<subseteq># mset xs" for n and xs :: "MixPeer list"
    by (metis append_take_drop_id mset_append mset_subset_eq_add_left)
  then show ?thesis by (auto simp: rand_laws_def toy_world_def min.commute split: list.splits)
qed

definition toy_relays :: "PeerId list \<Rightarrow> Relays" where
  "toy_relays peers = map (\<lambda>p. (node_address_for toy_network p, p)) peers"

lemma mix_path_sound_witness:
  "build_mix_path_to_tag toy_network toy_world 0 [7] (toy_relays [[4], [2], [3]]) (\<lambda>p. Some p) =
     Some [(node_address_for toy_network [4], [4], [4]), (node_address_for toy_network [3], [3], [3]),
       (node_address_for toy_network [2], [2], [2])] \<and>
   closest_relay_to_tag toy_network [7] (toy_relays [[4], [2], [3]]) (\<lambda>p. Some p) =
     Some (node_address_for toy_network [2], [2], [2])"
proof -
  have "relays_ok toy_network (toy_relays [[4], [2], [3]])"
    by (simp add: relays_ok_def toy_relays_def node_address_for_def)
  moreover have "build_mix_path_to_tag toy_network toy_world 0 [7] (toy_relays [[4], [2], [3]]) (\<lambda>p. Some p) =
     Some [(node_address_for toy_network [4], [4], [4]), (node_address_for toy_network [3], [3], [3]),
       (node_address_for toy_network [2], [2], [2])]"
    by (simp add: build_mix_path_to_tag_def closest_relay_to_tag_def toy_relays_def usable_relays_def
        List.map_filter_simps pick_mix_path_def MIX_PATH_HOPS_def toy_world_def of_be_def)
  ultimately show ?thesis
    using mix_path_sound [OF toy_world_rand, where N = toy_network and relays = "toy_relays [[4], [2], [3]]"
        and i = 0 and tag = "[7]" and ks = "\<lambda>p. Some p"] by simp
qed

lemma sender_and_recipient_meet_witness:
  "closest_relay_to_tag toy_network [7] (toy_relays [[4], [2]]) (\<lambda>p. Some p) =
   closest_relay_to_tag toy_network [7] (toy_relays [[2], [3]]) (\<lambda>p. Some p)"
proof -
  have ok: "relays_ok toy_network (toy_relays [[4], [2]])" "relays_ok toy_network (toy_relays [[2], [3]])"
    by (simp_all add: relays_ok_def toy_relays_def node_address_for_def)
  have shorter: "of_be (1 # p) < of_be (1 # q)" if "length p < length q" for p q :: bytes
  proof -
    have "of_be (1 # p) < 256 * 256 ^ length p" using of_be_bound [of p] by simp
    also have "\<dots> \<le> 256 ^ length q" using that power_increasing [of "Suc (length p)" "length q" "256 :: nat"] by simp
    finally show ?thesis by simp
  qed
  have inj: "inj (kad_distance toy_network [7])"
  proof (rule injI)
    fix p q assume eq: "kad_distance toy_network [7] p = kad_distance toy_network [7] q"
    then have "length p = length q" using shorter [of p q] shorter [of q p] by (cases "length p" "length q" rule: linorder_cases) simp_all
    then show "p = q" using of_be_inj [of p q] eq by simp
  qed
  have c: "closest_relay_to_tag toy_network [7] (toy_relays [[4], [2]]) (\<lambda>p. Some p) = Some (node_address_for toy_network [2], [2], [2])"
    "closest_relay_to_tag toy_network [7] (toy_relays [[2], [3]]) (\<lambda>p. Some p) = Some (node_address_for toy_network [2], [2], [2])"
    by (simp_all add: closest_relay_to_tag_def toy_relays_def usable_relays_def List.map_filter_simps of_be_def)
  show ?thesis
    using sender_and_recipient_meet [OF ok inj c] unfolding c
    by (simp add: in_usable_relays toy_relays_def)
qed

end
