(* ===== verification/Mining.thy ===== *)
theory Mining
  imports Network
begin

text \<open>
  The mining loop of \<^verbatim>\<open>packages/p2p-core/src/node.rs\<close>: how a candidate block is put together from the
  mempool, the nonce search that runs on a blocking thread, and the bookkeeping that keeps at most one
  search wanted. A search is identified by its generation; \<open>tasks\<close> lists every search that was
  started, with the stop flag it shares with the event loop.
\<close>

type_synonym Mempool = "(Hash32 \<times> Transaction) list"

subsection \<open>The candidate\<close>

fun select_transactions ::
  "Primitives \<Rightarrow> ChainStore \<Rightarrow> nat \<Rightarrow> Transaction list \<Rightarrow> Transaction list \<Rightarrow> bytes set \<Rightarrow>
   (LedgerError, Transaction list) res" where
  "select_transactions P s hgt [] selected usernames_in_candidate = Ok selected"
| "select_transactions P s hgt (tx # candidates) selected usernames_in_candidate =
     (if MAX_TXS_PER_BLOCK \<le> length selected then Ok selected
      else if username tx \<in> usernames_in_candidate
      then select_transactions P s hgt candidates selected usernames_in_candidate
      else
        bind_res (is_valid_candidate_transaction P s tx hgt) (\<lambda>valid.
          select_transactions P s hgt candidates (if valid then selected @ [tx] else selected)
            (insert (username tx) usernames_in_candidate)))"

definition mining_candidate ::
  "Primitives \<Rightarrow> ChainStore \<Rightarrow> Mempool \<Rightarrow> bytes \<Rightarrow> nat \<Rightarrow>
   (LedgerError, (BlockHeader \<times> Transaction list) option) res" where
  "mining_candidate P s mempool pk now =
     (case (store_expected_difficulty s, store_median_time_past s) of
        (Panic, _) \<Rightarrow> Panic
      | (Diverge, _) \<Rightarrow> Diverge
      | (_, Panic) \<Rightarrow> Panic
      | (_, Diverge) \<Rightarrow> Diverge
      | (Ok target, Ok mtp) \<Rightarrow>
          bind_res (tip_height (chain s)) (\<lambda>tip.
            let hgt = u64_add tip 1;
                candidates = sort_key (tx_id P) (map snd mempool) in
            bind_res (select_transactions P s hgt candidates [] {}) (\<lambda>selected.
              Ok (Some (\<lparr> version = 1, height = hgt, prev_hash = tip_hash (chain s),
                  timestamp = max now (u64_add mtp 1), tx_commitment = compute_tx_commitment P selected,
                  difficulty_target = target, nonce = 0, miner_public_key = pk \<rparr>, selected))))
      | _ \<Rightarrow> Ok None)"

subsection \<open>The nonce search\<close>

definition CHECK_INTERVAL :: nat where
  "CHECK_INTERVAL = 50000"

text \<open>\<open>stop\<close> and \<open>now\<close> are what the thread reads after so many attempts; \<open>Some None\<close> is a search that
  was told to stop, \<open>None\<close> one that never ends.\<close>

partial_function (option) mine_loop ::
  "Primitives \<Rightarrow> Hash32 \<Rightarrow> (nat \<Rightarrow> bool) \<Rightarrow> (nat \<Rightarrow> nat) \<Rightarrow> BlockHeader \<Rightarrow> nat \<Rightarrow> BlockHeader option option" where
  "mine_loop Pr target stop now hdr attempts =
     (if meets_target (header_hash Pr hdr) target then Some (Some hdr)
      else
        let hdr = hdr\<lparr>nonce := u64_add (nonce hdr) 1\<rparr>; attempts = u64_add attempts 1 in
        if attempts mod CHECK_INTERVAL = 0 then
          if stop attempts then Some None
          else mine_loop Pr target stop now (hdr\<lparr>timestamp := max (timestamp hdr) (now attempts)\<rparr>) attempts
        else mine_loop Pr target stop now hdr attempts)"

definition mine ::
  "Primitives \<Rightarrow> (nat \<Rightarrow> bool) \<Rightarrow> (nat \<Rightarrow> nat) \<Rightarrow> BlockHeader \<Rightarrow> Transaction list \<Rightarrow> Block option option" where
  "mine P stop now hdr txs =
     map_option (map_option (\<lambda>hdr. \<lparr> header = hdr, transactions = txs \<rparr>))
       (mine_loop P (expand_target (difficulty_target hdr)) stop now hdr 0)"

subsection \<open>Starting and stopping\<close>

record MiningState =
  ms_public_key :: bytes
  ms_generation :: nat

record Attempt =
  at_generation :: nat
  at_stop :: bool
  at_header :: BlockHeader
  at_transactions :: "Transaction list"

record Mining =
  active :: "MiningState option"
  next_generation :: nat
  tasks :: "Attempt list"

definition mining_new :: Mining where
  "mining_new = \<lparr> active = None, next_generation = 0, tasks = [] \<rparr>"

definition set_stop_flag :: "nat \<Rightarrow> Attempt \<Rightarrow> Attempt" where
  "set_stop_flag generation a = (if at_generation a = generation then a\<lparr>at_stop := True\<rparr> else a)"

definition mining_stop :: "Mining \<Rightarrow> Mining" where
  "mining_stop m =
     (case active m of
        None \<Rightarrow> m
      | Some state \<Rightarrow> m\<lparr>active := None, tasks := map (set_stop_flag (ms_generation state)) (tasks m)\<rparr>)"

definition spawn_mining_attempt ::
  "Primitives \<Rightarrow> ChainStore \<Rightarrow> Mempool \<Rightarrow> bytes \<Rightarrow> nat \<Rightarrow> nat \<Rightarrow> Mining \<Rightarrow> (LedgerError, Mining) res" where
  "spawn_mining_attempt P s mempool pk generation now m =
     bind_res (mining_candidate P s mempool pk now) (\<lambda>candidate.
       case candidate of
         None \<Rightarrow> Ok m
       | Some (hdr, selected) \<Rightarrow>
           Ok (m\<lparr>tasks := tasks m @ [\<lparr> at_generation = generation, at_stop = False, at_header = hdr,
               at_transactions = selected \<rparr>]\<rparr>))"

definition mining_start ::
  "Primitives \<Rightarrow> ChainStore \<Rightarrow> Mempool \<Rightarrow> bytes \<Rightarrow> nat \<Rightarrow> Mining \<Rightarrow> (LedgerError, Mining) res" where
  "mining_start P s mempool pk now m =
     (let m = mining_stop m;
          m = m\<lparr>next_generation := u64_add (next_generation m) 1\<rparr>;
          m = m\<lparr>active := Some \<lparr> ms_public_key = pk, ms_generation = next_generation m \<rparr>\<rparr> in
      spawn_mining_attempt P s mempool pk (next_generation m) now m)"

definition restart_if_active ::
  "Primitives \<Rightarrow> ChainStore \<Rightarrow> Mempool \<Rightarrow> nat \<Rightarrow> Mining \<Rightarrow> (LedgerError, Mining) res" where
  "restart_if_active P s mempool now m =
     (case active m of
        None \<Rightarrow> Ok m
      | Some state \<Rightarrow> mining_start P s mempool (ms_public_key state) now m)"

subsection \<open>What the candidate carries\<close>

lemma candidate_valid_iff:
  assumes "chain_inv P (chain s)" and "ancestors (chain s) (tip_hash (chain s)) = Ok p"
  shows "is_valid_candidate_transaction P s tx hgt = Ok True \<longleftrightarrow>
    claim_ok P (chain s) hgt (username_owner (chain s)) (set p) tx"
proof -
  have st: "state_at (chain s) (tip_hash (chain s)) = Ok (username_owner (chain s))"
    using assms(1) by (simp add: chain_inv_def tip_ok_def)
  show ?thesis
    unfolding claim_ok_def is_valid_candidate_transaction_def
    by (cases "verify_self_contained P tx")
      (auto simp: is_valid_for_mempool_def assms(2) st get_meta_def not_less split: option.splits)
qed

lemma select_transactions_sound:
  assumes "select_transactions P s hgt txs selected used = Ok sel"
    and "length selected \<le> MAX_TXS_PER_BLOCK" and "distinct (map username selected)" "username ` set selected \<subseteq> used"
  shows "length sel \<le> MAX_TXS_PER_BLOCK \<and> distinct (map username sel) \<and>
    (\<forall>tx \<in> set sel. tx \<in> set selected \<or> tx \<in> set txs \<and> is_valid_candidate_transaction P s tx hgt = Ok True)"
  using assms
proof (induction txs arbitrary: selected used)
  case (Cons tx txs)
  show ?case
  proof (cases "MAX_TXS_PER_BLOCK \<le> length selected \<or> username tx \<in> used")
    case True
    then show ?thesis using Cons.prems Cons.IH [of selected used] by (auto split: if_splits)
  next
    case False
    then obtain valid where v: "is_valid_candidate_transaction P s tx hgt = Ok valid"
      and rest: "select_transactions P s hgt txs (if valid then selected @ [tx] else selected) (insert (username tx) used) = Ok sel"
      using Cons.prems(1) by (auto simp: bind_res_Ok)
    have "username tx \<notin> username ` set selected" using False Cons.prems(4) by auto
    then have "length (if valid then selected @ [tx] else selected) \<le> MAX_TXS_PER_BLOCK"
      "distinct (map username (if valid then selected @ [tx] else selected))"
      "username ` set (if valid then selected @ [tx] else selected) \<subseteq> insert (username tx) used"
      using False Cons.prems(2-4) by auto
    from Cons.IH [OF rest this] show ?thesis using v by (auto split: if_splits)
  qed
qed auto

lemma mining_candidate_Some:
  assumes "mining_candidate P s mempool pk now = Ok (Some (hdr, selected))"
  obtains target mtp tip where "store_expected_difficulty s = Ok target" and "store_median_time_past s = Ok mtp"
    and "tip_height (chain s) = Ok tip"
    and "select_transactions P s (u64_add tip 1) (sort_key (tx_id P) (map snd mempool)) [] {} = Ok selected"
    and "hdr = \<lparr> version = 1, height = u64_add tip 1, prev_hash = tip_hash (chain s),
                  timestamp = max now (u64_add mtp 1), tx_commitment = compute_tx_commitment P selected,
                  difficulty_target = target, nonce = 0, miner_public_key = pk \<rparr>"
  using assms
  by (auto simp: mining_candidate_def bind_res_Ok Let_def split: res.splits)

text \<open>The search changes the nonce and moves the timestamp forward; it touches nothing else.\<close>

definition mined_from :: "BlockHeader \<Rightarrow> BlockHeader \<Rightarrow> bool" where
  "mined_from hdr hdr' \<longleftrightarrow> (\<exists>n t. hdr' = hdr\<lparr>nonce := n, timestamp := t\<rparr> \<and> timestamp hdr \<le> t)"

lemma mined_from_refl: "mined_from hdr hdr"
  unfolding mined_from_def by (intro exI [of _ "nonce hdr"] exI [of _ "timestamp hdr"]) simp

lemma mined_from_step:
  "mined_from (hdr\<lparr>nonce := n, timestamp := max (timestamp hdr) t\<rparr>) hdr' \<Longrightarrow> mined_from hdr hdr'"
  "mined_from (hdr\<lparr>nonce := n\<rparr>) hdr' \<Longrightarrow> mined_from hdr hdr'"
  by (auto simp: mined_from_def)

lemmas mine_loop_induct = mine_loop.raw_induct [rotated, consumes 1, case_names step]

lemma mine_loop_result:
  "mine_loop P target stop now hdr attempts = Some r \<Longrightarrow>
    (\<forall>hdr'. r = Some hdr' \<longrightarrow> mined_from hdr hdr' \<and> meets_target (header_hash P hdr') target)"
proof (induction rule: mine_loop_induct)
  case (step loop P target stop now hdr attempts r)
  then show ?case
    by (auto simp: Let_def mined_from_refl split: if_splits dest!: step.IH intro: mined_from_step)
qed

lemma mine_Some:
  assumes "mine P stop now hdr txs = Some (Some b)"
  shows "mined_from hdr (header b) \<and> transactions b = txs \<and>
    meets_target (block_hash P b) (expand_target (difficulty_target hdr))"
  using assms mine_loop_result by (fastforce simp: mine_def block_hash_def)

text \<open>The header after so many failed attempts.\<close>

fun header_after :: "(nat \<Rightarrow> nat) \<Rightarrow> BlockHeader \<Rightarrow> nat \<Rightarrow> BlockHeader" where
  "header_after now hdr 0 = hdr"
| "header_after now hdr (Suc k) =
     (let h = header_after now hdr k; h = h\<lparr>nonce := u64_add (nonce h) 1\<rparr> in
      if Suc k mod CHECK_INTERVAL = 0 then h\<lparr>timestamp := max (timestamp h) (now (Suc k))\<rparr> else h)"

lemma mine_loop_runs:
  assumes "k < 2 ^ 64" and "\<forall>j < k. \<not> meets_target (header_hash P (header_after now hdr j)) target"
    and "\<forall>j \<le> k. \<not> stop j"
  shows "mine_loop P target stop now hdr 0 = mine_loop P target stop now (header_after now hdr k) k"
  using assms
proof (induction k)
  case (Suc k)
  then have "mine_loop P target stop now hdr 0 = mine_loop P target stop now (header_after now hdr k) k" by simp
  also have "\<dots> = mine_loop P target stop now (header_after now hdr (Suc k)) (Suc k)"
    using Suc.prems by (subst mine_loop.simps) (simp add: Let_def)
  finally show ?case .
qed simp

lemma select_transactions_used:
  assumes "select_transactions P s hgt txs selected used = Ok sel" and "username tx \<in> used" and "tx \<notin> set selected"
  shows "tx \<notin> set sel"
  using assms
proof (induction txs arbitrary: selected used)
  case (Cons x txs)
  show ?case
  proof (cases "MAX_TXS_PER_BLOCK \<le> length selected \<or> username x \<in> used")
    case False
    then obtain valid where "select_transactions P s hgt txs (if valid then selected @ [x] else selected) (insert (username x) used) = Ok sel"
      using Cons.prems(1) by (auto simp: bind_res_Ok)
    then show ?thesis by (rule Cons.IH) (use False Cons.prems in auto)
  qed (use Cons in \<open>auto split: if_splits\<close>)
qed simp

lemma select_transactions_shadow:
  assumes "select_transactions P s hgt txs selected used = Ok sel" and "sorted (map (tx_id P) txs)"
    and "bad \<in> set txs" and "username bad = username tx" and "tx_id P bad < tx_id P tx"
    and "is_valid_candidate_transaction P s bad hgt \<noteq> Ok True" and "tx \<notin> set selected"
  shows "tx \<notin> set sel"
  using assms
proof (induction txs arbitrary: selected used)
  case (Cons x txs)
  have ne: "x \<noteq> tx" using Cons.prems(2,3,5) by auto
  show ?case
  proof (cases "MAX_TXS_PER_BLOCK \<le> length selected \<or> username x \<in> used")
    case True
    show ?thesis
    proof (cases "username tx \<in> used")
      case True
      then show ?thesis using select_transactions_used Cons.prems(1,7) by blast
    next
      case False
      then have "x \<noteq> bad \<or> MAX_TXS_PER_BLOCK \<le> length selected" using True Cons.prems(4) by auto
      then show ?thesis using True Cons.prems Cons.IH [of selected used] by (auto split: if_splits)
    qed
  next
    case False
    then obtain valid where v: "is_valid_candidate_transaction P s x hgt = Ok valid"
      and rest: "select_transactions P s hgt txs (if valid then selected @ [x] else selected) (insert (username x) used) = Ok sel"
      using Cons.prems(1) by (auto simp: bind_res_Ok)
    have out: "tx \<notin> set (if valid then selected @ [x] else selected)" using ne Cons.prems(7) by auto
    show ?thesis
    proof (cases "x = bad")
      case True
      then show ?thesis using select_transactions_used [OF rest _ out] Cons.prems(4) by simp
    next
      case False
      then show ?thesis using Cons.IH [OF rest _ _ Cons.prems(4-6) out] Cons.prems(2,3) by simp
    qed
  qed
qed simp

text \<open>A valid claim is taken when the mempool fits into a block and names its name once.\<close>

lemma select_transactions_takes:
  assumes "select_transactions P s hgt txs selected used = Ok sel" and "tx \<in> set txs"
    and "is_valid_candidate_transaction P s tx hgt = Ok True" and "length selected + length txs \<le> MAX_TXS_PER_BLOCK"
    and "username tx \<notin> used" and "\<forall>tx' \<in> set txs. username tx' = username tx \<longrightarrow> tx' = tx"
  shows "tx \<in> set sel"
  using assms
proof (induction txs arbitrary: selected used)
  case (Cons x txs)
  have keeps: "set selected \<subseteq> set sel" if "select_transactions P s hgt txs selected used = Ok sel" for txs selected used
    using that by (induction txs arbitrary: selected used) (fastforce simp: bind_res_Ok split: if_splits)+
  show ?case
  proof (cases "x = tx")
    case True
    then have "select_transactions P s hgt txs (selected @ [tx]) (insert (username tx) used) = Ok sel"
      using Cons.prems by (auto simp: bind_res_Ok)
    from keeps [OF this] show ?thesis by simp
  next
    case False
    then have "username x \<noteq> username tx" "tx \<in> set txs" using Cons.prems(2,6) by auto
    then show ?thesis using Cons.IH Cons.prems False by (auto simp: bind_res_Ok split: if_splits)
  qed
qed simp

subsection \<open>At most one search is wanted\<close>

text \<open>Every search has its own generation; all but the active one have been told to stop, and the active one
  has not.\<close>

definition mining_ok :: "Mining \<Rightarrow> bool" where
  "mining_ok m \<longleftrightarrow>
     distinct (map at_generation (tasks m)) \<and> (\<forall>a \<in> set (tasks m). at_generation a \<le> next_generation m) \<and>
     (\<forall>st. active m = Some st \<longrightarrow> ms_generation st \<le> next_generation m) \<and>
     (\<forall>a \<in> set (tasks m). \<not> at_stop a \<longrightarrow> (\<exists>st. active m = Some st \<and> ms_generation st = at_generation a)) \<and>
     (\<forall>a \<in> set (tasks m). at_stop a \<longrightarrow> map_option ms_generation (active m) \<noteq> Some (at_generation a))"

lemma mining_ok_new: "mining_ok mining_new"
  by (simp add: mining_ok_def mining_new_def)

lemma set_stop_flag_simps [simp]:
  "at_generation (set_stop_flag g a) = at_generation a" "at_header (set_stop_flag g a) = at_header a"
  "at_transactions (set_stop_flag g a) = at_transactions a" "at_stop (set_stop_flag g a) \<longleftrightarrow> at_generation a = g \<or> at_stop a"
  by (auto simp: set_stop_flag_def)

lemma mining_ok_stop:
  assumes "mining_ok m"
  shows "mining_ok (mining_stop m) \<and> active (mining_stop m) = None \<and> next_generation (mining_stop m) = next_generation m \<and>
    (\<forall>a \<in> set (tasks (mining_stop m)). at_stop a)"
proof (cases "active m")
  case None
  then show ?thesis using assms by (auto simp: mining_stop_def mining_ok_def)
next
  case (Some st)
  have "map at_generation (map (set_stop_flag g) ts) = map at_generation ts" for g ts by simp
  then show ?thesis using assms Some by (fastforce simp: mining_stop_def mining_ok_def simp del: map_map)
qed

lemma mining_ok_start:
  assumes "mining_ok m" and "next_generation m < 2 ^ 64 - 1" and "mining_start P s mempool pk now m = Ok m'"
  shows "mining_ok m' \<and> next_generation m' = next_generation m + 1 \<and>
    active m' = Some \<lparr> ms_public_key = pk, ms_generation = next_generation m' \<rparr>"
proof -
  let ?m = "mining_stop m"
  note st = mining_ok_stop [OF assms(1)]
  have g: "u64_add (next_generation ?m) 1 = next_generation m + 1" using st assms(2) by simp
  have fresh: "\<forall>a \<in> set (tasks ?m). at_generation a \<le> next_generation m"
    using st unfolding mining_ok_def by (metis (no_types, lifting))
  then have "next_generation m + 1 \<notin> at_generation ` set (tasks ?m)" by fastforce
  moreover have "at_generation a \<le> Suc (next_generation m)" if "a \<in> set (tasks ?m)" for a using fresh that by fastforce
  ultimately show ?thesis
    using assms(3) st g
    by (auto simp: mining_start_def spawn_mining_attempt_def Let_def bind_res_Ok mining_ok_def image_iff split: option.splits)
qed

lemma mining_ok_restart:
  assumes "mining_ok m" and "next_generation m < 2 ^ 64 - 1" and "restart_if_active P s mempool now m = Ok m'"
  shows "mining_ok m' \<and> next_generation m' \<le> next_generation m + 1 \<and> (active m' = None \<longleftrightarrow> active m = None)"
  using assms mining_ok_start [OF assms(1,2)] by (fastforce simp: restart_if_active_def split: option.splits)

subsection \<open>Properties\<close>

lemma mined_block_passes:
  assumes "chain_inv P (chain s)" and "heights_ok (chain s)" and "wf_hash (tip_hash (chain s))" and "digest32 (sha256 P)"
    and "\<forall>tx \<in> snd ` set mempool. wf_tx tx" and "length pk = 32"
    and "mining_candidate P s mempool pk now = Ok (Some (hdr, selected))"
    and "mine P stop clk hdr selected = Some (Some b)"
    and "\<forall>t. store_median_time_past s = Ok t \<longrightarrow> t < 2 ^ 64 - 1" and "timestamp (header b) \<le> u64_add later MAX_FUTURE_DRIFT_SECS"
  shows "validate_block P (chain s) b later = Ok ()"
proof -
  let ?c = "chain s" and ?tip = "tip_hash (chain s)"
  obtain target mtp tip where target: "expected_difficulty ?c ?tip = Ok target" and mtp: "median_time_past ?c ?tip = Ok mtp"
    and tip: "tip_height ?c = Ok tip"
    and sel: "select_transactions P s (u64_add tip 1) (sort_key (tx_id P) (map snd mempool)) [] {} = Ok selected"
    and hdr: "hdr = \<lparr> version = 1, height = u64_add tip 1, prev_hash = ?tip, timestamp = max now (u64_add mtp 1),
        tx_commitment = compute_tx_commitment P selected, difficulty_target = target, nonce = 0, miner_public_key = pk \<rparr>"
    using mining_candidate_Some [OF assms(7)] by (metis store_expected_difficulty_def store_median_time_past_def)
  obtain n t where b: "header b = hdr\<lparr>nonce := n, timestamp := t\<rparr>" "timestamp hdr \<le> t" "transactions b = selected"
    and pow: "meets_target (block_hash P b) (expand_target target)"
    using mine_Some [OF assms(8)] by (auto simp: mined_from_def hdr)
  obtain pm where pm: "meta ?c ?tip = Some pm" "m_height pm = tip" using tip by (auto simp: tip_height_def bind_res_Ok)
  obtain p where p: "ancestors ?c ?tip = Ok p" using mtp by (auto simp: median_time_past_def bind_res_Ok)
  have st: "state_at ?c ?tip = Ok (username_owner ?c)" using assms(1) by (simp add: chain_inv_def tip_ok_def)
  have s: "length selected \<le> MAX_TXS_PER_BLOCK" "distinct (map username selected)"
    and from_mempool: "\<forall>tx \<in> set selected. tx \<in> snd ` set mempool \<and> claim_ok P ?c (u64_add tip 1) (username_owner ?c) (set p) tx"
    using select_transactions_sound [OF sel] candidate_valid_iff [OF assms(1) p] by auto
  have size: "approx_size_bytes b \<le> MAX_BLOCK_BYTES"
  proof -
    have "wf_hash (compute_tx_commitment P selected)" using assms(4) by (rule wf_compute_tx_commitment)
    then have hb: "length (header_canonical_bytes (header b)) = 125"
      using assms(3,6) by (simp add: b hdr header_canonical_bytes_def wf_hash_def del: le_bytes_numeral)
    have "(\<Sum>tx\<leftarrow>selected. length (tx_canonical_bytes tx)) \<le> length selected * 204"
      using from_mempool assms(5) by (intro sum_list_map_bound verified_size [of P]) (auto simp: claim_ok_def)
    also have "\<dots> \<le> 64 * 204" using s(1) by (simp add: MAX_TXS_PER_BLOCK_def)
    finally show ?thesis unfolding approx_size_bytes_def hb b(3) by (simp add: MAX_BLOCK_BYTES_def)
  qed
  have "u64_add mtp 1 = mtp + 1" using assms(9) mtp by (intro u64_add_exact) (simp add: store_median_time_past_def)
  then have "mtp < t" using b(2) by (simp add: hdr)
  then show ?thesis
    using s size pow assms(10) from_mempool target mtp p st pm
    by (auto simp: validate_block_def bind_res_Ok get_meta_def validate_transactions_def check_claims_Ok b hdr)
qed

text \<open>C33: a block this node mines is valid on its own chain. Whatever is in the mempool, the candidate
  satisfies every consensus rule, and the search keeps it so: the block passes validation as long as
  the tip has not moved and its timestamp is not more than two hours ahead of the validating clock.\<close>

theorem mined_block_valid:
  assumes "chain_inv P (chain s)" and "heights_ok (chain s)" and "wf_hash (tip_hash (chain s))" and "digest32 (sha256 P)"
    and "\<forall>tx \<in> snd ` set mempool. wf_tx tx" and "length pk = 32"
    and "mining_candidate P s mempool pk now = Ok (Some (hdr, selected))"
    and "mine P stop clk hdr selected = Some (Some b)"
    and "\<forall>t. store_median_time_past s = Ok t \<longrightarrow> t < 2 ^ 64 - 1" and "timestamp (header b) \<le> u64_add later MAX_FUTURE_DRIFT_SECS"
  shows "validate_block P (chain s) b later = Ok ()"
  by (rule mined_block_passes [OF assms])

text \<open>C34: the search ends. If some header the search comes to meets the target before a stop is seen,
  the search returns the first such header; it never returns one that does not meet the target.\<close>

theorem mining_finds_nonce:
  assumes "k < 2 ^ 64" and "meets_target (header_hash P (header_after now hdr k)) (expand_target (difficulty_target hdr))"
    and "\<forall>j \<le> k. \<not> stop j"
  shows "\<exists>j \<le> k. mine P stop now hdr txs = Some (Some \<lparr> header = header_after now hdr j, transactions = txs \<rparr>) \<and>
    meets_target (header_hash P (header_after now hdr j)) (expand_target (difficulty_target hdr)) \<and>
    (\<forall>i < j. \<not> meets_target (header_hash P (header_after now hdr i)) (expand_target (difficulty_target hdr)))"
proof -
  let ?meets = "\<lambda>j. meets_target (header_hash P (header_after now hdr j)) (expand_target (difficulty_target hdr))"
  define j where "j = (LEAST j. ?meets j)"
  have j: "?meets j" "j \<le> k" "\<forall>i < j. \<not> ?meets i"
    using assms(2) LeastI [of ?meets k] Least_le [of ?meets k] not_less_Least [of _ ?meets] by (auto simp: j_def)
  have "mine_loop P (expand_target (difficulty_target hdr)) stop now hdr 0 =
      mine_loop P (expand_target (difficulty_target hdr)) stop now (header_after now hdr j) j"
    using j assms(1,3) by (intro mine_loop_runs) auto
  also have "\<dots> = Some (Some (header_after now hdr j))" using j(1) by (subst mine_loop.simps) simp
  finally show ?thesis using j by (auto simp: mine_def)
qed

text \<open>C35: one claim can keep another out of every block this node mines. A claim that could never be
  included takes its name in the candidate all the same, so a valid claim for the name with a larger
  identifier is passed over as long as the other one is in the mempool.\<close>

theorem invalid_claim_shadows:
  assumes "mining_candidate P s mempool pk now = Ok (Some (hdr, selected))" and "bad \<in> snd ` set mempool"
    and "username bad = username tx" and "tx_id P bad < tx_id P tx"
    and "is_valid_candidate_transaction P s bad (height hdr) \<noteq> Ok True"
  shows "tx \<notin> set selected"
proof -
  obtain tip where sel: "select_transactions P s (u64_add tip 1) (sort_key (tx_id P) (map snd mempool)) [] {} = Ok selected"
    and "height hdr = u64_add tip 1"
    using mining_candidate_Some [OF assms(1)] by (metis BlockHeader.select_convs(2))
  then have "is_valid_candidate_transaction P s bad (u64_add tip 1) \<noteq> Ok True" using assms(5) by simp
  moreover have "sorted (map (tx_id P) (sort_key (tx_id P) (map snd mempool)))" by (rule sorted_sort_key)
  moreover have "bad \<in> set (sort_key (tx_id P) (map snd mempool))" using assms(2) by simp
  ultimately show ?thesis using select_transactions_shadow [OF sel _ _ assms(3,4)] by simp
qed

lemma sample_candidate:
  assumes "chain s = new_chain toy"
  shows "mining_candidate toy s [(tx_id toy sample_tx, sample_tx)] (replicate 32 0) 1750000300 =
      Ok (Some (header sample_block, [sample_tx]))"
    and "store_median_time_past s = Ok t \<Longrightarrow> t < 1750000300"
    and "is_valid_candidate_transaction toy s sample_tx 1 = Ok True"
proof -
  let ?g = "block_hash toy (genesis toy)"
  have hdr: "prev_hash (header sample_block) = ?g" "height (header sample_block) = 1" "timestamp (header sample_block) = 1750000300"
    "transactions sample_block = [sample_tx]" "difficulty_target (header sample_block) = INITIAL_DIFFICULTY_BITS"
    by (simp_all add: sample_block_def)
  obtain p t' where p: "ancestors (new_chain toy) ?g = Ok p" and exp: "expected_difficulty (new_chain toy) ?g = Ok INITIAL_DIFFICULTY_BITS"
    and mtp: "median_time_past (new_chain toy) ?g = Ok t'" "t' < 1750000300"
    and vt: "validate_transactions toy (new_chain toy) sample_block = Ok ()"
    using validate_block_OkD [OF sample_valid] by (metis hdr)
  show "store_median_time_past s = Ok t \<Longrightarrow> t < 1750000300"
    using mtp by (simp add: store_median_time_past_def assms sample_floor)
  have "state_at (new_chain toy) ?g = Ok (username_owner (new_chain toy))"
    using sample_genesis_inv by (simp add: chain_inv_def tip_ok_def sample_floor)
  then have "claim_ok toy (new_chain toy) 1 (username_owner (new_chain toy)) (set p) sample_tx"
    using vt p by (simp add: validate_transactions_def hdr check_claims_Ok del: check_claims.simps)
  then show valid: "is_valid_candidate_transaction toy s sample_tx 1 = Ok True"
    using candidate_valid_iff [of toy s p sample_tx 1] sample_genesis_inv p by (simp add: assms sample_floor)
  have tip: "tip_height (chain s) = Ok 0" by (simp add: assms tip_height_def sample_floor sample_meta)
  have "max 1750000300 (u64_add t' 1) = (1750000300 :: nat)" using mtp(2) by simp
  then have "sample_block = \<lparr> header = \<lparr> version = 1, height = 1, prev_hash = ?g, timestamp = max 1750000300 (u64_add t' 1),
      tx_commitment = compute_tx_commitment toy [sample_tx], difficulty_target = INITIAL_DIFFICULTY_BITS, nonce = 0,
      miner_public_key = replicate 32 0 \<rparr>, transactions = [sample_tx] \<rparr>" by (simp only: sample_block_def)
  then have "header sample_block = \<lparr> version = 1, height = 1, prev_hash = ?g, timestamp = max 1750000300 (u64_add t' 1),
      tx_commitment = compute_tx_commitment toy [sample_tx], difficulty_target = INITIAL_DIFFICULTY_BITS, nonce = 0,
      miner_public_key = replicate 32 0 \<rparr>" by (metis Block.select_convs(1))
  then show "mining_candidate toy s [(tx_id toy sample_tx, sample_tx)] (replicate 32 0) 1750000300 =
      Ok (Some (header sample_block, [sample_tx]))"
    using exp mtp(1) tip valid
    by (simp add: mining_candidate_def MAX_TXS_PER_BLOCK_def store_expected_difficulty_def store_median_time_past_def assms sample_floor Let_def)
qed

definition sample_store :: ChainStore where
  "sample_store = \<lparr> db = empty_database, chain = new_chain toy \<rparr>"

lemma sample_mined: "mine toy (\<lambda>j. False) (\<lambda>j. 0) (header sample_block) [sample_tx] = Some (Some sample_block)"
proof -
  have "meets_target (header_hash toy (header sample_block)) (expand_target (difficulty_target (header sample_block)))"
    using validate_block_OkD [OF sample_valid] by (metis block_hash_def)
  moreover have "\<lparr> header = header sample_block, transactions = [sample_tx] \<rparr> = sample_block" by (simp add: sample_block_def)
  ultimately show ?thesis by (simp add: mine_def mine_loop.simps [of toy _ _ _ "header sample_block" 0])
qed

lemma mined_block_valid_witness: "validate_block toy (chain sample_store) sample_block 1750000300 = Ok ()"
proof (rule mined_block_valid [OF _ _ _ toy_digest32 _ _ sample_candidate(1) sample_mined])
  show "chain sample_store = new_chain toy" by (simp add: sample_store_def)
  then show "chain_inv toy (chain sample_store)" "heights_ok (chain sample_store)" "wf_hash (tip_hash (chain sample_store))"
    using sample_genesis_inv sample_heights by (simp_all add: sample_floor wf_hash_def sample_genesis_hash)
  show "\<forall>tx \<in> snd ` set [(tx_id toy sample_tx, sample_tx)]. wf_tx tx"
    by (simp add: wf_tx_def sample_tx_def Let_def wf_hash_def sample_genesis_hash)
  show "\<forall>t. store_median_time_past sample_store = Ok t \<longrightarrow> t < 2 ^ 64 - 1"
    using sample_candidate(2) [of sample_store] by (fastforce simp: sample_store_def)
  show "timestamp (header sample_block) \<le> u64_add 1750000300 MAX_FUTURE_DRIFT_SECS"
    by (simp add: MAX_FUTURE_DRIFT_SECS_def) (simp add: sample_block_def)
qed simp

lemma mining_finds_nonce_witness:
  "\<exists>j \<le> 0. mine toy (\<lambda>j. False) (\<lambda>j. 0) (header sample_block) [] =
    Some (Some \<lparr> header = header_after (\<lambda>j. 0) (header sample_block) j, transactions = [] \<rparr>)"
proof -
  have "meets_target (header_hash toy (header_after (\<lambda>j. 0) (header sample_block) 0)) (expand_target (difficulty_target (header sample_block)))"
    using validate_block_OkD [OF sample_valid] by (metis block_hash_def header_after.simps(1))
  from mining_finds_nonce [OF _ this, of "\<lambda>j. False" "[]"] show ?thesis by auto
qed

lemma same_prefix_less: "replicate n (0 :: byte) @ xs < replicate n 0 @ ys \<longleftrightarrow> xs < ys"
  by (induction n) auto

definition shadowing_tx :: Transaction where
  "shadowing_tx = sample_tx\<lparr>signature := []\<rparr>"

lemma invalid_claim_shadows_witness:
  "\<exists>hdr sel. mining_candidate toy sample_store [(tx_id toy sample_tx, sample_tx), (tx_id toy shadowing_tx, shadowing_tx)]
     (replicate 32 0) 1750000300 = Ok (Some (hdr, sel)) \<and> sample_tx \<notin> set sel"
proof -
  let ?mempool = "[(tx_id toy sample_tx, sample_tx), (tx_id toy shadowing_tx, shadowing_tx)]"
  have pre: "tx_preimage shadowing_tx = tx_preimage sample_tx" by (simp add: shadowing_tx_def tx_preimage_def)
  have "tx_id toy shadowing_tx = Hash32 (replicate 31 0 @ [0x1e])"
    unfolding tx_id_def hash_of_def tx_canonical_bytes_def pre
    by (simp add: shadowing_tx_def sample_preimage)
  then have lt: "tx_id toy shadowing_tx < tx_id toy sample_tx" by (simp add: sample_id less_Hash32_def same_prefix_less)
  have "length (signature shadowing_tx) \<noteq> 64" by (simp add: shadowing_tx_def)
  then have "\<exists>e. verify_self_contained toy shadowing_tx = Err e"
    using returns_verify_self_contained [of toy shadowing_tx] verify_self_contained_Ok [of toy shadowing_tx]
    by (cases "verify_self_contained toy shadowing_tx") (simp_all del: returns_verify_self_contained)
  then have bad: "is_valid_candidate_transaction toy sample_store shadowing_tx 1 = Ok False"
    by (auto simp: is_valid_candidate_transaction_def is_valid_for_mempool_def)
  have user: "username shadowing_tx = username sample_tx" by (simp add: shadowing_tx_def)
  have base: "chain sample_store = new_chain toy" by (simp add: sample_store_def)
  obtain hdr where cand: "mining_candidate toy sample_store ?mempool (replicate 32 0) 1750000300 = Ok (Some (hdr, []))" "height hdr = 1"
  proof -
    obtain target mtp tip where c: "store_expected_difficulty sample_store = Ok target" "store_median_time_past sample_store = Ok mtp"
      "tip_height (chain sample_store) = Ok tip" "height (header sample_block) = u64_add tip 1"
      using mining_candidate_Some [OF sample_candidate(1) [OF base]] by (metis BlockHeader.select_convs(2))
    then have h: "u64_add tip 1 = 1" by (simp add: sample_block_def)
    have sorted: "sort_key (tx_id toy) (map snd ?mempool) = [shadowing_tx, sample_tx]" using lt by simp
    have sel: "select_transactions toy sample_store 1 [shadowing_tx, sample_tx] [] {} = Ok []"
      using bad user by (simp add: MAX_TXS_PER_BLOCK_def)
    have "\<exists>hdr. mining_candidate toy sample_store ?mempool (replicate 32 0) 1750000300 = Ok (Some (hdr, [])) \<and> height hdr = 1"
      unfolding mining_candidate_def c(1-3) Let_def sorted prod.case res.case bind_res.simps h sel by auto
    then show ?thesis using that by blast
  qed
  then show ?thesis
    using invalid_claim_shadows [OF cand(1) _ user lt] bad by auto
qed

end
