(* ===== verification/Node.thy ===== *)
theory Node
  imports Mix Mining
begin

text \<open>
  The state and the handlers of the event loop in \<^verbatim>\<open>packages/p2p-core/src/node.rs\<close>, with the commands
  of \<^verbatim>\<open>command.rs\<close>, the events of \<^verbatim>\<open>event.rs\<close> and the sync messages of \<^verbatim>\<open>ledger.rs\<close>. The locals of
  \<^verbatim>\<open>run_event_loop\<close> are one record; everything a handler sends to the application, to the swarm or to
  a background task is appended to \<open>outputs\<close>, in order. A handler that can panic returns a \<open>res\<close>.
\<close>

subsection \<open>Commands, events and messages\<close>

datatype Command =
    DialPeer PeerId "Multiaddr list"
  | ResolvePeerAddresses PeerId
  | AnnounceAddresses "Multiaddr list"
  | SendEnvelope PeerId bytes
  | ReserveRelaySlot Multiaddr
  | SetLocalBlob bytes bytes
  | ClearLocalBlob bytes
  | FetchBlob PeerId bytes
  | SendMixPacket PeerId bytes
  | AnnounceMixRelay
  | DepositToMailbox bytes bytes
  | RetrieveFromMailbox bytes
  | AnnounceUsername bytes bytes
  | ResolveUsername bytes
  | SubmitUsernameClaim Transaction
  | SubmitMinedBlock Block
  | QueryUsernameOwner bytes
  | RequestChainSync PeerId
  | QueryChainTip
  | StartMining bytes
  | StopMining
  | SetMixDummyTrafficActive bool
  | Shutdown

datatype P2pEvent =
    ListeningOn Multiaddr
  | PeerDiscoveredLocally PeerId
  | PeerConnected PeerId
  | PeerIdentified PeerId
  | PeerDisconnected PeerId
  | DialFailed "PeerId option" string
  | RelayReservationFailed string
  | EnvelopeReceived PeerId bytes
  | EnvelopeDelivered PeerId
  | EnvelopeDeliveryFailed PeerId string
  | PeerAddressesResolved PeerId "Multiaddr list"
  | PeerAddressResolutionFailed PeerId
  | AddressesAnnounced
  | AddressAnnouncementFailed string
  | BlobFetched PeerId bytes bytes
  | BlobFetchFailed PeerId bytes string
  | MixPacketArrived bytes
  | MixForwardFailed string
  | MixRelayDiscovered PeerId
  | MailboxDepositStored
  | MailboxEnvelopeRetrieved bytes
  | UsernameResolved bytes bytes
  | UsernameResolutionFailed bytes
  | UsernameAnnounced bytes
  | UsernameAnnouncementFailed bytes string
  | ChainTipChanged nat string
  | LedgerSubmissionRejected string
  | UsernameOwnerResolved bytes bytes nat
  | UsernameOwnerNotFound bytes
  | ChainSyncCompleted nat
  | ChainSyncFailed PeerId string
  | NewBlockMined nat

definition MAX_SYNC_BATCH :: nat where
  "MAX_SYNC_BATCH = 500"

datatype ChainSyncRequest =
    GetTip
  | GetBlocks nat nat
  | GetHeaders nat nat
  | GetUsernameOwnerSnapshot

datatype ChainSyncResponse =
    SyncTip nat Hash32 f64
  | SyncBlocks "Block list"
  | SyncHeaders "BlockHeader list"
  | UsernameOwnerSnapshot Checkpoint
  | NotAvailable

definition blocks_topic :: bytes where "blocks_topic = ascii ''/spiritchat/ledger/blocks/1''"
definition txs_topic :: bytes where "txs_topic = ascii ''/spiritchat/ledger/txs/1''"
definition mix_relay_directory_topic :: bytes where "mix_relay_directory_topic = ascii ''/spiritchat/mix/relays/1''"

record MixMessage =
  packet_bytes :: bytes
  sender_routing_public_key :: RoutingKey

datatype BlobResponse = BlobFound bytes | BlobNotFound

subsection \<open>What a handler sends\<close>

type_synonym Channel = nat

datatype SwarmCall =
    KadAddAddress PeerId Multiaddr
  | KadBootstrap
  | KadGetRecord bytes
  | KadPutRecord bytes bytes
  | SwarmDial PeerId "Multiaddr list"
  | SwarmListen Multiaddr
  | EnvelopeRequest PeerId bytes
  | EnvelopeResponse Channel bytes
  | BlobRequest PeerId bytes
  | SendBlobResponse Channel BlobResponse
  | MixRequest PeerId MixMessage
  | MixAck Channel
  | GossipPublish bytes bytes
  | SyncRequest PeerId ChainSyncRequest
  | SyncResponse Channel ChainSyncResponse

text \<open>Tasks that report back over a channel: the delay of a forwarded packet and the stamp of a deposit.\<close>

datatype NodeTask =
    ForwardAfter nat PeerId MixMessage
  | MineDeposit bytes bytes

datatype Output = Event P2pEvent | Call SwarmCall | Spawn NodeTask

subsection \<open>The state of the loop\<close>

record Pending =
  resolve_peer :: "QueryId \<rightharpoonup> PeerId"
  announce :: "QueryId set"
  envelope_send :: "RequestId \<rightharpoonup> PeerId"
  blob_fetch :: "RequestId \<rightharpoonup> PeerId \<times> bytes"
  resolve_username :: "QueryId \<rightharpoonup> bytes"
  announce_username :: "QueryId \<rightharpoonup> bytes"
  chain_sync_tip :: "RequestId \<rightharpoonup> PeerId"
  chain_sync_blocks :: "RequestId \<rightharpoonup> PeerId"

definition no_pending :: Pending where
  "no_pending = \<lparr> resolve_peer = Map.empty, announce = {}, envelope_send = Map.empty, blob_fetch = Map.empty,
     resolve_username = Map.empty, announce_username = Map.empty, chain_sync_tip = Map.empty,
     chain_sync_blocks = Map.empty \<rparr>"

record Node =
  local_peer_id :: PeerId
  mix_secret :: bytes
  mix_public :: RoutingKey
  chain_store :: ChainStore
  mailbox_store :: MailboxStore
  pending :: Pending
  local_blobs :: "bytes \<rightharpoonup> bytes"
  known_mix_relays :: Relays
  known_mix_routing_keys :: RoutingKeys
  mix_dummy_traffic_active :: bool
  mempool :: Mempool
  mining :: Mining
  dht_ready :: bool
  deferred_commands :: "Command list"
  outputs :: "Output list"

definition emit :: "P2pEvent \<Rightarrow> Node \<Rightarrow> Node" where
  "emit e n = n\<lparr>outputs := outputs n @ [Event e]\<rparr>"

definition call :: "SwarmCall \<Rightarrow> Node \<Rightarrow> Node" where
  "call c n = n\<lparr>outputs := outputs n @ [Call c]\<rparr>"

definition spawn_task :: "NodeTask \<Rightarrow> Node \<Rightarrow> Node" where
  "spawn_task t n = n\<lparr>outputs := outputs n @ [Spawn t]\<rparr>"

definition set_pending :: "(Pending \<Rightarrow> Pending) \<Rightarrow> Node \<Rightarrow> Node" where
  "set_pending f n = n\<lparr>pending := f (pending n)\<rparr>"

definition own_message :: "SphinxPacket \<Rightarrow> Node \<Rightarrow> MixMessage" where
  "own_message packet n = \<lparr> packet_bytes = packet, sender_routing_public_key = mix_public n \<rparr>"

subsection \<open>Mix traffic this node originates\<close>

definition NO_RELAY :: string where "NO_RELAY = ''no mix relay is currently known and reachable''"

definition send_mailbox_deposit :: "Network \<Rightarrow> World \<Rightarrow> MailboxDeposit \<Rightarrow> Node \<Rightarrow> (LedgerError, Node) res" where
  "send_mailbox_deposit N w d n =
     (case build_mix_path_to_tag N w 0 (d_tag d) (known_mix_relays n) (known_mix_routing_keys n) of
        None \<Rightarrow> Ok (emit (MixForwardFailed NO_RELAY) n)
      | Some hops \<Rightarrow>
          (case frame_mailbox_deposit N d of
             None \<Rightarrow> Ok (emit (MixForwardFailed ''failed to encode the mailbox deposit'') n)
           | Some payload \<Rightarrow>
               (case build_packet N payload (hops_of hops) (rng_bytes w 1 32) (rng_bytes w 2 16)
                       (rng_delays w 3 (length hops) MIX_DUMMY_TRAFFIC_HOP_DELAY) of
                  Ok packet \<Rightarrow> Ok (call (MixRequest (fst (snd (hd hops))) (own_message packet n)) n)
                | Err _ \<Rightarrow> Ok (emit (MixForwardFailed ''failed to build the deposit's Sphinx packet'') n)
                | Panic \<Rightarrow> Panic
                | Diverge \<Rightarrow> Diverge)))"

definition send_mailbox_retrieval_query :: "Network \<Rightarrow> World \<Rightarrow> bytes \<Rightarrow> Node \<Rightarrow> (LedgerError, Node) res" where
  "send_mailbox_retrieval_query N w shared_material n =
     (let tag = mailbox_tag (prims N) shared_material (epoch_for (clock w 0)) in
      case build_mix_path_to_tag N w 0 tag (known_mix_relays n) (known_mix_routing_keys n) of
        None \<Rightarrow> Ok (emit (MixForwardFailed NO_RELAY) n)
      | Some hops \<Rightarrow>
          let responder_peer = fst (snd (last hops));
              return_candidates = filter (\<lambda>(addr, peer). peer \<noteq> responder_peer) (known_mix_relays n);
              self_hop = \<lparr> address = node_address_for N (local_peer_id n), hop_public_key = mix_public n \<rparr>;
              return_hops = pick_mix_path w 1 return_candidates (known_mix_routing_keys n) (MIX_PATH_HOPS - 1);
              return_path = hops_of return_hops @ [self_hop] in
          (case build_surb N return_path (rng_bytes w 2 32) (rng_bytes w 3 16)
                  (rng_delays w 4 (length return_path) MIX_DUMMY_TRAFFIC_HOP_DELAY) of
             Ok surb \<Rightarrow>
               (case build_packet N (frame_mailbox_query tag surb) (hops_of hops) (rng_bytes w 5 32) (rng_bytes w 6 16)
                       (rng_delays w 7 (length hops) MIX_DUMMY_TRAFFIC_HOP_DELAY) of
                  Ok packet \<Rightarrow> Ok (call (MixRequest (fst (snd (hd hops))) (own_message packet n)) n)
                | Err _ \<Rightarrow> Ok (emit (MixForwardFailed ''failed to build the retrieval query's Sphinx packet'') n)
                | Panic \<Rightarrow> Panic
                | Diverge \<Rightarrow> Diverge)
           | Err _ \<Rightarrow> Ok (emit (MixForwardFailed ''failed to build the retrieval query's SURB'') n)
           | Panic \<Rightarrow> Panic
           | Diverge \<Rightarrow> Diverge))"

definition emit_dummy_mix_traffic :: "Network \<Rightarrow> World \<Rightarrow> Node \<Rightarrow> (LedgerError, Node) res" where
  "emit_dummy_mix_traffic N w n =
     (case pick_mix_relay w 0 (known_mix_relays n) (known_mix_routing_keys n) of
        None \<Rightarrow> Ok n
      | Some (relay_address, relay_peer, relay_public) \<Rightarrow>
          let relay_hop = \<lparr> address = relay_address, hop_public_key = relay_public \<rparr>;
              self_hop = \<lparr> address = node_address_for N (local_peer_id n), hop_public_key = mix_public n \<rparr>;
              path = (if rng_bool w 1 then [relay_hop] else [relay_hop, self_hop]) in
          (case build_dummy_packet N path (rng_bytes w 2 32) (rng_bytes w 3 16)
                  (rng_delays w 4 (length path) MIX_DUMMY_TRAFFIC_HOP_DELAY) of
             Ok packet \<Rightarrow> Ok (call (MixRequest relay_peer (own_message packet n)) n)
           | Err _ \<Rightarrow> Ok n
           | Panic \<Rightarrow> Panic
           | Diverge \<Rightarrow> Diverge))"

subsection \<open>Blocks\<close>

definition restart_mining :: "Network \<Rightarrow> World \<Rightarrow> nat \<Rightarrow> Node \<Rightarrow> (LedgerError, Node) res" where
  "restart_mining N w i n =
     bind_res (restart_if_active (prims N) (chain_store n) (mempool n) (clock w i) (mining n)) (\<lambda>m. Ok (n\<lparr>mining := m\<rparr>))"

definition emit_tip :: "Node \<Rightarrow> (LedgerError, Node) res" where
  "emit_tip n =
     bind_res (tip_height (chain (chain_store n))) (\<lambda>h.
       Ok (emit (ChainTipChanged h (hash_text (tip_hash (chain (chain_store n))))) n))"

definition remove_mined :: "Network \<Rightarrow> Block \<Rightarrow> Mempool \<Rightarrow> Mempool" where
  "remove_mined N b pool = foldl (\<lambda>m tx. AList.delete (tx_id (prims N) tx) m) pool (transactions b)"

definition publish :: "bytes \<Rightarrow> bytes option \<Rightarrow> Node \<Rightarrow> Node" where
  "publish topic encoded n = (case encoded of None \<Rightarrow> n | Some data \<Rightarrow> call (GossipPublish topic data) n)"

definition apply_and_broadcast_block ::
  "Network \<Rightarrow> World \<Rightarrow> Block \<Rightarrow> Node \<Rightarrow> (LedgerError, Node \<times> ApplyOutcome option) res" where
  "apply_and_broadcast_block N w b n =
     (case store_try_apply (prims N) (db_ok w 0) (chain_store n) b (clock w 0) of
        (s, Ok outcome) \<Rightarrow>
          let n = n\<lparr>chain_store := s\<rparr> in
          if outcome = AlreadyKnown then Ok (n, Some AlreadyKnown)
          else
            let n = n\<lparr>mempool := remove_mined N b (mempool n)\<rparr>;
                n = publish blocks_topic (enc_block N b) n in
            if outcome \<noteq> AddedToFork then
              bind_res (emit_tip n) (\<lambda>n.
              bind_res (restart_mining N w 1 n) (\<lambda>n. Ok (n, Some outcome)))
            else Ok (n, Some outcome)
      | (s, Err e) \<Rightarrow> Ok (emit (LedgerSubmissionRejected (error_text N e)) (n\<lparr>chain_store := s\<rparr>), None)
      | (s, Panic) \<Rightarrow> Panic
      | (s, Diverge) \<Rightarrow> Diverge)"

subsection \<open>Commands\<close>

fun needs_dht_peer :: "Command \<Rightarrow> bool" where
  "needs_dht_peer (ResolvePeerAddresses peer) = True"
| "needs_dht_peer (AnnounceAddresses addresses) = True"
| "needs_dht_peer (AnnounceUsername name claim) = True"
| "needs_dht_peer (ResolveUsername name) = True"
| "needs_dht_peer _ = False"

fun handle_command :: "Network \<Rightarrow> World \<Rightarrow> Command \<Rightarrow> Node \<Rightarrow> (LedgerError, Node) res" where
  "handle_command N w (DialPeer peer known_addresses) n =
     (let n = foldl (\<lambda>n addr. call (KadAddAddress peer addr) n) n known_addresses;
          n = call (SwarmDial peer known_addresses) n in
      Ok (case dial_error w of None \<Rightarrow> n | Some err \<Rightarrow> emit (DialFailed (Some peer) err) n))"
| "handle_command N w (ResolvePeerAddresses peer) n =
     Ok (set_pending (\<lambda>p. p\<lparr>resolve_peer := (resolve_peer p)(query_id w \<mapsto> peer)\<rparr>)
       (call (KadGetRecord (addrs_record_key peer)) n))"
| "handle_command N w (AnnounceAddresses addresses) n =
     (let n = call (KadPutRecord (addrs_record_key (local_peer_id n)) (encode_addresses N addresses)) n in
      Ok (if put_accepted w then set_pending (\<lambda>p. p\<lparr>announce := insert (query_id w) (announce p)\<rparr>) n else n))"
| "handle_command N w (SendEnvelope to bs) n =
     Ok (set_pending (\<lambda>p. p\<lparr>envelope_send := (envelope_send p)(request_id w \<mapsto> to)\<rparr>) (call (EnvelopeRequest to bs) n))"
| "handle_command N w (ReserveRelaySlot relay_address) n =
     (let n = call (SwarmListen (relay_address @ [P2pCircuit])) n in
      Ok (case listen_error w of None \<Rightarrow> n | Some err \<Rightarrow> emit (RelayReservationFailed err) n))"
| "handle_command N w (SetLocalBlob rid bs) n = Ok (n\<lparr>local_blobs := (local_blobs n)(rid \<mapsto> bs)\<rparr>)"
| "handle_command N w (ClearLocalBlob rid) n = Ok (n\<lparr>local_blobs := (local_blobs n)(rid := None)\<rparr>)"
| "handle_command N w (FetchBlob peer rid) n =
     Ok (set_pending (\<lambda>p. p\<lparr>blob_fetch := (blob_fetch p)(request_id w \<mapsto> (peer, rid))\<rparr>) (call (BlobRequest peer rid) n))"
| "handle_command N w (SendMixPacket first_hop packet) n = Ok (call (MixRequest first_hop (own_message packet n)) n)"
| "handle_command N w AnnounceMixRelay n = Ok (publish mix_relay_directory_topic (enc_announcement N (mix_public n)) n)"
| "handle_command N w (DepositToMailbox shared_material envelope) n = Ok (spawn_task (MineDeposit shared_material envelope) n)"
| "handle_command N w (RetrieveFromMailbox shared_material) n = send_mailbox_retrieval_query N w shared_material n"
| "handle_command N w (AnnounceUsername name claim) n =
     (let n = call (KadPutRecord (username_record_key N name) claim) n in
      Ok (if put_accepted w
          then set_pending (\<lambda>p. p\<lparr>announce_username := (announce_username p)(query_id w \<mapsto> name)\<rparr>) n else n))"
| "handle_command N w (ResolveUsername name) n =
     Ok (set_pending (\<lambda>p. p\<lparr>resolve_username := (resolve_username p)(query_id w \<mapsto> name)\<rparr>)
       (call (KadGetRecord (username_record_key N name)) n))"
| "handle_command N w (SubmitUsernameClaim transaction) n =
     (case verify_self_contained (prims N) transaction of
        Err err \<Rightarrow> Ok (emit (LedgerSubmissionRejected (error_text N err)) n)
      | Ok _ \<Rightarrow>
          let n = n\<lparr>mempool := AList.update (tx_id (prims N) transaction) transaction (mempool n)\<rparr> in
          Ok (publish txs_topic (enc_tx N transaction) n)
      | Panic \<Rightarrow> Panic
      | Diverge \<Rightarrow> Diverge)"
| "handle_command N w (SubmitMinedBlock block) n =
     bind_res (apply_and_broadcast_block N w block n) (\<lambda>(n, outcome). Ok n)"
| "handle_command N w (QueryUsernameOwner name) n =
     Ok (case owner_of_username (prims N) (chain (chain_store n)) name of
           Some owner \<Rightarrow> emit (UsernameOwnerResolved name (o_public_key owner) (o_claimed_at_height owner)) n
         | None \<Rightarrow> emit (UsernameOwnerNotFound name) n)"
| "handle_command N w (RequestChainSync peer) n =
     Ok (set_pending (\<lambda>p. p\<lparr>chain_sync_tip := (chain_sync_tip p)(request_id w \<mapsto> peer)\<rparr>) (call (SyncRequest peer GetTip) n))"
| "handle_command N w QueryChainTip n = emit_tip n"
| "handle_command N w (StartMining pk) n =
     bind_res (mining_start (prims N) (chain_store n) (mempool n) pk (clock w 0) (mining n)) (\<lambda>m. Ok (n\<lparr>mining := m\<rparr>))"
| "handle_command N w StopMining n = Ok (n\<lparr>mining := mining_stop (mining n)\<rparr>)"
| "handle_command N w (SetMixDummyTrafficActive enabled) n = Ok (n\<lparr>mix_dummy_traffic_active := enabled\<rparr>)"
| "handle_command N w Shutdown n = Ok n"

subsection \<open>Events of the swarm\<close>

datatype KadResult =
    FoundRecord bytes
  | GetRecordFailed
  | PutRecordOk
  | PutRecordFailed string
  | OtherQueryResult

datatype KadEvent = OutboundQueryProgressed QueryId KadResult | OtherKadEvent

datatype ('req, 'resp) RequestResponseEvent =
    Request PeerId 'req Channel
  | Response PeerId RequestId 'resp
  | OutboundFailure PeerId RequestId string
  | OtherRequestResponseEvent

datatype SwarmEvent =
    NewListenAddr Multiaddr
  | ConnectionEstablished PeerId
  | ConnectionClosed PeerId
  | OutgoingConnectionError "PeerId option" string
  | MdnsDiscovered "(PeerId \<times> Multiaddr) list"
  | MdnsExpired "(PeerId \<times> Multiaddr) list"
  | KadSwarmEvent KadEvent
  | IdentifyReceived PeerId "Multiaddr list"
  | EnvelopeEvent "(bytes, bytes) RequestResponseEvent"
  | BlobEvent "(bytes, BlobResponse) RequestResponseEvent"
  | MixEvent "(MixMessage, unit) RequestResponseEvent"
  | GossipMessage "PeerId option" bytes bytes
  | LedgerSyncEvent "(ChainSyncRequest, ChainSyncResponse) RequestResponseEvent"
  | OtherSwarmEvent

definition handle_mdns_discovered :: "(PeerId \<times> Multiaddr) list \<Rightarrow> Node \<Rightarrow> Node" where
  "handle_mdns_discovered discovered n =
     foldl (\<lambda>n (peer, addr). emit (PeerDiscoveredLocally peer) (call (KadAddAddress peer addr) n)) n discovered"

definition handle_kad_event :: "Network \<Rightarrow> KadEvent \<Rightarrow> Node \<Rightarrow> Node" where
  "handle_kad_event N event n =
     (let p = pending n in
      case event of
        OtherKadEvent \<Rightarrow> n
      | OutboundQueryProgressed rid result \<Rightarrow>
          let unresolve_peer = set_pending (\<lambda>p. p\<lparr>resolve_peer := (resolve_peer p)(rid := None)\<rparr>);
              unresolve_username = set_pending (\<lambda>p. p\<lparr>resolve_username := (resolve_username p)(rid := None)\<rparr>);
              unannounce = set_pending (\<lambda>p. p\<lparr>announce := announce p - {rid}\<rparr>);
              unannounce_username = set_pending (\<lambda>p. p\<lparr>announce_username := (announce_username p)(rid := None)\<rparr>) in
          (case result of
             FoundRecord bs \<Rightarrow>
               (case resolve_peer p rid of
                  Some peer \<Rightarrow> emit (PeerAddressesResolved peer (decode_addresses N bs)) (unresolve_peer n)
                | None \<Rightarrow>
                    (case resolve_username p rid of
                       Some name \<Rightarrow> emit (UsernameResolved name bs) (unresolve_username n)
                     | None \<Rightarrow> n))
           | GetRecordFailed \<Rightarrow>
               (case resolve_peer p rid of
                  Some peer \<Rightarrow> emit (PeerAddressResolutionFailed peer) (unresolve_peer n)
                | None \<Rightarrow>
                    (case resolve_username p rid of
                       Some name \<Rightarrow> emit (UsernameResolutionFailed name) (unresolve_username n)
                     | None \<Rightarrow> n))
           | PutRecordOk \<Rightarrow>
               (if rid \<in> announce p then emit AddressesAnnounced (unannounce n)
                else
                  (case announce_username p rid of
                     Some name \<Rightarrow> emit (UsernameAnnounced name) (unannounce_username n)
                   | None \<Rightarrow> n))
           | PutRecordFailed err \<Rightarrow>
               (if rid \<in> announce p then emit (AddressAnnouncementFailed err) (unannounce n)
                else
                  (case announce_username p rid of
                     Some name \<Rightarrow> emit (UsernameAnnouncementFailed name err) (unannounce_username n)
                   | None \<Rightarrow> n))
           | OtherQueryResult \<Rightarrow> n))"

definition handle_envelope_event :: "(bytes, bytes) RequestResponseEvent \<Rightarrow> Node \<Rightarrow> Node" where
  "handle_envelope_event event n =
     (let answered = (\<lambda>rid. set_pending (\<lambda>p. p\<lparr>envelope_send := (envelope_send p)(rid := None)\<rparr>)) in
      case event of
        Request peer request channel \<Rightarrow> call (EnvelopeResponse channel []) (emit (EnvelopeReceived peer request) n)
      | Response _ rid _ \<Rightarrow>
          (case envelope_send (pending n) rid of
             Some peer \<Rightarrow> emit (EnvelopeDelivered peer) (answered rid n)
           | None \<Rightarrow> n)
      | OutboundFailure _ rid err \<Rightarrow>
          (case envelope_send (pending n) rid of
             Some peer \<Rightarrow> emit (EnvelopeDeliveryFailed peer err) (answered rid n)
           | None \<Rightarrow> n)
      | OtherRequestResponseEvent \<Rightarrow> n)"

definition handle_blob_event :: "(bytes, BlobResponse) RequestResponseEvent \<Rightarrow> Node \<Rightarrow> Node" where
  "handle_blob_event event n =
     (let answered = (\<lambda>rid. set_pending (\<lambda>p. p\<lparr>blob_fetch := (blob_fetch p)(rid := None)\<rparr>)) in
      case event of
        Request _ rid channel \<Rightarrow>
          call (SendBlobResponse channel (case local_blobs n rid of Some bs \<Rightarrow> BlobFound bs | None \<Rightarrow> BlobNotFound)) n
      | Response _ request response \<Rightarrow>
          (case blob_fetch (pending n) request of
             Some (peer, rid) \<Rightarrow>
               (case response of
                  BlobFound bs \<Rightarrow> emit (BlobFetched peer rid bs) (answered request n)
                | BlobNotFound \<Rightarrow> emit (BlobFetchFailed peer rid ''peer does not have this blob'') (answered request n))
           | None \<Rightarrow> n)
      | OutboundFailure _ request err \<Rightarrow>
          (case blob_fetch (pending n) request of
             Some (peer, rid) \<Rightarrow> emit (BlobFetchFailed peer rid err) (answered request n)
           | None \<Rightarrow> n)
      | OtherRequestResponseEvent \<Rightarrow> n)"

subsection \<open>Mix packets\<close>

text \<open>What a node does with the payload of a packet whose last hop it is.\<close>

definition handle_final_payload :: "Network \<Rightarrow> World \<Rightarrow> bytes \<Rightarrow> Node \<Rightarrow> (LedgerError, Node) res" where
  "handle_final_payload N w payload n =
     (if is_dummy_payload payload then Ok n
      else
        (case parse_mailbox_deposit N payload of
           Some d \<Rightarrow>
             (if validate (prims N) d (clock w 0) = Ok ()
              then Ok (emit MailboxDepositStored (n\<lparr>mailbox_store := accept (prims N) d (mailbox_store n)\<rparr>))
              else Ok n)
         | None \<Rightarrow>
             (case parse_mailbox_query N payload of
                Some (tag, surb) \<Rightarrow>
                  (case for_tag tag (mailbox_store n) of
                     [] \<Rightarrow> Ok n
                   | oldest # _ \<Rightarrow>
                       (case use_surb N surb (frame_mailbox_reply (c_envelope oldest)) of
                          Ok (reply_packet, next_hop_address) \<Rightarrow>
                            (case map_of (known_mix_relays n) next_hop_address of
                               Some next_peer \<Rightarrow> Ok (call (MixRequest next_peer (own_message reply_packet n)) n)
                             | None \<Rightarrow> Ok n)
                        | Err _ \<Rightarrow> Ok n
                        | Panic \<Rightarrow> Panic
                        | Diverge \<Rightarrow> Diverge))
              | None \<Rightarrow>
                  (case parse_mailbox_reply payload of
                     Some envelope \<Rightarrow> Ok (emit (MailboxEnvelopeRetrieved envelope) n)
                   | None \<Rightarrow> Ok (emit (MixPacketArrived payload) n)))))"

lemma final_payload_returns:
  assumes "sphinx_returns N"
  shows "\<exists>n'. handle_final_payload N w payload n = Ok n'"
  by (auto simp: handle_final_payload_def Let_def packets_open [OF assms] split: option.split list.split res.split)

definition handle_mix_event :: "Network \<Rightarrow> World \<Rightarrow> (MixMessage, unit) RequestResponseEvent \<Rightarrow> Node \<Rightarrow> (LedgerError, Node) res" where
  "handle_mix_event N w event n =
     (case event of
        Request peer request channel \<Rightarrow>
          let n = call (MixAck channel) n;
              n = n\<lparr>known_mix_routing_keys := (known_mix_routing_keys n)(peer \<mapsto> sender_routing_public_key request)\<rparr> in
          if \<not> sphinx_wf N (packet_bytes request) then Ok (emit (MixForwardFailed ''malformed Sphinx packet'') n)
          else
            (case peel N (packet_bytes request) (mix_secret n) of
               Ok (Forward next_hop_packet next_hop_address delay) \<Rightarrow>
                 (case map_of (known_mix_relays n) next_hop_address of
                    Some next_peer \<Rightarrow> Ok (spawn_task (ForwardAfter delay next_peer (own_message next_hop_packet n)) n)
                  | None \<Rightarrow> Ok (emit (MixForwardFailed ''next hop is not a currently reachable peer'') n))
             | Ok (Final _ _ payload) \<Rightarrow> handle_final_payload N w payload n
             | Err err \<Rightarrow> Ok (emit (MixForwardFailed (p2p_error_text err)) n)
             | Panic \<Rightarrow> Panic
             | Diverge \<Rightarrow> Diverge)
      | Response _ _ _ \<Rightarrow> Ok n
      | OutboundFailure _ _ err \<Rightarrow> Ok (emit (MixForwardFailed err) n)
      | OtherRequestResponseEvent \<Rightarrow> Ok n)"

subsection \<open>Gossip\<close>

definition record_mix_relay_announcement ::
  "Network \<Rightarrow> PeerId option \<Rightarrow> bytes \<Rightarrow> RoutingKeys \<Rightarrow> RoutingKeys \<times> PeerId option" where
  "record_mix_relay_announcement N source data keys =
     (case source of
        None \<Rightarrow> (keys, None)
      | Some peer \<Rightarrow>
          (case dec_announcement N data of
             None \<Rightarrow> (keys, None)
           | Some key \<Rightarrow> (keys(peer \<mapsto> key), (case keys peer of Some _ \<Rightarrow> None | None \<Rightarrow> Some peer))))"

definition handle_ledger_gossip_event ::
  "Network \<Rightarrow> World \<Rightarrow> PeerId option \<Rightarrow> bytes \<Rightarrow> bytes \<Rightarrow> Node \<Rightarrow> (LedgerError, Node) res" where
  "handle_ledger_gossip_event N w source topic data n =
     (if topic = blocks_topic then
        (case dec_block N data of
           Some block \<Rightarrow> bind_res (apply_and_broadcast_block N w block n) (\<lambda>(n, outcome). Ok n)
         | None \<Rightarrow> Ok n)
      else if topic = txs_topic then
        (case dec_tx N data of
           Some transaction \<Rightarrow>
             (case verify_self_contained (prims N) transaction of
                Ok _ \<Rightarrow> restart_mining N w 0
                  (n\<lparr>mempool := AList.update (tx_id (prims N) transaction) transaction (mempool n)\<rparr>)
              | Err _ \<Rightarrow> Ok n
              | Panic \<Rightarrow> Panic
              | Diverge \<Rightarrow> Diverge)
         | None \<Rightarrow> Ok n)
      else if topic = mix_relay_directory_topic then
        (let (keys, discovered) = record_mix_relay_announcement N source data (known_mix_routing_keys n);
             n = n\<lparr>known_mix_routing_keys := keys\<rparr> in
         case discovered of
           Some peer \<Rightarrow> Ok (emit (MixRelayDiscovered peer) (call (SwarmDial peer []) n))
         | None \<Rightarrow> Ok n)
      else Ok n)"

subsection \<open>Chain sync\<close>

text \<open>The batch, or \<open>None\<close> at the first height without a block; \<open>saturating_add\<close> bounds the range.\<close>

fun blocks_from :: "ChainStore \<Rightarrow> nat \<Rightarrow> nat \<Rightarrow> Block list option" where
  "blocks_from s hgt 0 = Some []"
| "blocks_from s hgt (Suc k) =
     (case canonical_block_at (chain s) hgt of
        None \<Rightarrow> None
      | Some block \<Rightarrow> map_option (\<lambda>bs. block # bs) (blocks_from s (Suc hgt) k))"

definition build_chain_sync_response :: "ChainStore \<Rightarrow> ChainSyncRequest \<Rightarrow> (LedgerError, ChainSyncResponse) res" where
  "build_chain_sync_response s request =
     (case request of
        GetTip \<Rightarrow>
          bind_res (tip_height (chain s)) (\<lambda>h. bind_res (tip_cumulative_work s) (\<lambda>work.
            Ok (SyncTip h (tip_hash (chain s)) work)))
      | GetBlocks from_height wanted \<Rightarrow>
          let wanted = min wanted MAX_SYNC_BATCH;
              last_height = min (from_height + wanted) u64_max in
          (case blocks_from s from_height (last_height - from_height) of
             None \<Rightarrow> Ok NotAvailable
           | Some bs \<Rightarrow> Ok (SyncBlocks bs))
      | GetHeaders _ _ \<Rightarrow> Ok NotAvailable
      | GetUsernameOwnerSnapshot \<Rightarrow> bind_res (checkpoint_at_tip (chain s)) (\<lambda>cp. Ok (UsernameOwnerSnapshot cp)))"

text \<open>The loop over the blocks of a response; the second component is the error that ended it.\<close>

fun apply_synced :: "Network \<Rightarrow> World \<Rightarrow> nat \<Rightarrow> Block list \<Rightarrow> Node \<Rightarrow> (LedgerError, Node \<times> LedgerError option) res" where
  "apply_synced N w i [] n = Ok (n, None)"
| "apply_synced N w i (block # rest) n =
     (let n = n\<lparr>mempool := remove_mined N block (mempool n)\<rparr> in
      case store_try_apply (prims N) (db_ok w i) (chain_store n) block (clock w i) of
        (s, Ok _) \<Rightarrow> apply_synced N w (Suc i) rest (n\<lparr>chain_store := s\<rparr>)
      | (s, Err e) \<Rightarrow> Ok (n\<lparr>chain_store := s\<rparr>, Some e)
      | (s, Panic) \<Rightarrow> Panic
      | (s, Diverge) \<Rightarrow> Diverge)"

definition handle_chain_sync_response ::
  "Network \<Rightarrow> World \<Rightarrow> RequestId \<Rightarrow> ChainSyncResponse \<Rightarrow> Node \<Rightarrow> (LedgerError, Node) res" where
  "handle_chain_sync_response N w rid response n =
     (case chain_sync_tip (pending n) rid of
        Some peer \<Rightarrow>
          let n = set_pending (\<lambda>p. p\<lparr>chain_sync_tip := (chain_sync_tip p)(rid := None)\<rparr>) n in
          (case response of
             SyncTip hgt _ work \<Rightarrow>
               bind_res (tip_cumulative_work (chain_store n)) (\<lambda>own_work.
               bind_res (tip_height (chain (chain_store n))) (\<lambda>own_height.
                 if f64_le work own_work then Ok (emit (ChainSyncCompleted own_height) n)
                 else
                   let from_height = u64_add own_height 1;
                       wanted = min (u64_sub hgt own_height) MAX_SYNC_BATCH in
                   Ok (set_pending (\<lambda>p. p\<lparr>chain_sync_blocks := (chain_sync_blocks p)(request_id w \<mapsto> peer)\<rparr>)
                     (call (SyncRequest peer (GetBlocks from_height wanted)) n))))
           | _ \<Rightarrow> Ok (emit (ChainSyncFailed peer ''peer gave a malformed tip response'') n))
      | None \<Rightarrow>
          (case chain_sync_blocks (pending n) rid of
             None \<Rightarrow> Ok n
           | Some peer \<Rightarrow>
               let n = set_pending (\<lambda>p. p\<lparr>chain_sync_blocks := (chain_sync_blocks p)(rid := None)\<rparr>) n in
               (case response of
                  SyncBlocks bs \<Rightarrow>
                    let tip_before = tip_hash (chain (chain_store n)) in
                    bind_res (apply_synced N w 0 bs n) (\<lambda>(n, err).
                      case err of
                        Some e \<Rightarrow> Ok (emit (ChainSyncFailed peer (error_text N e)) n)
                      | None \<Rightarrow>
                          bind_res (emit_tip n) (\<lambda>n.
                          bind_res (tip_height (chain (chain_store n))) (\<lambda>h.
                            let n = emit (ChainSyncCompleted h) n in
                            if tip_hash (chain (chain_store n)) \<noteq> tip_before then restart_mining N w (length bs) n
                            else Ok n)))
                | _ \<Rightarrow> Ok (emit (ChainSyncFailed peer ''peer had no blocks available for this range'') n))))"

definition handle_ledger_sync_event ::
  "Network \<Rightarrow> World \<Rightarrow> (ChainSyncRequest, ChainSyncResponse) RequestResponseEvent \<Rightarrow> Node \<Rightarrow> (LedgerError, Node) res" where
  "handle_ledger_sync_event N w event n =
     (case event of
        Request _ request channel \<Rightarrow>
          bind_res (build_chain_sync_response (chain_store n) request) (\<lambda>response.
            Ok (call (SyncResponse channel response) n))
      | Response _ rid response \<Rightarrow> handle_chain_sync_response N w rid response n
      | OutboundFailure _ rid err \<Rightarrow>
          (case chain_sync_tip (pending n) rid of
             Some peer \<Rightarrow> Ok (emit (ChainSyncFailed peer err)
               (set_pending (\<lambda>p. p\<lparr>chain_sync_tip := (chain_sync_tip p)(rid := None)\<rparr>) n))
           | None \<Rightarrow>
               (case chain_sync_blocks (pending n) rid of
                  Some peer \<Rightarrow> Ok (emit (ChainSyncFailed peer err)
                    (set_pending (\<lambda>p. p\<lparr>chain_sync_blocks := (chain_sync_blocks p)(rid := None)\<rparr>) n))
                | None \<Rightarrow> Ok n))
      | OtherRequestResponseEvent \<Rightarrow> Ok n)"

subsection \<open>One event of the swarm\<close>

fun handle_swarm_event :: "Network \<Rightarrow> World \<Rightarrow> SwarmEvent \<Rightarrow> Node \<Rightarrow> (LedgerError, Node) res" where
  "handle_swarm_event N w (NewListenAddr addr) n = Ok (emit (ListeningOn addr) n)"
| "handle_swarm_event N w (ConnectionEstablished peer) n =
     Ok (emit (PeerConnected peer)
       (n\<lparr>known_mix_relays := AList.update (node_address_for N peer) peer (known_mix_relays n)\<rparr>))"
| "handle_swarm_event N w (ConnectionClosed peer) n =
     Ok (emit (PeerDisconnected peer)
       (n\<lparr>known_mix_relays := AList.delete (node_address_for N peer) (known_mix_relays n)\<rparr>))"
| "handle_swarm_event N w (OutgoingConnectionError peer err) n = Ok (emit (DialFailed peer err) n)"
| "handle_swarm_event N w (MdnsDiscovered discovered) n = Ok (handle_mdns_discovered discovered n)"
| "handle_swarm_event N w (MdnsExpired expired) n = Ok n"
| "handle_swarm_event N w (KadSwarmEvent event) n = Ok (handle_kad_event N event n)"
| "handle_swarm_event N w (IdentifyReceived peer listen_addrs) n =
     Ok (emit (PeerIdentified peer) (foldl (\<lambda>n addr. call (KadAddAddress peer addr) n) n listen_addrs))"
| "handle_swarm_event N w (EnvelopeEvent event) n = Ok (handle_envelope_event event n)"
| "handle_swarm_event N w (BlobEvent event) n = Ok (handle_blob_event event n)"
| "handle_swarm_event N w (MixEvent event) n = handle_mix_event N w event n"
| "handle_swarm_event N w (GossipMessage source topic data) n = handle_ledger_gossip_event N w source topic data n"
| "handle_swarm_event N w (LedgerSyncEvent event) n = handle_ledger_sync_event N w event n"
| "handle_swarm_event N w OtherSwarmEvent n = Ok n"

end
