(* ===== verification/Swarm_Assembly.thy ===== *)
theory Swarm_Assembly
  imports Node
begin

text \<open>
  What the node asks \<^verbatim>\<open>libp2p\<close> for before its loop starts: \<^verbatim>\<open>build\<close> of
  \<^verbatim>\<open>packages/p2p-core/src/behaviour.rs\<close> and \<^verbatim>\<open>build_swarm\<close> of \<^verbatim>\<open>node.rs\<close>. The result is the
  configuration that the swarm is given; which constructors of \<^verbatim>\<open>libp2p\<close> fail is an argument.
\<close>

subsection \<open>The configuration\<close>

definition ENVELOPE_PROTOCOL :: bytes where "ENVELOPE_PROTOCOL = ascii ''/spiritchat/envelope/1.0.0''"
definition IDENTIFY_PROTOCOL_VERSION :: bytes where "IDENTIFY_PROTOCOL_VERSION = ascii ''/spiritchat/1.0.0''"
definition BLOB_PROTOCOL :: bytes where "BLOB_PROTOCOL = ascii ''/spiritchat/blob/1.0.0''"
definition MIX_PROTOCOL :: bytes where "MIX_PROTOCOL = ascii ''/spiritchat/mix/1.0.0''"
definition CHAIN_SYNC_PROTOCOL :: bytes where "CHAIN_SYNC_PROTOCOL = ascii ''/spiritchat/chain-sync/1.0.0''"

datatype ProtocolSupport = Full | Inbound | Outbound
datatype KadMode = Server | Client
datatype Authenticity = Signed | Anonymous

text \<open>Relaying, hole punching and local discovery have no setting of the program's own, so they do not appear.
  A request-response behaviour has its protocols, and after how many seconds a request fails.\<close>

record RequestResponse =
  rr_protocols :: "(bytes \<times> ProtocolSupport) list"
  rr_timeout :: nat

record Behaviour =
  kad_query_timeout :: nat
  kad_mode :: KadMode
  identify_version :: bytes
  b_envelope :: RequestResponse
  b_blob :: RequestResponse
  b_mix :: RequestResponse
  gossip_authenticity :: Authenticity
  gossip_topics :: "bytes list"
  b_ledger_sync :: RequestResponse

text \<open>The errors of the fallible calls, as text.\<close>

record Libp2p_World =
  tcp_setup :: "string option"
  relay_setup :: "string option"
  gossip_setup :: "string option"
  subscribe_error :: "bytes \<Rightarrow> string option"
  mdns_setup :: "string option"

definition attempt :: "string option \<Rightarrow> (string, unit) res" where
  "attempt err = (case err of None \<Rightarrow> Ok () | Some e \<Rightarrow> Err e)"

definition subscribe :: "Libp2p_World \<Rightarrow> bytes \<Rightarrow> bytes list \<Rightarrow> (string, bytes list) res" where
  "subscribe w topic topics = bind_res (attempt (subscribe_error w topic)) (\<lambda>_. Ok (topics @ [topic]))"

definition request_response :: "bytes \<Rightarrow> nat \<Rightarrow> RequestResponse" where
  "request_response protocol timeout = \<lparr> rr_protocols = [(protocol, Full)], rr_timeout = timeout \<rparr>"

definition build :: "Libp2p_World \<Rightarrow> (string, Behaviour) res" where
  "build w =
     bind_res (attempt (gossip_setup w)) (\<lambda>_.
     bind_res (subscribe w blocks_topic []) (\<lambda>topics.
     bind_res (subscribe w txs_topic topics) (\<lambda>topics.
     bind_res (subscribe w mix_relay_directory_topic topics) (\<lambda>topics.
     bind_res (attempt (mdns_setup w)) (\<lambda>_.
       Ok \<lparr> kad_query_timeout = 25, kad_mode = Server, identify_version = IDENTIFY_PROTOCOL_VERSION,
         b_envelope = request_response ENVELOPE_PROTOCOL 30,
         b_blob = request_response BLOB_PROTOCOL 60,
         b_mix = request_response MIX_PROTOCOL 30,
         gossip_authenticity = Signed, gossip_topics = topics,
         b_ledger_sync = request_response CHAIN_SYNC_PROTOCOL 30 \<rparr>)))))"

definition build_swarm :: "Libp2p_World \<Rightarrow> (P2pError, Behaviour) res" where
  "build_swarm w =
     bind_res (map_err Setup (attempt (tcp_setup w))) (\<lambda>_.
     bind_res (map_err Setup (attempt (relay_setup w))) (\<lambda>_.
       map_err Setup (build w)))"

definition libp2p_works :: Libp2p_World where
  "libp2p_works = \<lparr> tcp_setup = None, relay_setup = None, gossip_setup = None, subscribe_error = (\<lambda>t. None), mdns_setup = None \<rparr>"

subsection \<open>What is asked for\<close>

lemma attempt_simps [simp]:
  "attempt err = Ok u \<longleftrightarrow> err = None" "attempt err = Err e \<longleftrightarrow> err = Some e" "attempt err \<noteq> Panic" "attempt err \<noteq> Diverge"
  by (simp_all add: attempt_def split: option.split)

lemma subscribe_simps [simp]:
  "subscribe w topic topics = Ok ts \<longleftrightarrow> subscribe_error w topic = None \<and> ts = topics @ [topic]"
  "subscribe w topic topics = Err e \<longleftrightarrow> subscribe_error w topic = Some e"
  "subscribe w topic topics \<noteq> Panic" "subscribe w topic topics \<noteq> Diverge"
  by (auto simp: subscribe_def attempt_def split: option.split)

lemma build_topics: "build w = Ok b \<Longrightarrow> gossip_topics b = [blocks_topic, txs_topic, mix_relay_directory_topic]"
  by (auto simp: build_def bind_res_Ok)

lemma build_swarm_Ok: "build_swarm w = Ok b \<longleftrightarrow> tcp_setup w = None \<and> relay_setup w = None \<and> build w = Ok b"
  by (cases "build w") (auto simp: build_swarm_def bind_res_Ok attempt_def split: option.splits)

lemma build_swarm_works: "\<exists>b. build_swarm libp2p_works = Ok b"
  by (simp add: build_swarm_def build_def libp2p_works_def attempt_def subscribe_def)

text \<open>A message on any other topic changes nothing.\<close>

lemma other_topic_ignored:
  "topic \<notin> {blocks_topic, txs_topic, mix_relay_directory_topic} \<Longrightarrow> handle_ledger_gossip_event N w source topic data n = Ok n"
  by (simp add: handle_ledger_gossip_event_def)

end
