(* ===== verification/Event_Loop.thy ===== *)
theory Event_Loop
  imports Swarm_Assembly
begin

text \<open>
  \<^verbatim>\<open>run_event_loop\<close> and \<^verbatim>\<open>P2pNode::spawn\<close> of \<^verbatim>\<open>packages/p2p-core/src/node.rs\<close>: which branch of the
  \<^verbatim>\<open>select!\<close> runs next is the input of a step, so a run is a sequence of inputs; the states the loop
  can be in are those reachable from a freshly spawned node.
\<close>

subsection \<open>Spawning\<close>

definition public_dht_bootstrap_texts :: "string list" where
  "public_dht_bootstrap_texts =
     [''/dnsaddr/bootstrap.libp2p.io/p2p/QmNnooDu7bfjPFoTZYxMNLWUQJyrVwtbZg5gBMjTezGAJN'',
      ''/dnsaddr/bootstrap.libp2p.io/p2p/QmQCU2EcMqAqQPR2i9bChDtGNJchTbq5TbXJJ16u19uLTa'',
      ''/dnsaddr/bootstrap.libp2p.io/p2p/QmbLHAnMoJPWSCR5Zhtx6BHJX9KiKNN6tpvbUcqanj75Nb'',
      ''/dnsaddr/bootstrap.libp2p.io/p2p/QmcZf59bWwK5XFi76CZX8cbJ4BhTzzA3gU1ZjYZcYW3dwt'']"

definition public_dht_bootstrap_addresses :: "Network \<Rightarrow> (P2pError, Multiaddr list) res" where
  "public_dht_bootstrap_addresses N = map_res (\<lambda>text. expect (addr_parse N (ascii text))) public_dht_bootstrap_texts"

fun peer_id_of :: "Multiaddr \<Rightarrow> PeerId option" where
  "peer_id_of [] = None"
| "peer_id_of (protocol # protocols) =
     (case protocol of P2p peer \<Rightarrow> Some peer | _ \<Rightarrow> peer_id_of protocols)"

text \<open>What the operating system and \<^verbatim>\<open>libp2p\<close> answer while the node is set up.\<close>

record Setup_World =
  libp2p_world :: Libp2p_World
  ledger_ok :: bool
  ledger_file :: Database
  mailbox_error :: "string option"
  mailbox_file :: MailboxStore
  tcp_error :: "string option"
  quic_error :: "string option"

definition TCP_ADDRESS :: Multiaddr where "TCP_ADDRESS = [OtherProtocol (ascii ''ip4/0.0.0.0''), OtherProtocol (ascii ''tcp/0'')]"
definition QUIC_ADDRESS :: Multiaddr where
  "QUIC_ADDRESS = [OtherProtocol (ascii ''ip4/0.0.0.0''), OtherProtocol (ascii ''udp/0''), OtherProtocol (ascii ''quic-v1'')]"

definition listen_or_error :: "string option \<Rightarrow> string \<Rightarrow> (P2pError, unit) res" where
  "listen_or_error err addr = (case err of None \<Rightarrow> Ok () | Some source \<Rightarrow> Err (Listen addr source))"

definition initial_node :: "PeerId \<Rightarrow> bytes \<Rightarrow> RoutingKey \<Rightarrow> ChainStore \<Rightarrow> MailboxStore \<Rightarrow> Node" where
  "initial_node peer secret public store mailbox =
     \<lparr> local_peer_id = peer, mix_secret = secret, mix_public = public, chain_store = store, mailbox_store = mailbox,
       pending = no_pending, local_blobs = Map.empty, known_mix_relays = [], known_mix_routing_keys = Map.empty,
       mix_dummy_traffic_active = False, mempool = [], mining = mining_new, dht_ready = False,
       deferred_commands = [], outputs = [Call (SwarmListen TCP_ADDRESS), Call (SwarmListen QUIC_ADDRESS)] \<rparr>"

definition join_dht :: "Multiaddr list \<Rightarrow> Node \<Rightarrow> Node" where
  "join_dht bootstrap_addresses n =
     (let n = foldl (\<lambda>n addr. case peer_id_of addr of Some peer \<Rightarrow> call (KadAddAddress peer addr) n | None \<Rightarrow> n)
        n bootstrap_addresses in
      if bootstrap_addresses \<noteq> [] then call KadBootstrap n else n)"

definition spawn_with_bootstrap ::
  "Network \<Rightarrow> Setup_World \<Rightarrow> bytes \<Rightarrow> Multiaddr list \<Rightarrow> (P2pError, Node) res" where
  "spawn_with_bootstrap N w identity_seed bootstrap_addresses =
     bind_res (keypair_from_seed N identity_seed) (\<lambda>keypair.
     bind_res (build_swarm (libp2p_world w)) (\<lambda>behaviour.
       let (secret, public) = routing_keypair_from_seed N identity_seed in
     bind_res (map_err (\<lambda>e. LedgerFailure (error_text N e)) (open_store (prims N) (ledger_ok w) (ledger_file w))) (\<lambda>store.
     bind_res (case mailbox_error w of None \<Rightarrow> Ok (mailbox_open (mailbox_file w)) | Some e \<Rightarrow> Err (MailboxFailure e)) (\<lambda>mailbox.
     bind_res (listen_or_error (tcp_error w) ''tcp/0'') (\<lambda>_.
     bind_res (listen_or_error (quic_error w) ''udp/0/quic-v1'') (\<lambda>_.
       Ok (join_dht bootstrap_addresses (initial_node (to_peer_id N (keypair_public N keypair)) secret public store mailbox))))))))"

definition spawn :: "Network \<Rightarrow> Setup_World \<Rightarrow> bytes \<Rightarrow> (P2pError, Node) res" where
  "spawn N w identity_seed =
     bind_res (public_dht_bootstrap_addresses N) (\<lambda>addresses. spawn_with_bootstrap N w identity_seed addresses)"

subsection \<open>The loop\<close>

datatype LoopInput =
    CommandReceived Command
  | SwarmInput SwarmEvent
  | ForwardReady PeerId MixMessage
  | DummyTrafficTick
  | DepositStamped MailboxDeposit
  | MiningResult nat Block

text \<open>The first world answers the event itself, the following ones the deferred commands it releases.\<close>

fun replay_commands :: "Network \<Rightarrow> (nat \<Rightarrow> World) \<Rightarrow> nat \<Rightarrow> Command list \<Rightarrow> Node \<Rightarrow> (LedgerError, Node) res" where
  "replay_commands N ws i [] n = Ok n"
| "replay_commands N ws i (command # commands) n =
     bind_res (handle_command N (ws i) command n) (\<lambda>n. replay_commands N ws (Suc i) commands n)"

fun is_connection :: "SwarmEvent \<Rightarrow> bool" where
  "is_connection (ConnectionEstablished peer) = True"
| "is_connection _ = False"

definition release_deferred :: "Network \<Rightarrow> (nat \<Rightarrow> World) \<Rightarrow> SwarmEvent \<Rightarrow> Node \<Rightarrow> (LedgerError, Node) res" where
  "release_deferred N ws event n =
     (if \<not> dht_ready n \<and> is_connection event
      then replay_commands N ws 1 (deferred_commands n) (n\<lparr>dht_ready := True, deferred_commands := []\<rparr>)
      else Ok n)"

definition handle_mining_result :: "Network \<Rightarrow> World \<Rightarrow> nat \<Rightarrow> Block \<Rightarrow> Node \<Rightarrow> (LedgerError, Node) res" where
  "handle_mining_result N w generation block n =
     (if map_option ms_generation (active (mining n)) = Some generation then
        let hgt = height (header block) in
        bind_res (apply_and_broadcast_block N w block n) (\<lambda>(n, outcome).
          case outcome of
            Some ExtendedTip \<Rightarrow> Ok (emit (NewBlockMined hgt) n)
          | Some (ReorgedTo _) \<Rightarrow> Ok (emit (NewBlockMined hgt) n)
          | _ \<Rightarrow> restart_mining N w 2 n)
      else Ok n)"

text \<open>The result says whether the loop goes on.\<close>

fun loop_step :: "Network \<Rightarrow> (nat \<Rightarrow> World) \<Rightarrow> LoopInput \<Rightarrow> Node \<Rightarrow> (LedgerError, Node \<times> bool) res" where
  "loop_step N ws (CommandReceived command) n =
     (if command = Shutdown then Ok (n, False)
      else if \<not> dht_ready n \<and> needs_dht_peer command
      then Ok (n\<lparr>deferred_commands := deferred_commands n @ [command]\<rparr>, True)
      else bind_res (handle_command N (ws 0) command n) (\<lambda>n. Ok (n, True)))"
| "loop_step N ws (SwarmInput event) n =
     bind_res (release_deferred N ws event n) (\<lambda>n.
     bind_res (handle_swarm_event N (ws 0) event n) (\<lambda>n. Ok (n, True)))"
| "loop_step N ws (ForwardReady next_peer msg) n = Ok (call (MixRequest next_peer msg) n, True)"
| "loop_step N ws DummyTrafficTick n =
     bind_res (if mix_dummy_traffic_active n then emit_dummy_mix_traffic N (ws 0) n else Ok n) (\<lambda>n. Ok (n, True))"
| "loop_step N ws (DepositStamped d) n = bind_res (send_mailbox_deposit N (ws 0) d n) (\<lambda>n. Ok (n, True))"
| "loop_step N ws (MiningResult generation block) n =
     bind_res (handle_mining_result N (ws 0) generation block n) (\<lambda>n. Ok (n, True))"

text \<open>A run of the loop until it stops or the inputs end; the second component tells which.\<close>

fun run_event_loop :: "Network \<Rightarrow> (LoopInput \<times> (nat \<Rightarrow> World)) list \<Rightarrow> Node \<Rightarrow> (LedgerError, Node \<times> bool) res" where
  "run_event_loop N [] n = Ok (n, True)"
| "run_event_loop N ((input, ws) # inputs) n =
     bind_res (loop_step N ws input n) (\<lambda>(n, continue).
       if continue then run_event_loop N inputs n else Ok (n, False))"

subsection \<open>Background tasks\<close>

text \<open>The thread behind \<open>DepositToMailbox\<close>: it stamps the deposit and hands it to the loop.\<close>

definition stamp_deposit :: "Network \<Rightarrow> nat \<Rightarrow> bytes \<Rightarrow> bytes \<Rightarrow> MailboxDeposit option" where
  "stamp_deposit N now shared_material envelope =
     (let tag = mailbox_tag (prims N) shared_material (epoch_for now) in
      map_option (\<lambda>stamp. \<lparr> d_tag = tag, d_envelope = envelope, deposited_at = now, pow_nonce = stamp \<rparr>)
        (mine_stamp (prims N) tag envelope now))"

end
