(* ===== verification/Node_View.thy ===== *)
theory Node_View
  imports Event_Loop
begin

text \<open>
  What the background handlers of \<^verbatim>\<open>packages/p2p-core/src/node.rs\<close> leave alone. A view of the node is
  any function of its state; a view that does not look at the mailbox, the routing keys, the lookups under
  way or the background outputs is unchanged by mix traffic, local discovery and the hash table.
\<close>

subsection \<open>Background outputs\<close>

text \<open>Everything but the requests for envelopes and blobs, the reports on them and gossip.\<close>

fun background :: "Output \<Rightarrow> bool" where
  "background (Call (EnvelopeRequest to bs)) = False"
| "background (Call (BlobRequest peer rid)) = False"
| "background (Call (GossipPublish topic data)) = False"
| "background (Event (EnvelopeDelivered to)) = False"
| "background (Event (EnvelopeDeliveryFailed to reason)) = False"
| "background (Event (BlobFetched peer rid bs)) = False"
| "background (Event (BlobFetchFailed peer rid reason)) = False"
| "background _ = True"

text \<open>What the handlers of mix traffic, local discovery and the hash table put out.\<close>

fun from_handler :: "Output \<Rightarrow> bool" where
  "from_handler (Event e) = background (Event e)"
| "from_handler (Call (KadAddAddress peer addr)) = True"
| "from_handler (Call KadBootstrap) = True"
| "from_handler (Call (MixRequest peer msg)) = True"
| "from_handler (Call (MixAck channel)) = True"
| "from_handler (Spawn (ForwardAfter delay peer msg)) = True"
| "from_handler _ = False"

lemma from_handler_background: "from_handler x \<Longrightarrow> background x"
  by (cases x rule: from_handler.cases) simp_all

locale handler_view =
  fixes view :: "Node \<Rightarrow> 'v"
  assumes handler_output: "from_handler x \<Longrightarrow> view (n\<lparr>outputs := outputs n @ [x]\<rparr>) = view n"
    and handler_mailbox [simp]: "view (n\<lparr>mailbox_store := ms\<rparr>) = view n"
    and handler_routing_keys [simp]: "view (n\<lparr>known_mix_routing_keys := ks\<rparr>) = view n"
    and handler_lookups [simp]: "envelope_send (f (pending n)) = envelope_send (pending n) \<Longrightarrow>
      blob_fetch (f (pending n)) = blob_fetch (pending n) \<Longrightarrow> view (set_pending f n) = view n"
begin

lemma handler_emits [simp]: "from_handler (Event e) \<Longrightarrow> view (emit e n) = view n"
  by (simp add: emit_def handler_output)

lemma handler_calls [simp]: "from_handler (Call c) \<Longrightarrow> view (call c n) = view n"
  by (simp add: call_def handler_output)

lemma handler_spawns [simp]: "from_handler (Spawn t) \<Longrightarrow> view (spawn_task t n) = view n"
  by (simp add: spawn_task_def handler_output)

lemma folds: "(\<And>n x. view (f n x) = view n) \<Longrightarrow> view (foldl f n xs) = view n"
  by (induction xs arbitrary: n) simp_all

lemma adds_addresses [simp]: "view (foldl (\<lambda>n addr. call (KadAddAddress peer addr) n) n addrs) = view n"
  by (rule folds) simp

lemma sends_deposit: "send_mailbox_deposit N w d n = Ok n' \<Longrightarrow> view n' = view n"
  by (auto simp: send_mailbox_deposit_def split: option.splits res.splits)

lemma sends_query: "send_mailbox_retrieval_query N w sm n = Ok n' \<Longrightarrow> view n' = view n"
  by (auto simp: send_mailbox_retrieval_query_def Let_def split: option.splits res.splits)

lemma sends_dummy: "emit_dummy_mix_traffic N w n = Ok n' \<Longrightarrow> view n' = view n"
  by (auto simp: emit_dummy_mix_traffic_def Let_def split: option.splits res.splits prod.splits)

lemma discovered [simp]: "view (handle_mdns_discovered ds n) = view n"
  by (simp add: handle_mdns_discovered_def folds split: prod.split)

lemma kad_handled [simp]: "view (handle_kad_event N ev n) = view n"
  by (simp add: handle_kad_event_def Let_def split: KadEvent.split KadResult.split option.split)

lemma payload_handled: "handle_final_payload N w p n = Ok n' \<Longrightarrow> view n' = view n"
  by (auto simp: handle_final_payload_def Let_def split: option.splits list.splits res.splits prod.splits if_splits)

lemma mix_handled: "handle_mix_event N w ev n = Ok n' \<Longrightarrow> view n' = view n"
  by (auto simp: handle_mix_event_def Let_def split: RequestResponseEvent.splits option.splits res.splits PeelOutcome.splits if_splits
      dest!: payload_handled)

lemma joined [simp]: "view (join_dht addrs n) = view n"
proof -
  have "view (foldl (\<lambda>n addr. case peer_id_of addr of Some peer \<Rightarrow> call (KadAddAddress peer addr) n | None \<Rightarrow> n) n addrs) = view n"
    by (rule folds) (simp split: option.split)
  then show ?thesis by (simp add: join_dht_def Let_def)
qed

lemma tip_emitted: "emit_tip n = Ok n' \<Longrightarrow> view n' = view n"
  by (auto simp: emit_tip_def bind_res_Ok)

end

text \<open>A view that no background output changes.\<close>

locale node_view =
  fixes view :: "Node \<Rightarrow> 'v"
  assumes quiet: "background x \<Longrightarrow> view (n\<lparr>outputs := outputs n @ [x]\<rparr>) = view n"
    and mailbox [simp]: "view (n\<lparr>mailbox_store := ms\<rparr>) = view n"
    and routing_keys [simp]: "view (n\<lparr>known_mix_routing_keys := ks\<rparr>) = view n"
    and lookups [simp]: "envelope_send (f (pending n)) = envelope_send (pending n) \<Longrightarrow>
      blob_fetch (f (pending n)) = blob_fetch (pending n) \<Longrightarrow> view (set_pending f n) = view n"
begin

lemma emits [simp]: "background (Event e) \<Longrightarrow> view (emit e n) = view n"
  by (simp add: emit_def quiet)

lemma calls [simp]: "background (Call c) \<Longrightarrow> view (call c n) = view n"
  by (simp add: call_def quiet)

lemma spawns [simp]: "view (spawn_task t n) = view n"
  by (simp add: spawn_task_def quiet)

lemma dht_command: "needs_dht_peer command \<Longrightarrow> handle_command N w command n = Ok n' \<Longrightarrow> view n' = view n"
  by (cases command) (auto simp: Let_def split: if_splits)

lemma replayed:
  "\<forall>c \<in> set cmds. needs_dht_peer c \<Longrightarrow> replay_commands N ws i cmds n = Ok n' \<Longrightarrow> view n' = view n"
proof (induction cmds arbitrary: i n)
  case (Cons c cmds)
  then obtain n1 where "handle_command N (ws i) c n = Ok n1" "replay_commands N ws (Suc i) cmds n1 = Ok n'"
    by (auto simp: bind_res_Ok)
  then show ?case using Cons.IH [of "Suc i" n1] Cons.prems(1) dht_command by force
qed simp

end

sublocale node_view < handler_view view
  by unfold_locales (simp_all add: quiet from_handler_background)

text \<open>A spawned node is the initial state over the opened store, which has joined the hash table.\<close>

lemma spawned_initial:
  assumes "spawn_with_bootstrap N w seed addrs = Ok n"
  obtains peer secret public store mailbox where "open_store (prims N) (ledger_ok w) (ledger_file w) = Ok store"
    and "n = join_dht addrs (initial_node peer secret public store mailbox)"
  using assms by (auto simp: spawn_with_bootstrap_def bind_res_Ok case_prod_beta)

text \<open>A result of the active search is applied, any other dropped.\<close>

lemma handle_mining_result_Ok:
  assumes "handle_mining_result N w g b n = Ok n'"
  obtains (dropped) "map_option ms_generation (active (mining n)) \<noteq> Some g" "n' = n"
  | (applied) n1 outcome where "apply_and_broadcast_block N w b n = Ok (n1, outcome)"
      "n' = emit (NewBlockMined (height (header b))) n1 \<or> restart_mining N w 2 n1 = Ok n'"
proof (cases "map_option ms_generation (active (mining n)) = Some g")
  case True
  show ?thesis
  proof (cases "apply_and_broadcast_block N w b n")
    case (Ok p)
    obtain n1 outcome where p: "p = (n1, outcome)" by (cases p)
    have "n' = emit (NewBlockMined (height (header b))) n1 \<or> restart_mining N w 2 n1 = Ok n'"
      using assms unfolding handle_mining_result_def if_P [OF True] Let_def Ok p
      by (cases outcome) (auto split: ApplyOutcome.splits)
    then show ?thesis by (rule applied [OF Ok [unfolded p]])
  qed (use assms True in \<open>simp_all add: handle_mining_result_def\<close>)
next
  case False
  have "n' = n" using assms unfolding handle_mining_result_def if_not_P [OF False] by simp
  then show ?thesis by (rule dropped [OF False])
qed

end
