(* ===== verification/Loop_Invariant.thy ===== *)
theory Loop_Invariant
  imports Node_View
begin

text \<open>
  The invariant of the event loop and what follows from it: no input makes a handler panic or loop, the
  relay table lists the right peers, at most one search for a nonce is wanted, and commands are
  deferred only before the first connection.
\<close>

subsection \<open>What a handler leaves alone\<close>

text \<open>The part of the state that the invariant speaks about.\<close>

definition core :: "Node \<Rightarrow> Relays \<times> Mining \<times> ChainStore \<times> bool \<times> Command list" where
  "core n = (known_mix_relays n, mining n, chain_store n, dht_ready n, deferred_commands n)"

lemma core_simps [simp]:
  "core (emit e n) = core n" "core (call c n) = core n" "core (spawn_task t n) = core n"
  "core (set_pending f n) = core n" "core (publish topic enc n) = core n"
  "core (n\<lparr>local_blobs := lb\<rparr>) = core n" "core (n\<lparr>mempool := mp\<rparr>) = core n"
  "core (n\<lparr>mix_dummy_traffic_active := b\<rparr>) = core n" "core (n\<lparr>known_mix_routing_keys := ks\<rparr>) = core n"
  "core (n\<lparr>mailbox_store := ms\<rparr>) = core n"
  by (simp_all add: core_def emit_def call_def spawn_task_def set_pending_def publish_def split: option.split)

interpretation core_view: node_view core
  by unfold_locales (simp_all add: core_def set_pending_def)

lemma core_handle_envelope_event [simp]: "core (handle_envelope_event ev n) = core n"
  by (simp add: handle_envelope_event_def Let_def split: RequestResponseEvent.split option.split)

lemma core_handle_blob_event [simp]: "core (handle_blob_event ev n) = core n"
  by (simp add: handle_blob_event_def Let_def split: RequestResponseEvent.split option.split BlobResponse.split prod.split)

lemma mix_sends:
  assumes "sphinx_returns N"
  shows "\<exists>n'. send_mailbox_deposit N w d n = Ok n' \<and> core n' = core n"
    and "\<exists>n'. send_mailbox_retrieval_query N w sm n = Ok n' \<and> core n' = core n"
    and "\<exists>n'. emit_dummy_mix_traffic N w n = Ok n' \<and> core n' = core n"
  by (auto simp: send_mailbox_deposit_def send_mailbox_retrieval_query_def emit_dummy_mix_traffic_def Let_def
      packets_return [OF assms] hops_of_def split: option.split res.split)

lemma mix_event_returns:
  assumes "sphinx_returns N"
  shows "\<exists>n'. handle_mix_event N w ev n = Ok n' \<and> core n' = core n"
proof -
  have "\<exists>n'. handle_mix_event N w ev n = Ok n'"
    by (auto simp: handle_mix_event_def Let_def packets_open [OF assms] final_payload_returns [OF assms]
        split: RequestResponseEvent.split option.split res.split PeelOutcome.split)
  then show ?thesis using core_view.mix_handled by blast
qed

subsection \<open>The chain store never panics\<close>

lemma store_try_apply_safe:
  assumes inv: "chain_inv P (chain s)" and heights: "heights_le k (chain s)" "k < 2 ^ 64 - 1" and nz: "block_hash P b \<noteq> ZERO"
  shows "returns (snd (store_try_apply P io s b now)) \<and> chain_inv P (chain (fst (store_try_apply P io s b now))) \<and>
    heights_le (Suc k) (chain (fst (store_try_apply P io s b now)))"
proof -
  let ?c' = "fst (try_apply P (chain s) b now)"
  note step = try_apply_step [OF inv heights nz, of now]
  obtain c' r where res: "try_apply P (chain s) b now = (c', r)" by (cases "try_apply P (chain s) b now")
  have c': "chain_inv P c'" "returns r" using step by (simp_all add: res)
  have "returns (snd (store_try_apply P io s b now))"
  proof (cases r)
    case (Ok x)
    have "returns (snd (persist_after_apply P io (s\<lparr>chain := c'\<rparr>) b))" if "x \<noteq> AlreadyKnown"
    proof -
      have "meta c' (block_hash P b) \<noteq> None"
      proof -
        from inv heights_le_ok [OF heights] nz show ?thesis
        proof (cases rule: try_apply_cases [where now = now])
          case valid
          from inv heights_le_ok [OF heights] nz valid show ?thesis
            by (cases rule: try_apply_valid) (use res meta_insert_block in fastforce)+
        qed (use res Ok that in auto)
      qed
      moreover obtain p m where "ancestors c' (tip_hash c') = Ok p" "meta c' (tip_hash c') = Some m"
        using c'(1) by (auto simp: chain_inv_def tip_ok_def heaviest_def)
      ultimately show ?thesis
        by (auto simp: persist_after_apply_def Let_def get_meta_def tip_height_def)
    qed
    then show ?thesis
      by (cases "persist_after_apply P io (s\<lparr>chain := c'\<rparr>) b"; cases "snd (persist_after_apply P io (s\<lparr>chain := c'\<rparr>) b)")
        (auto simp: store_try_apply_def res Ok Let_def split: res.splits)
  qed (use c' res in \<open>simp_all add: store_try_apply_def\<close>)
  then show ?thesis using step by (simp add: chain_store_try_apply)
qed

lemma tip_height_Ok: "chain_inv P c \<Longrightarrow> \<exists>h. tip_height c = Ok h"
  by (auto simp: chain_inv_def heaviest_def tip_height_def)

lemma or_else_return_total:
  "returns r \<Longrightarrow> (\<And>x. r = Ok x \<Longrightarrow> \<exists>v. f x = Ok v) \<Longrightarrow> \<exists>v. or_else_return r d f = Ok v"
  by (cases r) auto

lemma is_valid_candidate_transaction_total:
  assumes "chain_inv P (chain s)"
  shows "\<exists>v. is_valid_candidate_transaction P s tx hgt = Ok v"
proof -
  have "returns (ancestors (chain s) h)" "returns (state_at (chain s) h)" for h
    using assms by (auto simp: chain_inv_def intro: returns_ancestors returns_state_at)
  then show ?thesis
    unfolding is_valid_candidate_transaction_def is_valid_for_mempool_def
    by (intro or_else_return_total returns_verify_self_contained)
      (auto split: option.split intro!: or_else_return_total)
qed

lemma returns_select_transactions:
  assumes "chain_inv P (chain s)"
  shows "\<exists>sel. select_transactions P s hgt txs selected used = Ok sel"
proof (induction txs arbitrary: selected used)
  case (Cons tx txs)
  then show ?case using is_valid_candidate_transaction_total [OF assms, of tx hgt] by auto
qed simp

lemma mining_candidate_safe:
  assumes "chain_inv P (chain s)" and "heights_ok (chain s)"
  shows "\<exists>c. mining_candidate P s pool pk now = Ok c"
proof -
  have exp: "returns (store_expected_difficulty s)" and mtp: "returns (store_median_time_past s)"
    using assms unfolding store_expected_difficulty_def store_median_time_past_def
    by (auto simp: chain_inv_def intro: returns_expected_difficulty returns_median_time_past)
  obtain tip where tip: "tip_height (chain s) = Ok tip" using tip_height_Ok [OF assms(1)] by blast
  obtain sel where "select_transactions P s (u64_add tip 1) (sort_key (tx_id P) (map snd pool)) [] {} = Ok sel"
    using returns_select_transactions [OF assms(1)] by blast
  then show ?thesis using exp mtp
    by (cases "store_expected_difficulty s"; cases "store_median_time_past s") (simp_all add: mining_candidate_def Let_def tip)
qed

lemma mining_start_safe:
  assumes "chain_inv P (chain s)" and "heights_ok (chain s)"
  shows "\<exists>m'. mining_start P s pool pk now m = Ok m'"
  using mining_candidate_safe [OF assms, of pool pk now]
  by (fastforce simp: mining_start_def spawn_mining_attempt_def Let_def split: option.split prod.split)

lemma restart_if_active_safe:
  assumes "chain_inv P (chain s)" and "heights_ok (chain s)"
  shows "\<exists>m'. restart_if_active P s pool now m = Ok m'"
  using mining_start_safe [OF assms] by (simp add: restart_if_active_def split: option.split)

subsection \<open>The invariant\<close>

definition node_ok :: "Network \<Rightarrow> nat \<Rightarrow> Node \<Rightarrow> bool" where
  "node_ok N k n \<longleftrightarrow> relays_ok N (known_mix_relays n) \<and> mining_ok (mining n) \<and> next_generation (mining n) \<le> k \<and>
     chain_inv (prims N) (chain (chain_store n)) \<and> heights_le k (chain (chain_store n)) \<and>
     (dht_ready n \<longrightarrow> deferred_commands n = []) \<and> (\<forall>c \<in> set (deferred_commands n). needs_dht_peer c)"

lemma node_ok_core: "core n = core n' \<Longrightarrow> node_ok N k n \<longleftrightarrow> node_ok N k n'"
  by (simp add: core_def node_ok_def)

lemma node_ok_mono: "node_ok N k n \<Longrightarrow> k \<le> k' \<Longrightarrow> node_ok N k' n"
  by (auto simp: node_ok_def heights_le_def intro: le_trans)

lemma node_ok_heights: "node_ok N k n \<Longrightarrow> k < 2 ^ 64 - 1 \<Longrightarrow> heights_ok (chain (chain_store n))"
  by (rule heights_le_ok) (simp_all add: node_ok_def)

lemma node_ok_mining:
  "node_ok N k n \<Longrightarrow> mining_ok m \<Longrightarrow> next_generation m \<le> Suc k \<Longrightarrow> node_ok N (Suc k) (n\<lparr>mining := m\<rparr>)"
  using node_ok_mono [of N k n "Suc k"] by (simp add: node_ok_def)

lemma restart_mining_safe:
  assumes "node_ok N k n" and "k < 2 ^ 64 - 2"
  shows "\<exists>n'. restart_mining N w i n = Ok n' \<and> node_ok N (Suc k) n'"
proof -
  have m: "mining_ok (mining n)" "next_generation (mining n) \<le> k" "chain_inv (prims N) (chain (chain_store n))"
    using assms(1) by (simp_all add: node_ok_def)
  obtain m' where m': "restart_if_active (prims N) (chain_store n) (mempool n) (clock w i) (mining n) = Ok m'"
    using restart_if_active_safe [OF m(3) node_ok_heights [OF assms(1)]] assms(2) by fastforce
  have "mining_ok m' \<and> next_generation m' \<le> Suc k" using mining_ok_restart [OF m(1) _ m'] m(2) assms(2) by simp
  then show ?thesis using m' node_ok_mining [OF assms(1)] by (simp add: restart_mining_def)
qed

lemma emit_tip_safe:
  assumes "node_ok N k n"
  shows "\<exists>n'. emit_tip n = Ok n' \<and> core n' = core n"
  using tip_height_Ok [of "prims N" "chain (chain_store n)"] assms by (auto simp: node_ok_def emit_tip_def)

lemma node_ok_store:
  assumes "node_ok N k n" and "k < 2 ^ 64 - 1" and "block_hash (prims N) b \<noteq> ZERO"
    and "store_try_apply (prims N) io (chain_store n) b now = (s, r)"
  shows "returns r \<and> node_ok N (Suc k) (n\<lparr>chain_store := s\<rparr>)"
  using store_try_apply_safe [of "prims N" "chain_store n" k b io now] assms node_ok_mono [OF assms(1), of "Suc k"]
  by (simp add: node_ok_def)

lemma apply_and_broadcast_block_safe:
  assumes "node_ok N k n" and "k < 2 ^ 64 - 3" and "block_hash (prims N) b \<noteq> ZERO"
  shows "\<exists>n' outcome. apply_and_broadcast_block N w b n = Ok (n', outcome) \<and>
    (node_ok N (k + 2) n' \<and> (outcome = None \<or> outcome = Some AlreadyKnown \<or> outcome = Some AddedToFork \<longrightarrow> node_ok N (Suc k) n'))"
proof -
  obtain s r where sr: "store_try_apply (prims N) (db_ok w 0) (chain_store n) b (clock w 0) = (s, r)" by fastforce
  have ok: "returns r" "node_ok N (Suc k) (n\<lparr>chain_store := s\<rparr>)" using node_ok_store [OF assms(1) _ assms(3) sr] assms(2) by auto
  have ok2: "node_ok N (k + 2) (n\<lparr>chain_store := s\<rparr>)" by (rule node_ok_mono [OF ok(2)]) simp
  show ?thesis
  proof (cases r)
    case (Ok outcome)
    define m where "m = publish blocks_topic (enc_block N b) (n\<lparr>chain_store := s, mempool := remove_mined N b (mempool n)\<rparr>)"
    have "core m = core (n\<lparr>chain_store := s\<rparr>)" by (simp add: m_def)
    then have m: "node_ok N (Suc k) m" using ok(2) node_ok_core by blast
    obtain m1 where m1: "emit_tip m = Ok m1" "core m1 = core m" using emit_tip_safe [OF m] by blast
    have "node_ok N (Suc k) m1" using m m1(2) node_ok_core by blast
    then obtain m2 where "restart_mining N w 1 m1 = Ok m2" "node_ok N (Suc (Suc k)) m2"
      using restart_mining_safe [of N "Suc k" m1] assms(2) by fastforce
    then show ?thesis using ok ok2 m m1(1) node_ok_mono [OF m, of "k + 2"]
      by (cases outcome) (simp_all add: apply_and_broadcast_block_def sr Ok Let_def flip: m_def)
  next
    case (Err e)
    then show ?thesis using ok(2) ok2 node_ok_core [of "emit (LedgerSubmissionRejected (error_text N e)) (n\<lparr>chain_store := s\<rparr>)" "n\<lparr>chain_store := s\<rparr>"]
      by (simp add: apply_and_broadcast_block_def sr)
  qed (use ok in simp_all)
qed

subsection \<open>Every input is handled\<close>

text \<open>The blocks an input brings to the store.\<close>

fun input_blocks :: "Network \<Rightarrow> LoopInput \<Rightarrow> Block list" where
  "input_blocks N (CommandReceived (SubmitMinedBlock b)) = [b]"
| "input_blocks N (MiningResult generation b) = [b]"
| "input_blocks N (SwarmInput (GossipMessage source topic data)) = (case dec_block N data of Some b \<Rightarrow> [b] | None \<Rightarrow> [])"
| "input_blocks N (SwarmInput (LedgerSyncEvent (Response peer rid (SyncBlocks bs)))) = bs"
| "input_blocks N _ = []"

definition input_weight :: "Network \<Rightarrow> LoopInput \<Rightarrow> nat" where
  "input_weight N input = length (input_blocks N input) + 2"

definition input_admissible :: "Network \<Rightarrow> LoopInput \<Rightarrow> bool" where
  "input_admissible N input \<longleftrightarrow> (\<forall>b \<in> set (input_blocks N input). block_hash (prims N) b \<noteq> ZERO)"

lemma handle_dht_command:
  "needs_dht_peer command \<Longrightarrow> \<exists>n'. handle_command N w command n = Ok n' \<and> core n' = core n"
  by (cases command) (simp_all add: Let_def)

lemma handle_command_safe:
  assumes "node_ok N k n" and "k < 2 ^ 64 - 3" and "input_admissible N (CommandReceived command)"
    and "sphinx_returns N"
  shows "\<exists>n'. handle_command N w command n = Ok n' \<and> node_ok N (k + 2) n'"
proof -
  have up: "node_ok N (k + 2) n'" if "core n' = core n" for n'
    using node_ok_mono [OF assms(1), of "k + 2"] node_ok_core [OF that] by simp
  show ?thesis
  proof (cases command)
    case (SubmitMinedBlock b)
    then obtain n' out where "apply_and_broadcast_block N w b n = Ok (n', out)" "node_ok N (k + 2) n'"
      using apply_and_broadcast_block_safe [OF assms(1,2), of b w] assms(3) by (auto simp: input_admissible_def)
    then show ?thesis by (simp add: SubmitMinedBlock)
  next
    case (StartMining pk)
    have m: "mining_ok (mining n)" "next_generation (mining n) \<le> k" "chain_inv (prims N) (chain (chain_store n))"
      using assms(1) by (simp_all add: node_ok_def)
    obtain m' where m': "mining_start (prims N) (chain_store n) (mempool n) pk (clock w 0) (mining n) = Ok m'"
      using mining_start_safe [OF m(3) node_ok_heights [OF assms(1)]] assms(2) by fastforce
    then have "mining_ok m' \<and> next_generation m' \<le> Suc k" using mining_ok_start [OF m(1) _ m'] m(2) assms(2) by simp
    then show ?thesis using m' node_ok_mining [OF assms(1)] node_ok_mono [of N "Suc k" "n\<lparr>mining := m'\<rparr>" "k + 2"]
      by (simp add: StartMining)
  next
    case StopMining
    have "mining_ok (mining_stop (mining n)) \<and> next_generation (mining_stop (mining n)) \<le> Suc k"
      using mining_ok_stop [of "mining n"] assms(1) by (simp add: node_ok_def)
    then show ?thesis using node_ok_mining [OF assms(1)] node_ok_mono [of N "Suc k" "n\<lparr>mining := mining_stop (mining n)\<rparr>" "k + 2"]
      by (simp add: StopMining)
  next
    case QueryChainTip
    then show ?thesis using emit_tip_safe [OF assms(1)] up by auto
  next
    case (SubmitUsernameClaim tx)
    have "verify_self_contained (prims N) tx \<noteq> Panic \<and> verify_self_contained (prims N) tx \<noteq> Diverge"
      using returns_verify_self_contained [of "prims N" tx] by (auto simp del: returns_verify_self_contained)
    then show ?thesis using up by (auto simp: SubmitUsernameClaim Let_def split: res.split)
  next
    case (RetrieveFromMailbox sm)
    then show ?thesis using mix_sends(2) [OF assms(4), of w sm n] up by (auto simp: RetrieveFromMailbox)
  next
    case (DialPeer peer addrs)
    then show ?thesis using up by (simp add: DialPeer Let_def split: option.split)
  qed (use up in \<open>simp_all add: Let_def split: option.split\<close>)
qed

lemma replay_commands_safe:
  assumes "node_ok N k n" and "\<forall>c \<in> set cmds. needs_dht_peer c"
  shows "\<exists>n'. replay_commands N ws i cmds n = Ok n' \<and> core n' = core n"
  using assms
proof (induction cmds arbitrary: i n)
  case (Cons c cmds)
  obtain n1 where n1: "handle_command N (ws i) c n = Ok n1" "core n1 = core n" using handle_dht_command [of c N] Cons.prems by fastforce
  then have "node_ok N k n1" using Cons.prems(1) node_ok_core by blast
  then show ?case using Cons.IH [of n1 "Suc i"] Cons.prems n1 by auto
qed simp

lemma release_deferred_safe:
  assumes "node_ok N k n"
  shows "\<exists>n'. release_deferred N ws ev n = Ok n' \<and> node_ok N k n'"
proof (cases "\<not> dht_ready n \<and> is_connection ev")
  case True
  let ?n = "n\<lparr>dht_ready := True, deferred_commands := []\<rparr>"
  have ok: "node_ok N k ?n" using assms by (simp add: node_ok_def)
  have "\<forall>c \<in> set (deferred_commands n). needs_dht_peer c" using assms by (simp add: node_ok_def)
  from replay_commands_safe [OF ok this, of ws 1] obtain n' where
    "replay_commands N ws 1 (deferred_commands n) ?n = Ok n'" "core n' = core ?n" by blast
  then show ?thesis using True ok node_ok_core [of n' ?n] by (simp add: release_deferred_def)
qed (use assms in \<open>auto simp: release_deferred_def\<close>)

lemma apply_synced_safe:
  assumes "node_ok N k n" and "k + length bs < 2 ^ 64 - 1" and "\<forall>b \<in> set bs. block_hash (prims N) b \<noteq> ZERO"
  shows "\<exists>n' e. apply_synced N w i bs n = Ok (n', e) \<and> node_ok N (k + length bs) n'"
  using assms
proof (induction bs arbitrary: k n i)
  case (Cons b bs)
  let ?n = "n\<lparr>mempool := remove_mined N b (mempool n)\<rparr>"
  have n: "node_ok N k ?n" using Cons.prems(1) node_ok_core [of ?n n] by simp
  obtain s r where sr: "store_try_apply (prims N) (db_ok w i) (chain_store ?n) b (clock w i) = (s, r)" by fastforce
  have ok: "returns r" "node_ok N (Suc k) (?n\<lparr>chain_store := s\<rparr>)"
    using node_ok_store [OF n _ _ sr] Cons.prems by auto
  show ?case
  proof (cases r)
    case (Ok x)
    then show ?thesis using Cons.IH [OF ok(2), of "Suc i"] Cons.prems sr by (auto simp: Let_def)
  next
    case (Err e)
    then show ?thesis using node_ok_mono [OF ok(2), of "k + length (b # bs)"] sr by (simp add: Let_def)
  qed (use ok in simp_all)
qed simp

lemma handle_sync_safe:
  assumes "node_ok N k n" and "k + length (input_blocks N (SwarmInput (LedgerSyncEvent ev))) < 2 ^ 64 - 3"
    and "input_admissible N (SwarmInput (LedgerSyncEvent ev))"
  shows "\<exists>n'. handle_ledger_sync_event N w ev n = Ok n' \<and>
    node_ok N (k + input_weight N (SwarmInput (LedgerSyncEvent ev))) n'"
proof -
  define kk where "kk = k + input_weight N (SwarmInput (LedgerSyncEvent ev))"
  have up: "node_ok N kk n'" if "core n' = core n" for n'
    using node_ok_mono [OF assms(1), of kk] node_ok_core [OF that] by (simp add: kk_def)
  have inv: "chain_inv (prims N) (chain (chain_store n))" using assms(1) by (simp add: node_ok_def)
  obtain h where h: "tip_height (chain (chain_store n)) = Ok h" using tip_height_Ok [OF inv] by blast
  then obtain m where m: "get_meta (chain (chain_store n)) (tip_hash (chain (chain_store n))) = Some m"
    by (auto simp: tip_height_def bind_res_Ok get_meta_def)
  have "\<exists>n'. handle_ledger_sync_event N w ev n = Ok n' \<and> node_ok N kk n'"
  proof (cases ev)
    case (Request peer req channel)
    have "\<exists>r. build_chain_sync_response (chain_store n) req = Ok r"
      using h m by (cases req) (auto simp: build_chain_sync_response_def tip_cumulative_work_def checkpoint_at_tip_def
          tip_height_def get_meta_def Let_def split: option.split)
    then show ?thesis using up by (auto simp: handle_ledger_sync_event_def Request)
  next
    case (OutboundFailure peer rid err)
    then show ?thesis using up by (simp add: handle_ledger_sync_event_def split: option.split)
  next
    case OtherRequestResponseEvent
    then show ?thesis using up by (simp add: handle_ledger_sync_event_def)
  next
    case (Response peer rid response)
    show ?thesis
    proof (cases "chain_sync_tip (pending n) rid")
      case (Some asked)
      have own: "chain_store (set_pending f n) = chain_store n" for f by (simp add: set_pending_def)
      show ?thesis using up h m
        by (simp add: Response handle_ledger_sync_event_def handle_chain_sync_response_def Some Let_def own
            tip_cumulative_work_def split: ChainSyncResponse.split)
    next
      case None
      note no_tip = None
      show ?thesis
      proof (cases "\<exists>asked bs. chain_sync_blocks (pending n) rid = Some asked \<and> response = SyncBlocks bs")
        case False
        then show ?thesis using up no_tip
          by (auto simp: Response handle_ledger_sync_event_def handle_chain_sync_response_def Let_def
              split: option.split ChainSyncResponse.split)
      next
        case True
        then obtain asked bs where bs: "chain_sync_blocks (pending n) rid = Some asked" "response = SyncBlocks bs" by blast
        let ?n = "set_pending (\<lambda>p. p\<lparr>chain_sync_blocks := (chain_sync_blocks p)(rid := None)\<rparr>) n"
        have "node_ok N k ?n" using assms(1) node_ok_core [of ?n n] by simp
        moreover have "k + length bs < 2 ^ 64 - 1" "\<forall>b \<in> set bs. block_hash (prims N) b \<noteq> ZERO"
          using assms(2,3) by (simp_all add: Response bs input_admissible_def)
        ultimately obtain n1 e where n1: "apply_synced N w 0 bs ?n = Ok (n1, e)" "node_ok N (k + length bs) n1"
          using apply_synced_safe by blast
        have k1: "kk = Suc (Suc (k + length bs))" by (simp add: kk_def Response bs input_weight_def)
        show ?thesis
        proof (cases e)
          case (Some err)
          have "node_ok N kk (emit (ChainSyncFailed asked (error_text N err)) n1)"
            using node_ok_mono [OF n1(2), of kk] node_ok_core [of "emit (ChainSyncFailed asked (error_text N err)) n1" n1]
            by (simp add: k1)
          then show ?thesis using n1(1) no_tip
            by (simp add: Response bs handle_ledger_sync_event_def handle_chain_sync_response_def Let_def Some)
        next
          case None
          obtain n2 where n2: "emit_tip n1 = Ok n2" "core n2 = core n1" using emit_tip_safe [OF n1(2)] by blast
          then have ok2: "node_ok N (k + length bs) n2" using n1(2) node_ok_core by blast
          obtain h2 where h2: "tip_height (chain (chain_store n2)) = Ok h2"
            using ok2 tip_height_Ok unfolding node_ok_def by blast
          let ?n3 = "emit (ChainSyncCompleted h2) n2"
          have ok3: "node_ok N (k + length bs) ?n3" using ok2 node_ok_core [of ?n3 n2] by simp
          obtain n4 where n4: "restart_mining N w (length bs) ?n3 = Ok n4" "node_ok N (Suc (k + length bs)) n4"
            using restart_mining_safe [OF ok3] assms(2) by (fastforce simp: Response bs)
          show ?thesis using n1(1) no_tip n2 h2 n4 ok3 node_ok_mono [OF n4(2), of kk] node_ok_mono [OF ok3, of kk]
            by (simp add: Response bs handle_ledger_sync_event_def handle_chain_sync_response_def Let_def None k1)
        qed
      qed
    qed
  qed
  then show ?thesis by (simp add: kk_def)
qed

lemma handle_gossip_safe:
  assumes "node_ok N k n" and "k < 2 ^ 64 - 3" and "input_admissible N (SwarmInput (GossipMessage source topic data))"
  shows "\<exists>n'. handle_ledger_gossip_event N w source topic data n = Ok n' \<and> node_ok N (k + 2) n'"
proof -
  have up: "node_ok N (k + 2) n'" if "core n' = core n" for n'
    using node_ok_mono [OF assms(1), of "k + 2"] node_ok_core [OF that] by simp
  consider (block) b where "topic = blocks_topic" "dec_block N data = Some b"
    | (tx) tx where "topic \<noteq> blocks_topic" "topic = txs_topic" "dec_tx N data = Some tx" "verify_self_contained (prims N) tx = Ok ()"
    | (other) "topic = blocks_topic \<longrightarrow> dec_block N data = None"
        "topic \<noteq> blocks_topic \<longrightarrow> topic = txs_topic \<longrightarrow> dec_tx N data = None \<or>
          (\<exists>tx e. dec_tx N data = Some tx \<and> verify_self_contained (prims N) tx = Err e)"
  proof -
    have "verify_self_contained (prims N) tx = Ok () \<or> (\<exists>e. verify_self_contained (prims N) tx = Err e)" for tx
      using returns_verify_self_contained [of "prims N" tx]
      by (cases "verify_self_contained (prims N) tx") (simp_all del: returns_verify_self_contained)
    then show ?thesis using block tx other by (metis not_None_eq)
  qed
  then show ?thesis
  proof cases
    case block
    then show ?thesis using apply_and_broadcast_block_safe [OF assms(1,2), of b w] assms(3)
      by (auto simp: handle_ledger_gossip_event_def input_admissible_def)
  next
    case tx
    let ?n = "n\<lparr>mempool := AList.update (tx_id (prims N) tx) tx (mempool n)\<rparr>"
    have "node_ok N k ?n" using assms(1) node_ok_core [of ?n n] by simp
    then obtain n' where "restart_mining N w 0 ?n = Ok n'" "node_ok N (Suc k) n'"
      using restart_mining_safe [of N k ?n w 0] assms(2) by auto
    then show ?thesis using tx node_ok_mono [of N "Suc k" n' "k + 2"] by (simp add: handle_ledger_gossip_event_def)
  next
    case other
    then show ?thesis using up
      by (auto simp: handle_ledger_gossip_event_def Let_def split: option.split prod.split)
  qed
qed

lemma in_alist_update: "x \<in> set (AList.update k v al) \<Longrightarrow> x = (k, v) \<or> x \<in> set al"
  by (induction al) (auto split: if_splits)

lemma relays_ok_update:
  assumes "relays_ok N rs"
  shows "relays_ok N (AList.update (node_address_for N peer) peer rs)"
  unfolding relays_ok_def
proof
  show "distinct (map fst (AList.update (node_address_for N peer) peer rs))"
    using assms by (intro distinct_update) (simp add: relays_ok_def)
  show "\<forall>(addr, p) \<in> set (AList.update (node_address_for N peer) peer rs). addr = node_address_for N p"
    using assms in_alist_update by (fastforce simp: relays_ok_def)
qed

lemma relays_ok_delete: "relays_ok N rs \<Longrightarrow> relays_ok N (AList.delete a rs)"
proof -
  assume ok: "relays_ok N rs"
  have "set (AList.delete a rs) \<subseteq> set rs" by (induction rs) auto
  then show ?thesis using ok by (auto simp: relays_ok_def distinct_delete)
qed

lemma handle_swarm_event_safe:
  assumes "node_ok N k n" and "k + input_weight N (SwarmInput ev) < 2 ^ 64 - 3" and "input_admissible N (SwarmInput ev)"
    and "sphinx_returns N"
  shows "\<exists>n'. handle_swarm_event N w ev n = Ok n' \<and> node_ok N (k + input_weight N (SwarmInput ev)) n'"
proof -
  define kk where "kk = k + input_weight N (SwarmInput ev)"
  have le: "k + 2 \<le> kk" by (simp add: kk_def input_weight_def)
  have up: "node_ok N kk n'" if "core n' = core n" for n'
    using node_ok_mono [OF assms(1), of kk] node_ok_core [OF that] le by simp
  have relays: "node_ok N kk (emit e (n\<lparr>known_mix_relays := rs\<rparr>))" if "relays_ok N rs" for rs e
    using that node_ok_mono [OF assms(1), of kk] le by (simp add: node_ok_def emit_def)
  have "\<exists>n'. handle_swarm_event N w ev n = Ok n' \<and> node_ok N kk n'"
  proof (cases ev)
    case (MixEvent e)
    then show ?thesis using mix_event_returns [OF assms(4), of w e n] up by (auto simp: MixEvent)
  next
    case (GossipMessage source topic data)
    obtain n' where "handle_ledger_gossip_event N w source topic data n = Ok n'" "node_ok N (k + 2) n'"
      using handle_gossip_safe [OF assms(1) _ assms(3) [unfolded GossipMessage], of w] assms(2) by auto
    then show ?thesis using node_ok_mono le by (auto simp: GossipMessage)
  next
    case (LedgerSyncEvent e)
    show ?thesis using handle_sync_safe [OF assms(1), of e w] assms(2,3) by (simp add: LedgerSyncEvent kk_def input_weight_def)
  next
    case (ConnectionEstablished peer)
    have "relays_ok N (known_mix_relays n)" using assms(1) by (simp add: node_ok_def)
    then show ?thesis using relays [OF relays_ok_update] by (simp add: ConnectionEstablished)
  next
    case (ConnectionClosed peer)
    have "relays_ok N (known_mix_relays n)" using assms(1) by (simp add: node_ok_def)
    then show ?thesis using relays [OF relays_ok_delete] by (simp add: ConnectionClosed)
  next
    case (IdentifyReceived peer addrs)
    then show ?thesis using up by (simp add: IdentifyReceived)
  qed (use up in simp_all)
  then show ?thesis by (simp add: kk_def)
qed

lemma loop_step_safe:
  assumes "node_ok N k n" and "k + input_weight N input < 2 ^ 64 - 3" and "input_admissible N input" and "sphinx_returns N"
  shows "\<exists>n' continue. loop_step N ws input n = Ok (n', continue) \<and> node_ok N (k + input_weight N input) n'"
proof -
  define kk where "kk = k + input_weight N input"
  have le: "k + 2 \<le> kk" by (simp add: kk_def input_weight_def)
  have up: "node_ok N kk n'" if "core n' = core n" for n'
    using node_ok_mono [OF assms(1), of kk] node_ok_core [OF that] le by simp
  have small: "k < 2 ^ 64 - 3" using assms(2) by simp
  have "\<exists>n' continue. loop_step N ws input n = Ok (n', continue) \<and> node_ok N kk n'"
  proof (cases input)
    case (CommandReceived command)
    consider "command = Shutdown" | "command \<noteq> Shutdown" "\<not> dht_ready n" "needs_dht_peer command"
      | "command \<noteq> Shutdown" "dht_ready n \<or> \<not> needs_dht_peer command" by blast
    then show ?thesis
    proof cases
      case 2
      have "node_ok N kk (n\<lparr>deferred_commands := deferred_commands n @ [command]\<rparr>)"
        using node_ok_mono [OF assms(1), of kk] le 2 by (simp add: node_ok_def)
      then show ?thesis using 2 by (auto simp: CommandReceived)
    next
      case 3
      obtain n' where "handle_command N (ws 0) command n = Ok n'" "node_ok N (k + 2) n'"
        using handle_command_safe [OF assms(1) small _ assms(4)] assms(3) by (auto simp: CommandReceived)
      then show ?thesis using 3 node_ok_mono [of N "k + 2" n' kk] le by (auto simp: CommandReceived)
    qed (use up in \<open>auto simp: CommandReceived\<close>)
  next
    case (SwarmInput ev)
    obtain n1 where n1: "release_deferred N ws ev n = Ok n1" "node_ok N k n1" using release_deferred_safe [OF assms(1)] by blast
    from handle_swarm_event_safe [OF n1(2), of ev "ws 0"] assms(2-4) show ?thesis
      by (auto simp: SwarmInput n1(1) kk_def)
  next
    case (MiningResult generation b)
    show ?thesis
    proof (cases "map_option ms_generation (active (mining n)) = Some generation")
      case True
      obtain n1 out where n1: "apply_and_broadcast_block N (ws 0) b n = Ok (n1, out)" "node_ok N (k + 2) n1"
        "out = None \<or> out = Some AlreadyKnown \<or> out = Some AddedToFork \<longrightarrow> node_ok N (Suc k) n1"
        using apply_and_broadcast_block_safe [OF assms(1) small] assms(3) by (fastforce simp: MiningResult input_admissible_def)
      have kk: "kk = k + 3" by (simp add: kk_def MiningResult input_weight_def)
      show ?thesis
      proof (cases "out = Some ExtendedTip \<or> (\<exists>h. out = Some (ReorgedTo h))")
        case tip: True
        have "node_ok N kk (emit (NewBlockMined (height (header b))) n1)"
          using node_ok_mono [OF n1(2), of kk] node_ok_core [of "emit (NewBlockMined (height (header b))) n1" n1] by (simp add: kk)
        then show ?thesis using True tip n1(1) by (auto simp: MiningResult handle_mining_result_def)
      next
        case lost: False
        then have "out = None \<or> out = Some AlreadyKnown \<or> out = Some AddedToFork"
          by (cases out) (auto, metis ApplyOutcome.exhaust)
        then obtain n2 where "restart_mining N (ws 0) 2 n1 = Ok n2" "node_ok N (Suc (Suc k)) n2"
          using restart_mining_safe [of N "Suc k" n1 "ws 0" 2] n1(3) small by auto
        then have "restart_mining N (ws 0) 2 n1 = Ok n2" "node_ok N kk n2" using node_ok_mono [of N "Suc (Suc k)" n2 kk] by (simp_all add: kk)
        moreover have "out = None \<or> out = Some AlreadyKnown \<or> out = Some AddedToFork" by fact
        ultimately show ?thesis using True n1(1) by (auto simp: MiningResult handle_mining_result_def)
      qed
    next
      case False
      then show ?thesis using up by (auto simp: MiningResult handle_mining_result_def)
    qed
  next
    case DummyTrafficTick
    then show ?thesis using mix_sends(3) [OF assms(4), of "ws 0" n] up by auto
  next
    case (DepositStamped d)
    then show ?thesis using mix_sends(1) [OF assms(4), of "ws 0" d n] up by auto
  qed (use up in auto)
  then show ?thesis by (simp add: kk_def)
qed

lemma run_event_loop_safe:
  assumes "node_ok N k n" and "k + (\<Sum>(input, ws) \<leftarrow> inputs. input_weight N input) < 2 ^ 64 - 3"
    and "\<forall>(input, ws) \<in> set inputs. input_admissible N input" and "sphinx_returns N"
  shows "\<exists>n' continue. run_event_loop N inputs n = Ok (n', continue) \<and>
    node_ok N (k + (\<Sum>(input, ws) \<leftarrow> inputs. input_weight N input)) n'"
  using assms(1-3)
proof (induction inputs arbitrary: k n)
  case (Cons iw inputs)
  obtain input ws where iw: "iw = (input, ws)" by (cases iw)
  obtain n1 go where n1: "loop_step N ws input n = Ok (n1, go)" "node_ok N (k + input_weight N input) n1"
    using loop_step_safe [OF Cons.prems(1), of input ws] Cons.prems(2,3) assms(4) by (auto simp: iw)
  show ?case
  proof (cases go)
    case True
    then show ?thesis using Cons.IH [OF n1(2)] Cons.prems n1(1) by (fastforce simp: iw add.assoc)
  next
    case False
    then show ?thesis using n1 node_ok_mono [OF n1(2)] by (auto simp: iw)
  qed
qed auto

lemma join_dht_simps [simp]: "pending (join_dht addrs n) = pending n" "mempool (join_dht addrs n) = mempool n"
proof -
  have "pending (foldl (\<lambda>n addr. case peer_id_of addr of Some peer \<Rightarrow> call (KadAddAddress peer addr) n | None \<Rightarrow> n) n addrs) = pending n \<and>
      mempool (foldl (\<lambda>n addr. case peer_id_of addr of Some peer \<Rightarrow> call (KadAddAddress peer addr) n | None \<Rightarrow> n) n addrs) = mempool n"
    by (induction addrs arbitrary: n) (simp_all add: call_def split: option.split)
  then show "pending (join_dht addrs n) = pending n" "mempool (join_dht addrs n) = mempool n"
    by (simp_all add: join_dht_def call_def Let_def)
qed

lemma spawned_core:
  assumes "spawn_with_bootstrap N w seed addrs = Ok n"
  obtains store where "open_store (prims N) (ledger_ok w) (ledger_file w) = Ok store"
    and "core n = ([], mining_new, store, False, [])" and "pending n = no_pending" and "mempool n = []"
proof -
  have init: "core (initial_node peer secret public store mailbox) = ([], mining_new, store, False, [])"
    "pending (initial_node peer secret public store mailbox) = no_pending" "mempool (initial_node peer secret public store mailbox) = []"
    for peer secret public store mailbox
    by (simp_all add: core_def initial_node_def)
  obtain peer secret public store mailbox where "open_store (prims N) (ledger_ok w) (ledger_file w) = Ok store"
    and "n = join_dht addrs (initial_node peer secret public store mailbox)" by (rule spawned_initial [OF assms])
  then show ?thesis using that [of store] init by simp
qed

lemma spawned_ok:
  assumes "spawn_with_bootstrap N w seed addrs = Ok n"
    and "ledger_file w = empty_database" and "ledger_ok w" and "block_hash (prims N) (genesis (prims N)) \<noteq> ZERO"
  shows "node_ok N 0 n \<and> dht_ready n = False \<and> deferred_commands n = [] \<and> pending n = no_pending"
proof -
  obtain store where store: "open_store (prims N) True empty_database = Ok store"
    and c: "core n = ([], mining_new, store, False, [])" "pending n = no_pending"
    using spawned_core [OF assms(1)] assms(2,3) by metis
  have "chain store = new_chain (prims N)" using open_fresh [OF assms(4)] store by auto
  then show ?thesis
    using c new_chain_inv [OF assms(4)] heights_le_new mining_ok_new
    by (simp add: core_def node_ok_def relays_ok_def mining_new_def)
qed

subsection \<open>Properties\<close>

text \<open>C12: whatever commands, peers and background tasks send to it, a node that was spawned on an empty
  database goes on: no handler panics or loops, and the relay table keeps naming each connected peer
  by its own routing address.\<close>

theorem event_loop_never_panics:
  assumes "spawn_with_bootstrap N w seed addrs = Ok n"
    and "ledger_file w = empty_database" and "ledger_ok w" and "block_hash (prims N) (genesis (prims N)) \<noteq> ZERO"
    and "sphinx_returns N" and "\<forall>(input, ws) \<in> set inputs. input_admissible N input"
    and "(\<Sum>(input, ws) \<leftarrow> inputs. input_weight N input) < 2 ^ 64 - 3"
  shows "\<exists>n' continue. run_event_loop N inputs n = Ok (n', continue) \<and> relays_ok N (known_mix_relays n') \<and>
    chain_inv (prims N) (chain (chain_store n'))"
proof -
  have "node_ok N 0 n" using spawned_ok [OF assms(1-4)] by simp
  from run_event_loop_safe [OF this _ assms(6,5)] assms(7) show ?thesis by (fastforce simp: node_ok_def)
qed

text \<open>A run on the concrete parameters: a peer connects, sends a block and a transaction, and mining starts.\<close>

definition sample_setup :: Setup_World where
  "sample_setup = \<lparr> libp2p_world = libp2p_works, ledger_ok = True, ledger_file = empty_database,
     mailbox_error = None, mailbox_file = fresh_mailbox,
     tcp_error = None, quic_error = None \<rparr>"

definition sample_inputs :: "(LoopInput \<times> (nat \<Rightarrow> World)) list" where
  "sample_inputs =
     [(CommandReceived (ResolveUsername (ascii ''ann'')), \<lambda>i. toy_world),
      (CommandReceived (StartMining (replicate 32 0)), \<lambda>i. toy_world),
      (SwarmInput (ConnectionEstablished [2]), \<lambda>i. toy_world),
      (SwarmInput (MixEvent (Request [2] \<lparr> packet_bytes = [0], sender_routing_public_key = [2] \<rparr> 0)), \<lambda>i. toy_world),
      (SwarmInput (GossipMessage (Some [2]) blocks_topic [9]), \<lambda>i. toy_world),
      (SwarmInput (LedgerSyncEvent (Response [2] 7 (SyncBlocks [sample_block, sample_block]))), \<lambda>i. toy_world)]"

lemma sample_spawn_any:
  assumes "length seed = 32"
  shows "\<exists>n. spawn_with_bootstrap toy_network sample_setup seed addresses = Ok n"
proof -
  obtain d where "open_store toy True empty_database = Ok \<lparr>db = d, chain = new_chain toy\<rparr>"
    using open_fresh [OF sample_nonzero(1)] by blast
  moreover obtain behaviour where "build_swarm libp2p_works = Ok behaviour" using build_swarm_works by blast
  ultimately show ?thesis using assms
    by (simp add: spawn_with_bootstrap_def sample_setup_def keypair_from_seed_def toy_network_keys listen_or_error_def
        split: prod.split)
qed

lemma sample_spawn: "\<exists>n. spawn_with_bootstrap toy_network sample_setup (replicate 32 1) [] = Ok n"
  by (rule sample_spawn_any) simp

lemma sample_weights:
  "\<forall>(input, ws) \<in> set sample_inputs. input_admissible toy_network input"
  "(\<Sum>(input, ws) \<leftarrow> sample_inputs. input_weight toy_network input) < 2 ^ 64 - 3"
  using sample_nonzero
  by (simp_all add: sample_inputs_def input_admissible_def input_weight_def toy_network_decodes)

lemma event_loop_never_panics_witness:
  "\<exists>n n' go. spawn_with_bootstrap toy_network sample_setup (replicate 32 1) [] = Ok n \<and>
    run_event_loop toy_network sample_inputs n = Ok (n', go) \<and> relays_ok toy_network (known_mix_relays n')"
proof -
  obtain n where n: "spawn_with_bootstrap toy_network sample_setup (replicate 32 1) [] = Ok n" using sample_spawn by blast
  have "ledger_file sample_setup = empty_database" "ledger_ok sample_setup" by (simp_all add: sample_setup_def)
  from event_loop_never_panics [OF n this _ toy_network_returns sample_weights] sample_nonzero(1) n show ?thesis by auto
qed

text \<open>C21: at most one search for a nonce is wanted at any time. In every state a run ends in, all searches
  that were started have different generations, one that has not been told to stop is the active one,
  and the result of one that has been told to stop, should it still arrive, is dropped: the node does
  not change, whatever block the result carries.\<close>

theorem one_search_wanted:
  assumes "spawn_with_bootstrap N w seed addrs = Ok n"
    and "ledger_file w = empty_database" and "ledger_ok w" and "block_hash (prims N) (genesis (prims N)) \<noteq> ZERO"
    and "sphinx_returns N" and "\<forall>(input, ws) \<in> set inputs. input_admissible N input"
    and "(\<Sum>(input, ws) \<leftarrow> inputs. input_weight N input) < 2 ^ 64 - 3"
    and "run_event_loop N inputs n = Ok (n', continue)"
  shows "length (filter (\<lambda>a. \<not> at_stop a) (tasks (mining n'))) \<le> 1 \<and>
    (\<forall>a \<in> set (tasks (mining n')). \<not> at_stop a \<longrightarrow>
      map_option ms_generation (active (mining n')) = Some (at_generation a)) \<and>
    distinct (map at_generation (tasks (mining n'))) \<and>
    (\<forall>a \<in> set (tasks (mining n')). \<forall>b u. at_stop a \<longrightarrow>
      loop_step N u (MiningResult (at_generation a) b) n' = Ok (n', True))"
proof -
  have "node_ok N 0 n" using spawned_ok [OF assms(1-4)] by simp
  from run_event_loop_safe [OF this _ assms(6,5)] assms(7,8) have ok: "mining_ok (mining n')"
    by (fastforce simp: node_ok_def)
  let ?live = "filter (\<lambda>a. \<not> at_stop a) (tasks (mining n'))"
  have "distinct (map at_generation ?live)" using ok by (simp add: mining_ok_def distinct_map_filter)
  moreover have "set (map at_generation ?live) \<subseteq> set_option (map_option ms_generation (active (mining n')))"
    using ok by (fastforce simp: mining_ok_def)
  moreover have "card (set_option (map_option ms_generation (active (mining n')))) \<le> 1"
    by (cases "active (mining n')") simp_all
  ultimately have "length ?live \<le> 1"
    using card_mono [of "set_option (map_option ms_generation (active (mining n')))" "set (map at_generation ?live)"]
      distinct_card [of "map at_generation ?live"]
    by (cases "active (mining n')") simp_all
  moreover have "\<forall>a \<in> set (tasks (mining n')). \<not> at_stop a \<longrightarrow> map_option ms_generation (active (mining n')) = Some (at_generation a)"
    using ok by (fastforce simp: mining_ok_def)
  moreover have "distinct (map at_generation (tasks (mining n')))" using ok by (simp add: mining_ok_def)
  moreover have "loop_step N u (MiningResult (at_generation a) b) n' = Ok (n', True)"
    if "a \<in> set (tasks (mining n'))" and "at_stop a" for a b u
  proof -
    have "map_option ms_generation (active (mining n')) \<noteq> Some (at_generation a)" using ok that by (simp add: mining_ok_def)
    then have "handle_mining_result N (u 0) (at_generation a) b n' = Ok n'" unfolding handle_mining_result_def by (rule if_not_P)
    then show ?thesis by simp
  qed
  ultimately show ?thesis by blast
qed

text \<open>Two searches are started one after the other; the first is told to stop and its result is dropped.\<close>

definition two_searches :: "(LoopInput \<times> (nat \<Rightarrow> World)) list" where
  "two_searches =
     [(CommandReceived (StartMining (replicate 32 0)), \<lambda>i. toy_world),
      (CommandReceived (StartMining (replicate 32 0)), \<lambda>i. toy_world)]"

lemma fresh_candidate:
  assumes "chain s = new_chain toy"
  shows "\<exists>hdr. mining_candidate toy s [] pk now = Ok (Some (hdr, []))"
proof -
  have "prev_hash (header sample_block) = block_hash toy (genesis toy)" by (simp add: sample_block_def)
  then obtain target t where "expected_difficulty (new_chain toy) (block_hash toy (genesis toy)) = Ok target"
    "median_time_past (new_chain toy) (block_hash toy (genesis toy)) = Ok t"
    using validate_block_OkD [OF sample_valid] by metis
  moreover have "tip_height (new_chain toy) = Ok 0" by (simp add: tip_height_def sample_floor sample_meta)
  ultimately show ?thesis
    by (simp add: mining_candidate_def store_expected_difficulty_def store_median_time_past_def assms sample_floor Let_def)
qed

lemma one_search_wanted_witness:
  "\<exists>n n' go. spawn_with_bootstrap toy_network sample_setup (replicate 32 1) [] = Ok n \<and>
    run_event_loop toy_network two_searches n = Ok (n', go) \<and>
    map (\<lambda>a. (at_generation a, at_stop a)) (tasks (mining n')) = [(1, True), (2, False)] \<and>
    map_option ms_generation (active (mining n')) = Some 2 \<and>
    (\<forall>b u. loop_step toy_network u (MiningResult 1 b) n' = Ok (n', True))"
proof -
  obtain n where n: "spawn_with_bootstrap toy_network sample_setup (replicate 32 1) [] = Ok n" using sample_spawn by blast
  have f: "ledger_file sample_setup = empty_database" "ledger_ok sample_setup" by (simp_all add: sample_setup_def)
  obtain store where "open_store (prims toy_network) (ledger_ok sample_setup) (ledger_file sample_setup) = Ok store"
    and c: "core n = ([], mining_new, store, False, [])" "mempool n = []"
    using spawned_core [OF n] by metis
  then have store: "open_store toy True empty_database = Ok store" using f by simp
  have "chain store = new_chain toy" using open_fresh [OF sample_nonzero(1)] store by auto
  moreover have m: "mining n = mining_new" "chain_store n = store" using c(1) by (simp_all add: core_def)
  ultimately obtain hdr where hdr: "mining_candidate toy (chain_store n) (mempool n) (replicate 32 0) (clock toy_world 0) = Ok (Some (hdr, []))"
    using fresh_candidate [of store] c(2) by metis
  obtain n' go where r: "run_event_loop toy_network two_searches n = Ok (n', go)"
    "map (\<lambda>a. (at_generation a, at_stop a)) (tasks (mining n')) = [(1, True), (2, False)]"
    "map_option ms_generation (active (mining n')) = Some 2"
    using hdr by (simp add: two_searches_def u64_add_def mining_start_def mining_stop_def spawn_mining_attempt_def
      mining_new_def m set_stop_flag_def Let_def)
  have "\<forall>(input, ws) \<in> set two_searches. input_admissible toy_network input"
    "(\<Sum>(input, ws) \<leftarrow> two_searches. input_weight toy_network input) < 2 ^ 64 - 3"
    by (simp_all add: two_searches_def input_admissible_def input_weight_def)
  note one = one_search_wanted [OF n f _ toy_network_returns this r(1)]
  have "\<exists>a \<in> set (tasks (mining n')). at_generation a = 1 \<and> at_stop a" using r(2) by auto
  then have "\<forall>b u. loop_step toy_network u (MiningResult 1 b) n' = Ok (n', True)"
    using one sample_nonzero(1) by (auto simp del: loop_step.simps)
  then show ?thesis using n r
    by - (rule exI [of _ n], rule exI [of _ n'], rule exI [of _ go], intro conjI, assumption+)
qed

end
