(* ===== verification/Node_Bindings.thy ===== *)
theory Node_Bindings
  imports Crypto_Bindings Loop_Invariant
begin

text \<open>
  \<^verbatim>\<open>packages/crypto-core-ffi\<close>, the half that wraps the node: \<^verbatim>\<open>p2p_node.rs\<close>, \<^verbatim>\<open>p2p_event.rs\<close> and
  \<^verbatim>\<open>ledger.rs\<close>. Peer ids and addresses cross as text, transactions and blocks as encoded bytes, and
  every call that is understood becomes one command in the channel the event loop reads. The texts and
  parse errors of \<^verbatim>\<open>libp2p\<close> and \<^verbatim>\<open>bincode\<close> are parameters.
\<close>

subsection \<open>Parameters\<close>

record Boundary =
  net :: Network
  peer_text :: "PeerId \<Rightarrow> bytes"
  peer_parse :: "bytes \<Rightarrow> (string, PeerId) res"
  addr_parse_error :: "bytes \<Rightarrow> string"
  tx_encode_error :: "Transaction \<Rightarrow> string"
  tx_decode_error :: "bytes \<Rightarrow> string"
  block_decode_error :: "bytes \<Rightarrow> string"

subsection \<open>Events\<close>

datatype FfiP2pEvent =
    FfiListeningOn bytes
  | FfiPeerDiscoveredLocally bytes
  | FfiPeerConnected bytes
  | FfiPeerIdentified bytes
  | FfiPeerDisconnected bytes
  | FfiDialFailed "bytes option" string
  | FfiRelayReservationFailed string
  | FfiEnvelopeReceived bytes bytes
  | FfiEnvelopeDelivered bytes
  | FfiEnvelopeDeliveryFailed bytes string
  | FfiPeerAddressesResolved bytes "bytes list"
  | FfiPeerAddressResolutionFailed bytes
  | FfiAddressesAnnounced
  | FfiAddressAnnouncementFailed string
  | FfiBlobFetched bytes bytes bytes
  | FfiBlobFetchFailed bytes bytes string
  | FfiUsernameResolved bytes bytes
  | FfiUsernameResolutionFailed bytes
  | FfiUsernameAnnounced bytes
  | FfiUsernameAnnouncementFailed bytes string
  | FfiChainTipChanged nat string
  | FfiLedgerSubmissionRejected string
  | FfiUsernameOwnerResolved bytes bytes nat
  | FfiUsernameOwnerNotFound bytes
  | FfiChainSyncCompleted nat
  | FfiChainSyncFailed bytes string
  | FfiNewBlockMined nat
  | FfiMixPacketArrived bytes
  | FfiMixForwardFailed string
  | FfiMixRelayDiscovered bytes
  | FfiMailboxDepositStored
  | FfiMailboxEnvelopeRetrieved bytes

fun ffi_event :: "Boundary \<Rightarrow> P2pEvent \<Rightarrow> FfiP2pEvent" where
  "ffi_event B (ListeningOn addr) = FfiListeningOn (addr_text (net B) addr)"
| "ffi_event B (PeerDiscoveredLocally peer) = FfiPeerDiscoveredLocally (peer_text B peer)"
| "ffi_event B (PeerConnected peer) = FfiPeerConnected (peer_text B peer)"
| "ffi_event B (PeerIdentified peer) = FfiPeerIdentified (peer_text B peer)"
| "ffi_event B (PeerDisconnected peer) = FfiPeerDisconnected (peer_text B peer)"
| "ffi_event B (DialFailed peer reason) = FfiDialFailed (map_option (peer_text B) peer) reason"
| "ffi_event B (RelayReservationFailed reason) = FfiRelayReservationFailed reason"
| "ffi_event B (EnvelopeReceived peer bs) = FfiEnvelopeReceived (peer_text B peer) bs"
| "ffi_event B (EnvelopeDelivered to) = FfiEnvelopeDelivered (peer_text B to)"
| "ffi_event B (EnvelopeDeliveryFailed to reason) = FfiEnvelopeDeliveryFailed (peer_text B to) reason"
| "ffi_event B (PeerAddressesResolved peer addresses) =
     FfiPeerAddressesResolved (peer_text B peer) (map (addr_text (net B)) addresses)"
| "ffi_event B (PeerAddressResolutionFailed peer) = FfiPeerAddressResolutionFailed (peer_text B peer)"
| "ffi_event B AddressesAnnounced = FfiAddressesAnnounced"
| "ffi_event B (AddressAnnouncementFailed reason) = FfiAddressAnnouncementFailed reason"
| "ffi_event B (BlobFetched peer rid bs) = FfiBlobFetched (peer_text B peer) rid bs"
| "ffi_event B (BlobFetchFailed peer rid reason) = FfiBlobFetchFailed (peer_text B peer) rid reason"
| "ffi_event B (UsernameResolved name claim) = FfiUsernameResolved name claim"
| "ffi_event B (UsernameResolutionFailed name) = FfiUsernameResolutionFailed name"
| "ffi_event B (UsernameAnnounced name) = FfiUsernameAnnounced name"
| "ffi_event B (UsernameAnnouncementFailed name reason) = FfiUsernameAnnouncementFailed name reason"
| "ffi_event B (ChainTipChanged hgt h) = FfiChainTipChanged hgt h"
| "ffi_event B (LedgerSubmissionRejected reason) = FfiLedgerSubmissionRejected reason"
| "ffi_event B (UsernameOwnerResolved name owner hgt) = FfiUsernameOwnerResolved name owner hgt"
| "ffi_event B (UsernameOwnerNotFound name) = FfiUsernameOwnerNotFound name"
| "ffi_event B (ChainSyncCompleted hgt) = FfiChainSyncCompleted hgt"
| "ffi_event B (ChainSyncFailed peer reason) = FfiChainSyncFailed (peer_text B peer) reason"
| "ffi_event B (NewBlockMined hgt) = FfiNewBlockMined hgt"
| "ffi_event B (MixPacketArrived payload) = FfiMixPacketArrived payload"
| "ffi_event B (MixForwardFailed reason) = FfiMixForwardFailed reason"
| "ffi_event B (MixRelayDiscovered peer) = FfiMixRelayDiscovered (peer_text B peer)"
| "ffi_event B MailboxDepositStored = FfiMailboxDepositStored"
| "ffi_event B (MailboxEnvelopeRetrieved envelope) = FfiMailboxEnvelopeRetrieved envelope"

subsection \<open>Functions\<close>

definition p2p_peer_id_from_public_key :: "Boundary \<Rightarrow> bytes \<Rightarrow> bytes ffi" where
  "p2p_peer_id_from_public_key B key =
     map_err p2p_failure (bind_res (peer_id_from_public_key (net B) key) (\<lambda>peer. Ok (peer_text B peer)))"

definition p2p_mailbox_shared_material :: "bytes \<Rightarrow> bytes \<Rightarrow> bytes" where
  "p2p_mailbox_shared_material own_key peer_key = shared_material_from_identity_keys own_key peer_key"

text \<open>\<open>delays\<close> are the random delays of the packet that is measured.\<close>

definition p2p_estimated_mix_dummy_traffic_bytes_per_hour :: "Boundary \<Rightarrow> nat list \<Rightarrow> (P2pError, nat) res" where
  "p2p_estimated_mix_dummy_traffic_bytes_per_hour B delays =
     (let interval = mix_dummy_traffic_interval_secs * 1000 in
      estimated_dummy_traffic_bytes_per_hour (net B) delays interval)"

definition parse_peer_id :: "Boundary \<Rightarrow> bytes \<Rightarrow> PeerId ffi" where
  "parse_peer_id B txt =
     map_err (\<lambda>err. FfiP2p (''invalid peer id '' @ debug_text (net B) txt @ '': '' @ err)) (peer_parse B txt)"

definition parse_multiaddr :: "Boundary \<Rightarrow> bytes \<Rightarrow> Multiaddr ffi" where
  "parse_multiaddr B txt =
     ok_or (FfiP2p (''invalid multiaddr '' @ debug_text (net B) txt @ '': '' @ addr_parse_error B txt))
       (addr_parse (net B) txt)"

fun parse_multiaddrs :: "Boundary \<Rightarrow> bytes list \<Rightarrow> Multiaddr list ffi" where
  "parse_multiaddrs B [] = Ok []"
| "parse_multiaddrs B (txt # txts) =
     bind_res (parse_multiaddr B txt) (\<lambda>addr. bind_res (parse_multiaddrs B txts) (\<lambda>addrs. Ok (addr # addrs)))"

text \<open>A claim is built, signed and encoded in one call.\<close>

definition ledger_build_username_claim :: "Boundary \<Rightarrow> FfiIdentity \<Rightarrow> bytes \<Rightarrow> nat \<Rightarrow> bytes \<Rightarrow> bytes \<Rightarrow> bytes ffi" where
  "ledger_build_username_claim B kp name anchor_height anchor nonce_bytes =
     (if length anchor \<noteq> 32 then Err (FfiP2p ''anchor_block_hash must be exactly 32 bytes'')
      else if length nonce_bytes \<noteq> 8 then Err (FfiP2p ''nonce must be exactly 8 bytes'')
      else
        bind_res (map_err (\<lambda>e. FfiP2p (error_text (net B) e))
          (new_claim (prims (net B)) kp name anchor_height (Hash32 anchor) nonce_bytes)) (\<lambda>transaction.
        ok_or (FfiP2p (tx_encode_error B transaction)) (enc_tx (net B) transaction)))"

subsection \<open>The node object\<close>

text \<open>What the object and the task it started share: the two channels, whether the task still receives,
  and the state the task owns.\<close>

record FfiP2pNode =
  own_peer_id :: PeerId
  sent_commands :: "Command list"
  receiving :: bool
  unread_events :: "P2pEvent list"
  loop_node :: Node

definition events_of :: "Output list \<Rightarrow> P2pEvent list" where
  "events_of os = concat (map (\<lambda>out. case out of Event e \<Rightarrow> [e] | _ \<Rightarrow> []) os)"

definition ffi_spawn :: "Boundary \<Rightarrow> Setup_World \<Rightarrow> bytes \<Rightarrow> FfiP2pNode ffi" where
  "ffi_spawn B w identity_seed =
     (if length identity_seed \<noteq> 32
      then Err (FfiP2p (''identity seed must be exactly 32 bytes, got '' @ nat_string (length identity_seed)))
      else
        bind_res (map_err p2p_failure (spawn (net B) w identity_seed)) (\<lambda>n.
          Ok \<lparr> own_peer_id = local_peer_id n, sent_commands = [], receiving = True,
               unread_events = events_of (outputs n), loop_node = n \<rparr>))"

definition ffi_local_peer_id :: "Boundary \<Rightarrow> FfiP2pNode \<Rightarrow> bytes" where
  "ffi_local_peer_id B h = peer_text B (own_peer_id h)"

definition ffi_send :: "Command \<Rightarrow> FfiP2pNode \<Rightarrow> FfiP2pNode \<times> unit ffi" where
  "ffi_send c h =
     (if receiving h then (h\<lparr>sent_commands := sent_commands h @ [c]\<rparr>, Ok ())
      else (h, Err (FfiP2p ''the p2p node has shut down'')))"

text \<open>Sending a command whose parts had to be parsed first.\<close>

definition send_parsed :: "Command ffi \<Rightarrow> FfiP2pNode \<Rightarrow> FfiP2pNode \<times> unit ffi" where
  "send_parsed command h =
     (case command of Ok c \<Rightarrow> ffi_send c h | Err e \<Rightarrow> (h, Err e) | Panic \<Rightarrow> (h, Panic) | Diverge \<Rightarrow> (h, Diverge))"

definition ffi_dial :: "Boundary \<Rightarrow> bytes \<Rightarrow> bytes list \<Rightarrow> FfiP2pNode \<Rightarrow> FfiP2pNode \<times> unit ffi" where
  "ffi_dial B peer_id known_addresses h =
     send_parsed (bind_res (parse_peer_id B peer_id) (\<lambda>peer.
       bind_res (parse_multiaddrs B known_addresses) (\<lambda>addrs. Ok (DialPeer peer addrs)))) h"

definition ffi_resolve_peer_addresses :: "Boundary \<Rightarrow> bytes \<Rightarrow> FfiP2pNode \<Rightarrow> FfiP2pNode \<times> unit ffi" where
  "ffi_resolve_peer_addresses B peer_id h =
     send_parsed (bind_res (parse_peer_id B peer_id) (\<lambda>peer. Ok (ResolvePeerAddresses peer))) h"

definition ffi_announce_addresses :: "Boundary \<Rightarrow> bytes list \<Rightarrow> FfiP2pNode \<Rightarrow> FfiP2pNode \<times> unit ffi" where
  "ffi_announce_addresses B addresses h =
     send_parsed (bind_res (parse_multiaddrs B addresses) (\<lambda>addrs. Ok (AnnounceAddresses addrs))) h"

definition ffi_send_envelope :: "Boundary \<Rightarrow> bytes \<Rightarrow> bytes \<Rightarrow> FfiP2pNode \<Rightarrow> FfiP2pNode \<times> unit ffi" where
  "ffi_send_envelope B peer_id bs h =
     send_parsed (bind_res (parse_peer_id B peer_id) (\<lambda>peer. Ok (SendEnvelope peer bs))) h"

definition ffi_reserve_relay_slot :: "Boundary \<Rightarrow> bytes \<Rightarrow> FfiP2pNode \<Rightarrow> FfiP2pNode \<times> unit ffi" where
  "ffi_reserve_relay_slot B relay_address h =
     send_parsed (bind_res (parse_multiaddr B relay_address) (\<lambda>addr. Ok (ReserveRelaySlot addr))) h"

definition ffi_set_local_blob :: "bytes \<Rightarrow> bytes \<Rightarrow> FfiP2pNode \<Rightarrow> FfiP2pNode \<times> unit ffi" where
  "ffi_set_local_blob rid bs h = ffi_send (SetLocalBlob rid bs) h"

definition ffi_clear_local_blob :: "bytes \<Rightarrow> FfiP2pNode \<Rightarrow> FfiP2pNode \<times> unit ffi" where
  "ffi_clear_local_blob rid h = ffi_send (ClearLocalBlob rid) h"

definition ffi_fetch_blob :: "Boundary \<Rightarrow> bytes \<Rightarrow> bytes \<Rightarrow> FfiP2pNode \<Rightarrow> FfiP2pNode \<times> unit ffi" where
  "ffi_fetch_blob B peer_id rid h =
     send_parsed (bind_res (parse_peer_id B peer_id) (\<lambda>peer. Ok (FetchBlob peer rid))) h"

definition ffi_announce_username :: "bytes \<Rightarrow> bytes \<Rightarrow> FfiP2pNode \<Rightarrow> FfiP2pNode \<times> unit ffi" where
  "ffi_announce_username name claim h = ffi_send (AnnounceUsername name claim) h"

definition ffi_resolve_username :: "bytes \<Rightarrow> FfiP2pNode \<Rightarrow> FfiP2pNode \<times> unit ffi" where
  "ffi_resolve_username name h = ffi_send (ResolveUsername name) h"

definition ffi_submit_username_claim :: "Boundary \<Rightarrow> bytes \<Rightarrow> FfiP2pNode \<Rightarrow> FfiP2pNode \<times> unit ffi" where
  "ffi_submit_username_claim B transaction_bytes h =
     send_parsed (bind_res (ok_or (FfiP2p (tx_decode_error B transaction_bytes)) (dec_tx (net B) transaction_bytes))
       (\<lambda>transaction. Ok (SubmitUsernameClaim transaction))) h"

definition ffi_submit_mined_block :: "Boundary \<Rightarrow> bytes \<Rightarrow> FfiP2pNode \<Rightarrow> FfiP2pNode \<times> unit ffi" where
  "ffi_submit_mined_block B block_bytes h =
     send_parsed (bind_res (ok_or (FfiP2p (block_decode_error B block_bytes)) (dec_block (net B) block_bytes))
       (\<lambda>block. Ok (SubmitMinedBlock block))) h"

definition ffi_query_username_owner :: "bytes \<Rightarrow> FfiP2pNode \<Rightarrow> FfiP2pNode \<times> unit ffi" where
  "ffi_query_username_owner name h = ffi_send (QueryUsernameOwner name) h"

definition ffi_request_chain_sync :: "Boundary \<Rightarrow> bytes \<Rightarrow> FfiP2pNode \<Rightarrow> FfiP2pNode \<times> unit ffi" where
  "ffi_request_chain_sync B peer_id h =
     send_parsed (bind_res (parse_peer_id B peer_id) (\<lambda>peer. Ok (RequestChainSync peer))) h"

definition ffi_query_chain_tip :: "FfiP2pNode \<Rightarrow> FfiP2pNode \<times> unit ffi" where
  "ffi_query_chain_tip h = ffi_send QueryChainTip h"

definition ffi_start_mining :: "bytes \<Rightarrow> FfiP2pNode \<Rightarrow> FfiP2pNode \<times> unit ffi" where
  "ffi_start_mining key h =
     (if length key \<noteq> 32
      then (h, Err (FfiP2p (''mining public key must be exactly 32 bytes, got '' @ nat_string (length key))))
      else ffi_send (StartMining key) h)"

definition ffi_stop_mining :: "FfiP2pNode \<Rightarrow> FfiP2pNode \<times> unit ffi" where
  "ffi_stop_mining h = ffi_send StopMining h"

definition ffi_deposit_to_mailbox :: "bytes \<Rightarrow> bytes \<Rightarrow> FfiP2pNode \<Rightarrow> FfiP2pNode \<times> unit ffi" where
  "ffi_deposit_to_mailbox shared_material envelope h = ffi_send (DepositToMailbox shared_material envelope) h"

definition ffi_retrieve_from_mailbox :: "bytes \<Rightarrow> FfiP2pNode \<Rightarrow> FfiP2pNode \<times> unit ffi" where
  "ffi_retrieve_from_mailbox shared_material h = ffi_send (RetrieveFromMailbox shared_material) h"

definition ffi_announce_mix_relay :: "FfiP2pNode \<Rightarrow> FfiP2pNode \<times> unit ffi" where
  "ffi_announce_mix_relay h = ffi_send AnnounceMixRelay h"

definition ffi_set_mix_dummy_traffic_active :: "bool \<Rightarrow> FfiP2pNode \<Rightarrow> FfiP2pNode \<times> unit ffi" where
  "ffi_set_mix_dummy_traffic_active enabled h = ffi_send (SetMixDummyTrafficActive enabled) h"

definition ffi_shutdown :: "FfiP2pNode \<Rightarrow> FfiP2pNode \<times> unit ffi" where
  "ffi_shutdown h = ffi_send Shutdown h"

text \<open>The outer option: \<open>None\<close> while the call waits. The inner one: \<open>None\<close> once the task has ended and its
  last event has been read.\<close>

definition ffi_next_event :: "Boundary \<Rightarrow> FfiP2pNode \<Rightarrow> (FfiP2pNode \<times> FfiP2pEvent option) option" where
  "ffi_next_event B h =
     (case unread_events h of
        e # es \<Rightarrow> Some (h\<lparr>unread_events := es\<rparr>, Some (ffi_event B e))
      | [] \<Rightarrow> if receiving h then None else Some (h, None))"

end
