(* ===== verification/Command_Order.thy ===== *)
theory Command_Order
  imports Node_Bindings
begin

text \<open>
  What the commands of an application make the event loop of \<^verbatim>\<open>packages/p2p-core/src/node.rs\<close> do that no
  other input makes it do: the requests it sends to the swarm and its background threads, and the
  settings it changes. A command for the hash table that comes before the first connection is deferred
  and replayed when the connection is there; every other command has its effect at once.
\<close>

subsection \<open>Effects of a command\<close>

fun direct_requests :: "Network \<Rightarrow> Command \<Rightarrow> Output list" where
  "direct_requests N (SendEnvelope to bs) = [Call (EnvelopeRequest to bs)]"
| "direct_requests N (FetchBlob peer rid) = [Call (BlobRequest peer rid)]"
| "direct_requests N (RequestChainSync peer) = [Call (SyncRequest peer GetTip)]"
| "direct_requests N (ReserveRelaySlot addr) = [Call (SwarmListen (addr @ [P2pCircuit]))]"
| "direct_requests N (DepositToMailbox shared_material envelope) = [Spawn (MineDeposit shared_material envelope)]"
| "direct_requests N (SubmitUsernameClaim tx) =
     (if verify_self_contained (prims N) tx = Ok ()
      then (case enc_tx N tx of None \<Rightarrow> [] | Some data \<Rightarrow> [Call (GossipPublish txs_topic data)]) else [])"
| "direct_requests N _ = []"

fun is_direct :: "Output \<Rightarrow> bool" where
  "is_direct (Call (EnvelopeRequest to bs)) = True"
| "is_direct (Call (BlobRequest peer rid)) = True"
| "is_direct (Call (SyncRequest peer request)) = (request = GetTip)"
| "is_direct (Call (SwarmListen addr)) = (P2pCircuit \<in> set addr)"
| "is_direct (Call (GossipPublish topic data)) = (topic = txs_topic)"
| "is_direct (Spawn (MineDeposit shared_material envelope)) = True"
| "is_direct _ = False"

text \<open>The requests for the hash table; \<open>me\<close> is the node's own peer id.\<close>

fun lookup_requests :: "Network \<Rightarrow> PeerId \<Rightarrow> Command \<Rightarrow> Output list" where
  "lookup_requests N me (ResolvePeerAddresses peer) = [Call (KadGetRecord (addrs_record_key peer))]"
| "lookup_requests N me (AnnounceAddresses addrs) = [Call (KadPutRecord (addrs_record_key me) (encode_addresses N addrs))]"
| "lookup_requests N me (AnnounceUsername name claim) = [Call (KadPutRecord (username_record_key N name) claim)]"
| "lookup_requests N me (ResolveUsername name) = [Call (KadGetRecord (username_record_key N name))]"
| "lookup_requests N me _ = []"

fun is_lookup :: "Output \<Rightarrow> bool" where
  "is_lookup (Call (KadGetRecord key)) = True"
| "is_lookup (Call (KadPutRecord key record)) = True"
| "is_lookup _ = False"

text \<open>The blobs a node serves and whether it sends cover traffic.\<close>

fun change_settings :: "Command \<Rightarrow> (bytes \<rightharpoonup> bytes) \<times> bool \<Rightarrow> (bytes \<rightharpoonup> bytes) \<times> bool" where
  "change_settings (SetLocalBlob rid bs) (blobs, cover) = (blobs(rid \<mapsto> bs), cover)"
| "change_settings (ClearLocalBlob rid) (blobs, cover) = (blobs(rid := None), cover)"
| "change_settings (SetMixDummyTrafficActive enabled) (blobs, cover) = (blobs, enabled)"
| "change_settings _ (blobs, cover) = (blobs, cover)"

definition settings :: "Node \<Rightarrow> (bytes \<rightharpoonup> bytes) \<times> bool" where
  "settings n = (local_blobs n, mix_dummy_traffic_active n)"

definition directs :: "Node \<Rightarrow> Output list" where
  "directs n = filter is_direct (outputs n)"

text \<open>The requests for the hash table that were sent, and those that wait for a connection.\<close>

definition pending_lookups :: "Network \<Rightarrow> Node \<Rightarrow> Output list" where
  "pending_lookups N n = concat (map (lookup_requests N (local_peer_id n)) (deferred_commands n))"

definition lookups_made :: "Network \<Rightarrow> Node \<Rightarrow> Output list" where
  "lookups_made N n = filter is_lookup (outputs n) @ pending_lookups N n"

subsection \<open>What leaves them alone\<close>

type_synonym Asks = "PeerId \<times> Output list \<times> Output list \<times> Command list \<times> (bytes \<rightharpoonup> bytes) \<times> bool"

definition asks :: "Node \<Rightarrow> Asks" where
  "asks n = (local_peer_id n, directs n, filter is_lookup (outputs n), deferred_commands n, settings n)"

lemmas asks_defs = asks_def directs_def settings_def

lemma asks_outputs [simp]:
  "asks (emit e n) = asks n" "\<not> is_direct (Call c) \<Longrightarrow> \<not> is_lookup (Call c) \<Longrightarrow> asks (call c n) = asks n"
  "\<not> is_direct (Spawn t) \<Longrightarrow> asks (spawn_task t n) = asks n"
  by (simp_all add: asks_defs emit_def call_def spawn_task_def)

lemma asks_fields [simp]:
  "asks (n\<lparr>mempool := mp\<rparr>) = asks n" "asks (n\<lparr>chain_store := st\<rparr>) = asks n" "asks (n\<lparr>mining := m\<rparr>) = asks n"
  "asks (n\<lparr>known_mix_relays := rs\<rparr>) = asks n" "asks (n\<lparr>dht_ready := b\<rparr>) = asks n" "asks (set_pending f n) = asks n"
  by (simp_all add: asks_defs set_pending_def)

lemma topic_not_txs [simp]: "blocks_topic \<noteq> txs_topic" "mix_relay_directory_topic \<noteq> txs_topic"
  by (simp_all add: txs_topic_def blocks_topic_def mix_relay_directory_topic_def ascii_def)

lemma asks_publish [simp]: "topic \<noteq> txs_topic \<Longrightarrow> asks (publish topic enc n) = asks n"
  by (simp add: publish_def split: option.split)

interpretation asks_view: handler_view asks
proof unfold_locales
  fix x n assume "from_handler x"
  then show "asks (n\<lparr>outputs := outputs n @ [x]\<rparr>) = asks n" by (cases x rule: from_handler.cases) (simp_all add: asks_defs)
qed (simp_all add: asks_defs set_pending_def)

lemma asks_events [simp]: "asks (handle_envelope_event ev1 n) = asks n" "asks (handle_blob_event ev2 n) = asks n"
  by (simp_all add: handle_envelope_event_def handle_blob_event_def Let_def
      split: RequestResponseEvent.split option.split BlobResponse.split prod.split)

lemma asks_restart_mining: "restart_mining N w i n = Ok n' \<Longrightarrow> asks n' = asks n"
  by (auto simp: restart_mining_def bind_res_Ok)

lemmas asks_results = asks_view.mix_handled asks_restart_mining asks_view.tip_emitted

lemma asks_apply_and_broadcast_block: "apply_and_broadcast_block N w b n = Ok (n', outcome) \<Longrightarrow> asks n' = asks n"
  by (auto simp: apply_and_broadcast_block_def Let_def bind_res_Ok split: prod.splits res.splits if_splits dest!: asks_results)

lemma asks_handle_ledger_gossip_event: "handle_ledger_gossip_event N w source topic data n = Ok n' \<Longrightarrow> asks n' = asks n"
  by (auto simp: handle_ledger_gossip_event_def Let_def bind_res_Ok split: if_splits option.splits res.splits prod.splits
      dest!: asks_apply_and_broadcast_block asks_results)

lemma asks_apply_synced: "apply_synced N w i bs n = Ok (n', e) \<Longrightarrow> asks n' = asks n"
proof (induction bs arbitrary: i n)
  case (Cons b bs)
  then show ?case by (auto simp: Let_def split: prod.splits res.splits dest!: Cons.IH)
qed simp

lemma asks_handle_chain_sync_response: "handle_chain_sync_response N w rid response n = Ok n' \<Longrightarrow> asks n' = asks n"
  by (auto simp: handle_chain_sync_response_def Let_def bind_res_Ok split: option.splits ChainSyncResponse.splits if_splits prod.splits
      dest!: asks_results asks_apply_synced)

lemma asks_handle_ledger_sync_event: "handle_ledger_sync_event N w ev n = Ok n' \<Longrightarrow> asks n' = asks n"
  by (auto simp: handle_ledger_sync_event_def bind_res_Ok split: RequestResponseEvent.splits option.splits
      dest!: asks_handle_chain_sync_response)

lemma asks_handle_mining_result:
  assumes "handle_mining_result N w g b n = Ok n'"
  shows "asks n' = asks n"
  using assms
proof (cases rule: handle_mining_result_Ok)
  case (applied n1 outcome)
  then show ?thesis using asks_apply_and_broadcast_block [OF applied(1)] asks_restart_mining by auto
qed simp

lemma asks_handle_swarm_event:
  assumes "handle_swarm_event N w event n = Ok n'"
  shows "asks n' = asks n"
proof (cases event)
  case (IdentifyReceived peer addrs)
  then show ?thesis using assms by (auto simp: IdentifyReceived)
qed (use assms in \<open>auto dest: asks_view.mix_handled asks_handle_ledger_gossip_event asks_handle_ledger_sync_event\<close>)

subsection \<open>What a command adds\<close>

lemma handle_command_asks:
  assumes "handle_command N w c n = Ok n'"
  shows "asks n' = (local_peer_id n, directs n @ direct_requests N c,
    filter is_lookup (outputs n) @ lookup_requests N (local_peer_id n) c, deferred_commands n, change_settings c (settings n))"
proof -
  have quiet: ?thesis if "asks n' = asks n" "direct_requests N c = []" "lookup_requests N (local_peer_id n) c = []"
    "change_settings c (settings n) = settings n"
    using that by (simp add: asks_def)
  show ?thesis
  proof (cases c)
    case (SubmitUsernameClaim tx)
    then show ?thesis using assms
      by (auto simp: asks_defs publish_def call_def emit_def Let_def split: res.splits option.splits)
  next
    case (DialPeer peer addrs)
    then have "asks n' = asks n" using assms by (auto simp: Let_def split: option.splits)
    then show ?thesis using DialPeer by (intro quiet) (simp_all add: settings_def)
  next
    case (SubmitMinedBlock b)
    then have "asks n' = asks n" using assms asks_apply_and_broadcast_block by (fastforce simp: bind_res_Ok)
    then show ?thesis using SubmitMinedBlock by (intro quiet) (simp_all add: settings_def)
  next
    case QueryChainTip
    then have "asks n' = asks n" using assms asks_view.tip_emitted by simp
    then show ?thesis using QueryChainTip by (intro quiet) (simp_all add: settings_def)
  next
    case (RetrieveFromMailbox sm)
    then have "asks n' = asks n" using assms by (auto dest: asks_view.sends_query)
    then show ?thesis using RetrieveFromMailbox by (intro quiet) (simp_all add: settings_def)
  qed (use assms in \<open>auto simp: asks_defs publish_def call_def emit_def spawn_task_def set_pending_def Let_def bind_res_Ok
      split: option.splits if_splits\<close>)
qed

lemma replay_commands_asks:
  assumes "\<forall>c \<in> set cs. needs_dht_peer c" and "replay_commands N ws i cs n = Ok n'"
  shows "asks n' = (local_peer_id n, directs n,
    filter is_lookup (outputs n) @ concat (map (lookup_requests N (local_peer_id n)) cs), deferred_commands n, settings n)"
  using assms
proof (induction cs arbitrary: i n)
  case Nil
  then show ?case by (simp add: asks_def)
next
  case (Cons c cs)
  obtain n1 where n1: "handle_command N (ws i) c n = Ok n1" "replay_commands N ws (Suc i) cs n1 = Ok n'"
    using Cons.prems(2) by (auto simp: bind_res_Ok)
  have "direct_requests N c = []" "change_settings c (settings n) = settings n" using Cons.prems(1) by (cases c; simp add: settings_def)+
  then have "asks n1 = (local_peer_id n, directs n, filter is_lookup (outputs n) @ lookup_requests N (local_peer_id n) c,
      deferred_commands n, settings n)"
    using handle_command_asks [OF n1(1)] by simp
  then show ?case using Cons.IH [OF _ n1(2)] Cons.prems(1) by (simp add: asks_def)
qed

text \<open>One turn of the loop, whatever its input.\<close>

fun taken_from :: "LoopInput \<Rightarrow> Command list" where
  "taken_from (CommandReceived c) = [c]"
| "taken_from _ = []"

definition asked_for :: "Network \<Rightarrow> Command list \<Rightarrow> Node \<Rightarrow> bool" where
  "asked_for N cs n \<longleftrightarrow> directs n = concat (map (direct_requests N) cs) \<and>
     lookups_made N n = concat (map (lookup_requests N (local_peer_id n)) cs) \<and>
     settings n = fold change_settings cs (Map.empty, False)"

definition deferral_ok :: "Node \<Rightarrow> bool" where
  "deferral_ok n \<longleftrightarrow> (dht_ready n \<longrightarrow> deferred_commands n = []) \<and> (\<forall>c \<in> set (deferred_commands n). needs_dht_peer c)"

lemma asked_for_same: "asks n' = asks n \<Longrightarrow> asked_for N cs n \<Longrightarrow> asked_for N cs n' \<and> local_peer_id n' = local_peer_id n"
  by (simp add: asks_def asked_for_def lookups_made_def pending_lookups_def)

lemma asked_for_command:
  assumes "asked_for N cs n" and "handle_command N w c n = Ok n'" and "needs_dht_peer c \<longrightarrow> deferred_commands n = []"
  shows "asked_for N (cs @ [c]) n' \<and> local_peer_id n' = local_peer_id n"
proof -
  have "\<not> needs_dht_peer c \<Longrightarrow> lookup_requests N me c = []" for me by (cases c) simp_all
  then show ?thesis using assms handle_command_asks [OF assms(2)]
    by (cases "needs_dht_peer c") (simp_all add: asks_def asked_for_def lookups_made_def pending_lookups_def)
qed

lemma asked_for_release:
  assumes "asked_for N cs n" and "deferral_ok n" and "release_deferred N ws ev n = Ok n'"
  shows "asked_for N cs n' \<and> local_peer_id n' = local_peer_id n"
proof (cases "\<not> dht_ready n \<and> is_connection ev")
  case True
  let ?n = "n\<lparr>dht_ready := True, deferred_commands := []\<rparr>"
  have "replay_commands N ws 1 (deferred_commands n) ?n = Ok n'" using assms(3) True by (simp add: release_deferred_def)
  from replay_commands_asks [OF _ this] assms(2) have "asks n' = (local_peer_id n, directs n,
      filter is_lookup (outputs n) @ pending_lookups N n, [], settings n)"
    by (simp add: deferral_ok_def pending_lookups_def directs_def settings_def)
  then show ?thesis using assms(1) by (simp add: asks_def asked_for_def lookups_made_def pending_lookups_def)
qed (use assms in \<open>auto simp: release_deferred_def\<close>)

lemma asked_for_step:
  assumes "asked_for N cs n" and "deferral_ok n" and "loop_step N ws input n = Ok (n', go)"
  shows "asked_for N (cs @ taken_from input) n' \<and> local_peer_id n' = local_peer_id n \<and>
    (go \<longleftrightarrow> input \<noteq> CommandReceived Shutdown)"
proof (cases input)
  case (CommandReceived c)
  consider "c = Shutdown" | "c \<noteq> Shutdown" "\<not> dht_ready n" "needs_dht_peer c"
    | "c \<noteq> Shutdown" "dht_ready n \<or> \<not> needs_dht_peer c" by blast
  then show ?thesis
  proof cases
    case 1
    have "change_settings Shutdown s = s" for s by (cases s) simp
    then show ?thesis using 1 assms(1,3) by (auto simp: CommandReceived asked_for_def)
  next
    case 2
    then have "direct_requests N c = []" "change_settings c s = s" for s by (cases c; cases s; simp)+
    then show ?thesis using assms(1,3) 2
      by (auto simp: CommandReceived asked_for_def directs_def lookups_made_def pending_lookups_def settings_def)
  next
    case 3
    then have "handle_command N (ws 0) c n = Ok n'" "go" using assms(3) by (auto simp: CommandReceived bind_res_Ok)
    then show ?thesis using asked_for_command [OF assms(1)] assms(2) 3 by (auto simp: CommandReceived deferral_ok_def)
  qed
next
  case (SwarmInput ev)
  obtain n1 where n1: "release_deferred N ws ev n = Ok n1" "handle_swarm_event N (ws 0) ev n1 = Ok n'" and "go"
    using assms(3) by (auto simp: SwarmInput bind_res_Ok)
  then show ?thesis
    using asked_for_release [OF assms(1,2) n1(1)] asked_for_same [OF asks_handle_swarm_event [OF n1(2)]] by (auto simp: SwarmInput)
next
  case (MiningResult generation b)
  then have m: "handle_mining_result N (ws 0) generation b n = Ok n'" and "go" using assms(3) by (auto simp: bind_res_Ok)
  then show ?thesis using asked_for_same [OF asks_handle_mining_result [OF m] assms(1)] MiningResult by simp
next
  case DummyTrafficTick
  then have same: "asks n' = asks n" and "go" using assms(3) by (auto simp: bind_res_Ok split: if_splits dest: asks_view.sends_dummy)
  then show ?thesis using asked_for_same [OF same assms(1)] DummyTrafficTick by simp
next
  case (DepositStamped d)
  then have same: "asks n' = asks n" and "go" using assms(3) by (auto simp: bind_res_Ok dest: asks_view.sends_deposit)
  then show ?thesis using asked_for_same [OF same assms(1)] DepositStamped by simp
next
  case (ForwardReady peer msg)
  then have same: "asks n' = asks n" and "go" using assms(3) by auto
  then show ?thesis using asked_for_same [OF same assms(1)] ForwardReady by simp
qed

end
