(* ===== verification/Node_Task.thy ===== *)
theory Node_Task
  imports Command_Order
begin

text \<open>
  The node object of \<^verbatim>\<open>packages/crypto-core-ffi/src/p2p_node.rs\<close> together with the task behind it: the
  calls of an application, the commands the event loop takes from its channel, whatever else the loop
  sees, and the events the application reads, in any interleaving. And the account that a recovery
  phrase brings back, up to the peer id of the node that is started with it.
\<close>

subsection \<open>Steps of the task behind a node object\<close>

text \<open>One turn of the event loop: what it emits can then be read. A task that panics stops receiving.\<close>

definition task_step :: "Boundary \<Rightarrow> World \<Rightarrow> LoopInput \<Rightarrow> FfiP2pNode \<Rightarrow> FfiP2pNode" where
  "task_step B w input h =
     (case loop_step (net B) (\<lambda>i. w) input (loop_node h) of
        Ok (n, continue) \<Rightarrow>
          h\<lparr>loop_node := n, receiving := continue,
            unread_events := unread_events h @ events_of (drop (length (outputs (loop_node h))) (outputs n))\<rparr>
      | _ \<Rightarrow> h\<lparr>receiving := False\<rparr>)"

definition take_command :: "Boundary \<Rightarrow> World \<Rightarrow> FfiP2pNode \<Rightarrow> FfiP2pNode" where
  "take_command B w h =
     (case sent_commands h of
        [] \<Rightarrow> h
      | c # cs \<Rightarrow> task_step B w (CommandReceived c) (h\<lparr>sent_commands := cs\<rparr>))"

subsection \<open>Interleavings\<close>

datatype action = Calls Command | Takes World | Sees LoopInput World | Reads

text \<open>What the two ends of the node object have seen: calls that returned \<^verbatim>\<open>Ok\<close>, events that the loop
  emitted, and events the application was shown.\<close>

record Log =
  accepted :: "Command list"
  emitted :: "P2pEvent list"
  shown :: "FfiP2pEvent list"

definition emitted_by :: "FfiP2pNode \<Rightarrow> FfiP2pNode \<Rightarrow> P2pEvent list" where
  "emitted_by h h' = drop (length (unread_events h)) (unread_events h')"

fun act :: "Boundary \<Rightarrow> action \<Rightarrow> FfiP2pNode \<times> Log \<Rightarrow> FfiP2pNode \<times> Log" where
  "act B (Calls c) (h, l) =
     (let (h', r) = ffi_send c h in (h', if r = Ok () then l\<lparr>accepted := accepted l @ [c]\<rparr> else l))"
| "act B (Takes w) (h, l) =
     (if receiving h \<and> sent_commands h \<noteq> [] then
        let h' = take_command B w h in (h', l\<lparr>emitted := emitted l @ emitted_by h h'\<rparr>)
      else (h, l))"
| "act B (Sees input w) (h, l) =
     (if receiving h \<and> (\<forall>c. input \<noteq> CommandReceived c) then
        let h' = task_step B w input h in (h', l\<lparr>emitted := emitted l @ emitted_by h h'\<rparr>)
      else (h, l))"
| "act B Reads (h, l) =
     (case ffi_next_event B h of
        Some (h', Some e) \<Rightarrow> (h', l\<lparr>shown := shown l @ [e]\<rparr>)
      | _ \<Rightarrow> (h, l))"

definition drive :: "Boundary \<Rightarrow> action list \<Rightarrow> FfiP2pNode \<times> Log \<Rightarrow> FfiP2pNode \<times> Log" where
  "drive B = fold (act B)"

text \<open>What an action can add to the heights and generations of the node; a command brings at most one block.\<close>

fun action_weight :: "Network \<Rightarrow> action \<Rightarrow> nat" where
  "action_weight N (Takes w) = 3"
| "action_weight N (Sees input w) = input_weight N input"
| "action_weight N _ = 0"

fun action_admissible :: "Network \<Rightarrow> action \<Rightarrow> bool" where
  "action_admissible N (Calls c) = input_admissible N (CommandReceived c)"
| "action_admissible N (Sees input w) = input_admissible N input"
| "action_admissible N _ = True"

text \<open>The calls accepted so far are those in \<open>cs\<close>, whose effects can be seen, and those that still wait in
  the channel; the events emitted are those shown and those that can still be read.\<close>

definition in_order :: "Boundary \<Rightarrow> nat \<Rightarrow> Command list \<Rightarrow> FfiP2pNode \<times> Log \<Rightarrow> bool" where
  "in_order B k cs = (\<lambda>(h, l).
     node_ok (net B) k (loop_node h) \<and> asked_for (net B) cs (loop_node h) \<and> local_peer_id (loop_node h) = own_peer_id h \<and>
     (\<forall>c \<in> set (sent_commands h). input_admissible (net B) (CommandReceived c)) \<and>
     (\<exists>rest. accepted l = cs @ rest \<and> (receiving h \<longrightarrow> rest = sent_commands h)) \<and>
     (receiving h \<longleftrightarrow> Shutdown \<notin> set cs) \<and> Shutdown \<notin> set (butlast cs) \<and>
     map (ffi_event B) (emitted l) = shown l @ map (ffi_event B) (unread_events h))"

lemma node_ok_deferral: "node_ok N k n \<Longrightarrow> deferral_ok n"
  by (simp add: node_ok_def deferral_ok_def)

text \<open>A turn of the loop while the task receives.\<close>

lemma task_step_safe:
  assumes "node_ok (net B) k (loop_node h)" and "asked_for (net B) cs (loop_node h)" and "sphinx_returns (net B)"
    and "input_admissible (net B) input" and "k + input_weight (net B) input < 2 ^ 64 - 3"
  obtains n where "task_step B w input h = h\<lparr>loop_node := n, receiving := (input \<noteq> CommandReceived Shutdown),
      unread_events := unread_events h @ events_of (drop (length (outputs (loop_node h))) (outputs n))\<rparr>"
    and "node_ok (net B) (k + input_weight (net B) input) n" and "asked_for (net B) (cs @ taken_from input) n"
    and "local_peer_id n = local_peer_id (loop_node h)"
proof -
  obtain n go where n: "loop_step (net B) (\<lambda>i. w) input (loop_node h) = Ok (n, go)"
    "node_ok (net B) (k + input_weight (net B) input) n"
    using loop_step_safe [OF assms(1,5,4,3)] by metis
  from asked_for_step [OF assms(2) node_ok_deferral [OF assms(1)] n(1)] n that [of n] show ?thesis
    by (simp add: task_step_def del: loop_step.simps)
qed

lemma command_weight: "input_weight N (CommandReceived c) \<le> 3"
  by (cases c) (simp_all add: input_weight_def)

lemma in_order_takes:
  assumes "in_order B k cs (h, l)" and "sphinx_returns (net B)" and "k + 3 < 2 ^ 64 - 3"
    and "receiving h" and "sent_commands h = c # rest"
  shows "in_order B (k + 3) (cs @ [c]) (act B (Takes w) (h, l))"
proof -
  let ?h = "h\<lparr>sent_commands := rest\<rparr>" and ?input = "CommandReceived c"
  have h: "node_ok (net B) k (loop_node ?h)" "asked_for (net B) cs (loop_node ?h)" "input_admissible (net B) ?input"
    "Shutdown \<notin> set cs" "accepted l = cs @ c # rest" "local_peer_id (loop_node ?h) = own_peer_id h"
    "map (ffi_event B) (emitted l) = shown l @ map (ffi_event B) (unread_events h)"
    "\<forall>c \<in> set rest. input_admissible (net B) (CommandReceived c)"
    using assms(1,4,5) by (auto simp: in_order_def)
  have w: "k + input_weight (net B) ?input < 2 ^ 64 - 3" "k + input_weight (net B) ?input \<le> k + 3"
    using assms(3) command_weight [of "net B" c] by simp_all
  from task_step_safe [OF h(1,2) assms(2) h(3) w(1)] obtain n where
    n: "task_step B w ?input ?h = ?h\<lparr>loop_node := n, receiving := (?input \<noteq> CommandReceived Shutdown),
      unread_events := unread_events ?h @ events_of (drop (length (outputs (loop_node ?h))) (outputs n))\<rparr>"
    "node_ok (net B) (k + input_weight (net B) ?input) n" "asked_for (net B) (cs @ taken_from ?input) n"
    "local_peer_id n = local_peer_id (loop_node ?h)" by metis
  have "take_command B w h = task_step B w ?input ?h" by (simp add: take_command_def assms(5))
  then show ?thesis
    using h(4-8) n(3,4) node_ok_mono [OF n(2) w(2)] assms(4,5) by (auto simp: in_order_def Let_def emitted_by_def n(1))
qed

lemma in_order_sees:
  assumes "in_order B k cs (h, l)" and "sphinx_returns (net B)" and "k + input_weight (net B) input < 2 ^ 64 - 3"
    and "receiving h" and "\<forall>c. input \<noteq> CommandReceived c" and "input_admissible (net B) input"
  shows "in_order B (k + input_weight (net B) input) cs (act B (Sees input w) (h, l))"
proof -
  have h: "node_ok (net B) k (loop_node h)" "asked_for (net B) cs (loop_node h)" using assms(1) by (simp_all add: in_order_def)
  from task_step_safe [OF h assms(2,6,3)] obtain n where
    n: "task_step B w input h = h\<lparr>loop_node := n, receiving := (input \<noteq> CommandReceived Shutdown),
      unread_events := unread_events h @ events_of (drop (length (outputs (loop_node h))) (outputs n))\<rparr>"
    "node_ok (net B) (k + input_weight (net B) input) n" "asked_for (net B) (cs @ taken_from input) n"
    "local_peer_id n = local_peer_id (loop_node h)" by metis
  have "taken_from input = []" using assms(5) by (cases input) simp_all
  then show ?thesis using assms(1,4,5) n by (auto simp: in_order_def Let_def emitted_by_def)
qed

lemma in_order_act:
  assumes "in_order B k cs (h, l)" and "sphinx_returns (net B)" and "action_admissible (net B) a"
    and "k + action_weight (net B) a < 2 ^ 64 - 3"
  shows "\<exists>cs'. in_order B (k + action_weight (net B) a) cs' (act B a (h, l))"
proof -
  have idle: "in_order B (k + m) cs (h, l)" for m
    using assms(1) node_ok_mono [of "net B" k "loop_node h" "k + m"] by (auto simp: in_order_def)
  show ?thesis
  proof (cases a)
    case (Calls c)
    have "in_order B k cs (act B a (h, l))" using assms(1,3) by (auto simp: Calls ffi_send_def in_order_def)
    then show ?thesis by (auto simp: Calls)
  next
    case (Takes w)
    show ?thesis
    proof (cases "receiving h \<and> sent_commands h \<noteq> []")
      case True
      then obtain c rest where "sent_commands h = c # rest" by (cases "sent_commands h") auto
      then show ?thesis using in_order_takes [OF assms(1,2)] True assms(4) unfolding Takes by fastforce
    next
      case False
      then have "act B a (h, l) = (h, l)" unfolding Takes by (simp only: act.simps if_False)
      then show ?thesis using idle [of 3] by (auto simp: Takes)
    qed
  next
    case (Sees input w)
    show ?thesis
    proof (cases "receiving h \<and> (\<forall>c. input \<noteq> CommandReceived c)")
      case True
      then show ?thesis using in_order_sees [OF assms(1,2)] assms(3,4) unfolding Sees by fastforce
    next
      case False
      then have "act B a (h, l) = (h, l)" unfolding Sees by (simp only: act.simps if_False)
      then show ?thesis using idle by (auto simp: Sees)
    qed
  next
    case Reads
    have "in_order B k cs (act B a (h, l))"
      using assms(1) by (auto simp: Reads ffi_next_event_def in_order_def split: list.split)
    then show ?thesis by (auto simp: Reads)
  qed
qed

lemma in_order_drive:
  assumes "in_order B k cs s" and "sphinx_returns (net B)" and "\<forall>a \<in> set as. action_admissible (net B) a"
    and "k + sum_list (map (action_weight (net B)) as) < 2 ^ 64 - 3"
  shows "\<exists>k' cs'. in_order B k' cs' (drive B as s)"
  using assms(1,3,4)
proof (induction as arbitrary: k cs s)
  case (Cons a as)
  obtain h l where s: "s = (h, l)" by (cases s)
  obtain cs' where "in_order B (k + action_weight (net B) a) cs' (act B a s)"
    using in_order_act [OF Cons.prems(1) [unfolded s] assms(2), of a] Cons.prems(2,3) unfolding s by auto
  from Cons.IH [OF this] Cons.prems(2,3) show ?case by (simp add: drive_def add.assoc)
qed (auto simp: drive_def)

lemma spawned_in_order:
  assumes "ffi_spawn B setup seed = Ok h" and "ledger_file setup = empty_database" and "ledger_ok setup"
    and "block_hash (prims (net B)) (genesis (prims (net B))) \<noteq> ZERO"
  shows "in_order B 0 [] (h, \<lparr> accepted = [], emitted = unread_events h, shown = [] \<rparr>)"
proof -
  obtain n addresses where n: "spawn_with_bootstrap (net B) setup seed addresses = Ok n" and h: "h = \<lparr> own_peer_id = local_peer_id n,
      sent_commands = [], receiving = True, unread_events = events_of (outputs n), loop_node = n \<rparr>"
    using assms(1) by (auto simp: ffi_spawn_def spawn_def bind_res_Ok split: if_splits)
  obtain peer secret public store mailbox where init: "n = join_dht addresses (initial_node peer secret public store mailbox)"
    using spawned_initial [OF n] by metis
  have "asks n = asks (initial_node peer secret public store mailbox)" unfolding init by simp
  then have "asked_for (net B) [] n"
    by (simp add: asks_defs initial_node_def asked_for_def lookups_made_def pending_lookups_def TCP_ADDRESS_def QUIC_ADDRESS_def)
  then show ?thesis using spawned_ok [OF n assms(2-4)] by (simp add: in_order_def h)
qed

text \<open>C18: however calls, the event loop and reads interleave, commands take effect in the order in which
  their calls were accepted, each once, and none is lost while the node runs. The requests the loop has
  sent are, in this order, those of the accepted commands that it took from its channel: at once for an
  envelope, a blob, a chain sync, a relay slot, a deposit or a claim, and for the hash table either sent
  or still waiting for the first connection; the blobs it serves and its cover traffic are as the last
  of these commands set them. The commands not taken are those in the channel, until a shutdown is taken,
  which is the last; after it every call is refused. Events are shown once, in the order in which they
  were emitted, and the end is reported only when all of them have been shown.\<close>

theorem calls_handled_in_order:
  assumes "ffi_spawn B setup seed = Ok h" and "ledger_file setup = empty_database" and "ledger_ok setup"
    and "block_hash (prims (net B)) (genesis (prims (net B))) \<noteq> ZERO" and "sphinx_returns (net B)"
    and "\<forall>a \<in> set as. action_admissible (net B) a" and "sum_list (map (action_weight (net B)) as) < 2 ^ 64 - 3"
    and "drive B as (h, \<lparr> accepted = [], emitted = unread_events h, shown = [] \<rparr>) = (h', l)"
  shows "\<exists>cs rest. accepted l = cs @ rest \<and> (receiving h' \<longrightarrow> rest = sent_commands h') \<and>
    filter is_direct (outputs (loop_node h')) = concat (map (direct_requests (net B)) cs) \<and>
    filter is_lookup (outputs (loop_node h')) @
      concat (map (lookup_requests (net B) (own_peer_id h')) (deferred_commands (loop_node h'))) =
      concat (map (lookup_requests (net B) (own_peer_id h')) cs) \<and>
    (dht_ready (loop_node h') \<longrightarrow> deferred_commands (loop_node h') = []) \<and>
    (local_blobs (loop_node h'), mix_dummy_traffic_active (loop_node h')) = fold change_settings cs (Map.empty, False) \<and>
    Shutdown \<notin> set (butlast cs) \<and> (receiving h' \<longleftrightarrow> Shutdown \<notin> set cs) \<and>
    (Shutdown \<in> set cs \<longrightarrow> (\<forall>c. ffi_send c h' = (h', Err (FfiP2p ''the p2p node has shut down'')))) \<and>
    (\<exists>unread. map (ffi_event B) (emitted l) = shown l @ unread) \<and>
    (ffi_next_event B h' = Some (h', None) \<longrightarrow> shown l = map (ffi_event B) (emitted l))"
proof -
  obtain k cs where "in_order B k cs (h', l)"
    using in_order_drive [OF spawned_in_order [OF assms(1-4)] assms(5,6)] assms(7) unfolding assms(8) by auto
  then have node: "node_ok (net B) k (loop_node h')" and asked: "asked_for (net B) cs (loop_node h')"
    and me: "local_peer_id (loop_node h') = own_peer_id h'"
    and order: "\<exists>rest. accepted l = cs @ rest \<and> (receiving h' \<longrightarrow> rest = sent_commands h')"
    and stop: "Shutdown \<notin> set (butlast cs)" "receiving h' \<longleftrightarrow> Shutdown \<notin> set cs"
    and read: "map (ffi_event B) (emitted l) = shown l @ map (ffi_event B) (unread_events h')"
    unfolding in_order_def by blast+
  have "dht_ready (loop_node h') \<longrightarrow> deferred_commands (loop_node h') = []" using node by (simp add: node_ok_def)
  moreover have "Shutdown \<in> set cs \<longrightarrow> (\<forall>c. ffi_send c h' = (h', Err (FfiP2p ''the p2p node has shut down'')))"
    using stop(2) by (simp add: ffi_send_def)
  moreover have "ffi_next_event B h' = Some (h', None) \<longrightarrow> shown l = map (ffi_event B) (emitted l)"
    using read by (auto simp: ffi_next_event_def split: list.splits)
  moreover have "\<exists>unread. map (ffi_event B) (emitted l) = shown l @ unread" using read by blast
  moreover note asked [unfolded asked_for_def directs_def lookups_made_def pending_lookups_def settings_def me]
  ultimately show ?thesis using order stop by blast
qed

definition sample_boundary :: Boundary where
  "sample_boundary = \<lparr> net = toy_network, peer_text = id, peer_parse = Ok, addr_parse_error = (\<lambda>t. []),
     tx_encode_error = (\<lambda>t. []), tx_decode_error = (\<lambda>t. []), block_decode_error = (\<lambda>t. []) \<rparr>"

text \<open>Two calls for the hash table, one for an envelope and a shutdown; the first connection comes between
  the third and the fourth.\<close>

definition sample_calls :: "Command list" where
  "sample_calls = [ResolveUsername [1], SendEnvelope [2] [5], ResolveUsername [3], Shutdown]"

definition sample_actions :: "action list" where
  "sample_actions =
     map Calls sample_calls @ [Takes toy_world, Takes toy_world, Takes toy_world,
      Sees (SwarmInput (ConnectionEstablished [2])) toy_world, Takes toy_world, Calls QueryChainTip]"

lemma spawned_idle:
  assumes "ffi_spawn B setup seed = Ok h"
  shows "receiving h" and "sent_commands h = []" and "\<not> dht_ready (loop_node h)" and "deferred_commands (loop_node h) = []"
proof -
  obtain n addresses where n: "spawn_with_bootstrap (net B) setup seed addresses = Ok n" and h: "h = \<lparr> own_peer_id = local_peer_id n,
      sent_commands = [], receiving = True, unread_events = events_of (outputs n), loop_node = n \<rparr>"
    using assms by (auto simp: ffi_spawn_def spawn_def bind_res_Ok split: if_splits)
  obtain store where "core n = ([], mining_new, store, False, [])" using spawned_core [OF n] by metis
  then show "receiving h" "sent_commands h = []" "\<not> dht_ready (loop_node h)" "deferred_commands (loop_node h) = []"
    by (simp_all add: h core_def)
qed

lemma sample_node:
  assumes "length seed = 32"
  shows "\<exists>h. ffi_spawn sample_boundary sample_setup seed = Ok h"
proof -
  obtain addresses where a: "public_dht_bootstrap_addresses toy_network = Ok addresses"
    by (simp add: public_dht_bootstrap_addresses_def public_dht_bootstrap_texts_def toy_network_def)
  have "\<exists>n. spawn_with_bootstrap toy_network sample_setup seed addresses = Ok n" by (rule sample_spawn_any [OF assms])
  then show ?thesis using assms by (auto simp: ffi_spawn_def spawn_def sample_boundary_def a)
qed

lemma sample_drive:
  assumes "receiving h" and "sent_commands h = []" and "\<not> dht_ready (loop_node h)" and "deferred_commands (loop_node h) = []"
  shows "\<exists>h' l. drive sample_boundary sample_actions (h, \<lparr> accepted = [], emitted = unread_events h, shown = [] \<rparr>) = (h', l) \<and>
    accepted l = sample_calls \<and> \<not> receiving h' \<and> own_peer_id h' = own_peer_id h"
  using assms
  by (simp add: sample_actions_def sample_calls_def drive_def ffi_send_def take_command_def task_step_def release_deferred_def
      call_def emit_def set_pending_def Let_def)

lemma calls_handled_in_order_witness:
  "\<exists>h h' l. ffi_spawn sample_boundary sample_setup (replicate 32 1) = Ok h \<and>
    drive sample_boundary sample_actions (h, \<lparr> accepted = [], emitted = unread_events h, shown = [] \<rparr>) = (h', l) \<and>
    filter is_direct (outputs (loop_node h')) = [Call (EnvelopeRequest [2] [5])] \<and>
    filter is_lookup (outputs (loop_node h')) @
      concat (map (lookup_requests toy_network (own_peer_id h')) (deferred_commands (loop_node h'))) =
      [Call (KadGetRecord (username_record_key toy_network [1])), Call (KadGetRecord (username_record_key toy_network [3]))]"
proof -
  obtain h where h: "ffi_spawn sample_boundary sample_setup (replicate 32 1) = Ok h" using sample_node [of "replicate 32 1"] by auto
  have N: "net sample_boundary = toy_network" by (simp add: sample_boundary_def)
  have fresh: "ledger_file sample_setup = empty_database" "ledger_ok sample_setup" by (simp_all add: sample_setup_def)
  have cond: "block_hash (prims (net sample_boundary)) (genesis (prims (net sample_boundary))) \<noteq> ZERO"
    "sphinx_returns (net sample_boundary)" "\<forall>a \<in> set sample_actions. action_admissible (net sample_boundary) a"
    "sum_list (map (action_weight (net sample_boundary)) sample_actions) < 2 ^ 64 - 3"
    unfolding N using sample_nonzero(1) toy_network_returns
    by (simp_all add: sample_actions_def sample_calls_def input_admissible_def input_weight_def)
  from spawned_idle [OF h] obtain h' l where
    r: "drive sample_boundary sample_actions (h, \<lparr> accepted = [], emitted = unread_events h, shown = [] \<rparr>) = (h', l)"
    and l: "accepted l = sample_calls" and e: "\<not> receiving h'"
    using sample_drive by blast
  obtain cs rest where cs: "accepted l = cs @ rest" "Shutdown \<in> set cs"
    and made: "filter is_direct (outputs (loop_node h')) = concat (map (direct_requests toy_network) cs)"
      "filter is_lookup (outputs (loop_node h')) @
        concat (map (lookup_requests toy_network (own_peer_id h')) (deferred_commands (loop_node h'))) =
        concat (map (lookup_requests toy_network (own_peer_id h')) cs)"
    using calls_handled_in_order [OF h fresh cond r] e unfolding N by blast
  have "cs = sample_calls" using cs unfolding l by (auto simp: sample_calls_def append_eq_Cons_conv Cons_eq_append_conv)
  then show ?thesis using h r made by (auto simp: sample_calls_def)
qed

subsection \<open>A recovered account\<close>

text \<open>\<^verbatim>\<open>libp2p\<close>'s Ed25519 keys: the key pair made from a seed has the public key that \<^verbatim>\<open>ed25519-dalek\<close>
  derives from the seed.\<close>

definition key_laws :: "Network \<Rightarrow> bool" where
  "key_laws N \<longleftrightarrow> (\<forall>seed kp. ed_keypair N seed = Ok kp \<longrightarrow> ed_try_public N (ed_public (prims N) seed) = Ok (keypair_public N kp))"

lemma join_dht_peer [simp]: "local_peer_id (join_dht addrs n) = local_peer_id n"
proof -
  have "local_peer_id (foldl (\<lambda>n addr. case peer_id_of addr of Some peer \<Rightarrow> call (KadAddAddress peer addr) n | None \<Rightarrow> n) n addrs) =
      local_peer_id n"
    by (induction addrs arbitrary: n) (simp_all add: call_def split: option.split)
  then show ?thesis by (simp add: join_dht_def call_def Let_def)
qed

lemma spawned_peer:
  assumes "spawn N w seed = Ok n"
  shows "\<exists>kp. ed_keypair N seed = Ok kp \<and> local_peer_id n = to_peer_id N (keypair_public N kp)"
proof -
  obtain addresses kp where "keypair_from_seed N seed = Ok kp" and "spawn_with_bootstrap N w seed addresses = Ok n"
    using assms by (auto simp: spawn_def spawn_with_bootstrap_def bind_res_Ok)
  moreover from this obtain secret public store mailbox where
    "n = join_dht addresses (initial_node (to_peer_id N (keypair_public N kp)) secret public store mailbox)"
    by (auto simp: spawn_with_bootstrap_def bind_res_Ok case_prod_beta)
  ultimately show ?thesis by (auto simp: keypair_from_seed_def initial_node_def)
qed

text \<open>C27: an account recovered from its written phrase is the same account: the words give back the seed,
  the identity with its public key and the fingerprint others compare, and a node started with the
  seed has the peer id that anyone derives from that public key.\<close>

theorem recovered_account_same:
  assumes "bip39_laws (prims (net B))" and "ed25519_laws (prims (net B))" and "key_laws (net B)"
    and "16 \<le> length random"
    and "ph = ffi_phrase_generate (prims (net B)) random"
    and "seed = ffi_phrase_derive_identity_seed (prims (net B)) ph"
  shows "ffi_phrase_from_words (prims (net B)) (ffi_phrase_words ph) = Ok ph \<and>
    (\<exists>kp. ffi_identity_from_secret_bytes seed = Ok kp \<and> ffi_identity_secret_bytes kp = seed \<and>
      identity_fingerprint_of_public_key (prims (net B)) (ffi_identity_public_key_bytes (prims (net B)) kp) =
        Ok (ffi_identity_fingerprint (prims (net B)) kp) \<and>
      (\<forall>w h. ffi_spawn B w seed = Ok h \<longrightarrow>
        p2p_peer_id_from_public_key B (ffi_identity_public_key_bytes (prims (net B)) kp) = Ok (ffi_local_peer_id B h)))"
proof -
  have words: "ffi_phrase_from_words (prims (net B)) (ffi_phrase_words ph) = Ok ph"
    using assms(1,4) by (simp add: assms(5) ffi_phrase_from_words_def ffi_phrase_words_def ffi_phrase_generate_def
        phrase_parse_def phrase_words_def phrase_generate_def bip39_laws_def ENTROPY_BYTES_def)
  have len: "length seed = 32"
    using assms(1) by (simp add: assms(6) ffi_phrase_derive_identity_seed_def derive_identity_seed_def
        slip10_ed25519_master_key_def bip39_laws_def)
  have peer: "p2p_peer_id_from_public_key B (ed_public (prims (net B)) seed) = Ok (ffi_local_peer_id B h)"
    if h: "ffi_spawn B w seed = Ok h" for w h
  proof -
    obtain n where n: "spawn (net B) w seed = Ok n" "own_peer_id h = local_peer_id n"
      using h by (auto simp: ffi_spawn_def bind_res_Ok split: if_splits)
    obtain kp where "ed_keypair (net B) seed = Ok kp" "local_peer_id n = to_peer_id (net B) (keypair_public (net B) kp)"
      using spawned_peer [OF n(1)] by blast
    then show ?thesis using assms(3)
      by (simp add: key_laws_def p2p_peer_id_from_public_key_def peer_id_from_public_key_def ffi_local_peer_id_def n(2))
  qed
  show ?thesis
    using words assms(2) len peer
    by (simp add: ffi_identity_from_secret_bytes_def identity_key_from_bytes_def ffi_identity_secret_bytes_def
        ffi_identity_public_key_bytes_def public_key_def identity_fingerprint_of_public_key_def identity_public_from_bytes_def
        ed25519_laws_def ffi_identity_fingerprint_def)
qed

lemma recovered_account_same_witness:
  "\<exists>h. ffi_phrase_from_words toy (ffi_phrase_words (ffi_phrase_generate toy (replicate 16 3))) =
      Ok (ffi_phrase_generate toy (replicate 16 3)) \<and>
    ffi_spawn sample_boundary sample_setup
      (ffi_phrase_derive_identity_seed toy (ffi_phrase_generate toy (replicate 16 3))) = Ok h"
proof -
  have laws: "bip39_laws (prims (net sample_boundary))" "ed25519_laws (prims (net sample_boundary))" "key_laws (net sample_boundary)"
    using toy_laws(1) by (simp_all add: sample_boundary_def bip39_laws_def key_laws_def toy_network_def) (simp_all add: toy_def)
  let ?ph = "ffi_phrase_generate toy (replicate 16 3)"
  have p: "prims (net sample_boundary) = toy" by (simp add: sample_boundary_def)
  have len: "16 \<le> length (replicate 16 (3 :: byte))" by simp
  from recovered_account_same [OF laws len refl refl] have words: "ffi_phrase_from_words toy (ffi_phrase_words ?ph) = Ok ?ph"
    unfolding p by blast
  have "length (ffi_phrase_derive_identity_seed toy ?ph) = 32"
    by (simp add: ffi_phrase_derive_identity_seed_def derive_identity_seed_def slip10_ed25519_master_key_def toy_def)
  from sample_node [OF this] words show ?thesis by blast
qed

end
