(* ===== verification/Chain_Sync.thy ===== *)
theory Chain_Sync
  imports Loop_Invariant
begin

text \<open>
  Catching up with a peer: the exchange that \<^verbatim>\<open>Command::RequestChainSync\<close> starts, run between two nodes
  of \<^verbatim>\<open>packages/p2p-core/src/node.rs\<close>. A node on the peer's branch ends on the peer's tip; one on a
  branch of its own never leaves it, however much heavier the peer's chain is.
\<close>

subsection \<open>The exchange\<close>

text \<open>The peer handles a request and its answer comes back.\<close>

definition ask_peer :: "Network \<Rightarrow> World \<Rightarrow> PeerId \<Rightarrow> ChainSyncRequest \<Rightarrow> Node \<Rightarrow> (LedgerError, ChainSyncResponse option) res" where
  "ask_peer N w sender request b =
     bind_res (loop_step N (\<lambda>i. w) (SwarmInput (LedgerSyncEvent (Request sender request 0))) b) (\<lambda>(b, _).
       Ok (case last (outputs b) of Call (SyncResponse channel response) \<Rightarrow> Some response | _ \<Rightarrow> None))"

definition response_arrives ::
  "Network \<Rightarrow> World \<Rightarrow> PeerId \<Rightarrow> RequestId \<Rightarrow> ChainSyncResponse option \<Rightarrow> Node \<Rightarrow> (LedgerError, Node) res" where
  "response_arrives N w peer rid response a =
     (case response of
        None \<Rightarrow> Ok a
      | Some response \<Rightarrow>
          bind_res (loop_step N (\<lambda>i. w) (SwarmInput (LedgerSyncEvent (Response peer rid response))) a) (\<lambda>(a, _). Ok a))"

text \<open>\<open>wb\<close> is the world of the peer, \<open>w i\<close> that of the node at its \<open>i\<close>-th step.\<close>

definition sync_round :: "Network \<Rightarrow> World \<Rightarrow> (nat \<Rightarrow> World) \<Rightarrow> PeerId \<Rightarrow> Node \<Rightarrow> Node \<Rightarrow> (LedgerError, Node) res" where
  "sync_round N wb w peer b a =
     bind_res (loop_step N (\<lambda>i. w 0) (CommandReceived (RequestChainSync peer)) a) (\<lambda>(a, _).
       case last (outputs a) of
         Call (SyncRequest _ request) \<Rightarrow>
           bind_res (ask_peer N wb (local_peer_id a) request b) (\<lambda>response.
           bind_res (response_arrives N (w 1) peer (request_id (w 0)) response a) (\<lambda>a.
             case last (outputs a) of
               Call (SyncRequest _ request) \<Rightarrow>
                 bind_res (ask_peer N wb (local_peer_id a) request b) (\<lambda>response.
                   response_arrives N (w 2) peer (request_id (w 1)) response a)
             | _ \<Rightarrow> Ok a))
       | _ \<Rightarrow> Ok a)"

subsection \<open>The peer's answers\<close>

lemma sync_outputs [simp]:
  "last (outputs (call c n)) = Call c" "last (outputs (emit e n)) = Event e" "outputs (set_pending f n) = outputs n"
  "chain_store (call c n) = chain_store n" "chain_store (emit e n) = chain_store n" "chain_store (set_pending f n) = chain_store n"
  "pending (call c n) = pending n" "pending (emit e n) = pending n" "pending (set_pending f n) = f (pending n)"
  by (simp_all add: call_def emit_def set_pending_def)

lemma sync_step:
  "loop_step N ws (SwarmInput (LedgerSyncEvent e)) n = bind_res (handle_ledger_sync_event N (ws 0) e n) (\<lambda>n. Ok (n, True))"
  by (simp add: release_deferred_def)

lemma ask_peer_Ok:
  "build_chain_sync_response (chain_store b) request = Ok response \<Longrightarrow> ask_peer N w sender request b = Ok (Some response)"
  by (simp add: ask_peer_def sync_step handle_ledger_sync_event_def del: loop_step.simps)

lemma response_arrives_Some:
  "response_arrives N w peer rid (Some response) a = handle_chain_sync_response N w rid response a"
proof -
  have "bind_res (bind_res r (\<lambda>n. Ok (n, True))) (\<lambda>(a, _). Ok a) = r" for r :: "(LedgerError, Node) res"
    by (cases r) simp_all
  then show ?thesis by (simp add: response_arrives_def sync_step handle_ledger_sync_event_def del: loop_step.simps)
qed

definition work_at_tip :: "Chain \<Rightarrow> f64" where
  "work_at_tip c = m_cumulative_work (the (meta c (tip_hash c)))"

lemma tip_facts:
  assumes "chain_inv P (chain s)" and "tip_height (chain s) = Ok h"
  shows "tip_cumulative_work s = Ok (work_at_tip (chain s))"
    and "build_chain_sync_response s GetTip = Ok (SyncTip h (tip_hash (chain s)) (work_at_tip (chain s)))"
  using assms by (auto simp: chain_inv_def heaviest_def tip_cumulative_work_def get_meta_def work_at_tip_def build_chain_sync_response_def)

lemma blocks_from_path:
  "(\<And>i. i < k \<Longrightarrow> canonical_block_at (chain s) (hgt + i) = Some (f (hgt + i))) \<Longrightarrow>
    blocks_from s hgt k = Some (map f [hgt..<hgt + k])"
proof (induction k arbitrary: hgt)
  case (Suc k)
  have "canonical_block_at (chain s) hgt = Some (f hgt)" using Suc.prems [of 0] by simp
  moreover have "blocks_from s (Suc hgt) k = Some (map f [Suc hgt..<Suc hgt + k])"
    using Suc.prems by (intro Suc.IH) (metis Suc_mono add_Suc_shift)
  ultimately show ?case by (simp add: upt_conv_Cons del: upt_Suc)
qed simp

lemma blocks_from_gap: "canonical_block_at (chain s) hgt = None \<Longrightarrow> 0 < k \<Longrightarrow> blocks_from s hgt k = None"
  by (cases k) simp_all

subsection \<open>Replaying the peer's branch\<close>

lemma validate_block_later:
  assumes "validate_block P c b t = Ok ()" and "timestamp (header b) \<le> u64_add now MAX_FUTURE_DRIFT_SECS"
  shows "validate_block P c b now = Ok ()"
  using assms unfolding validate_block_def by (simp add: bind_res_Ok del: u64_add_exact) blast

lemma path_block:
  assumes g: "grown P c" and p: "ancestors c (tip_hash c) = Ok p" and k: "0 < k" "k < length p"
  shows "\<exists>b. blocks c (p ! k) = Some b \<and> block_hash P b = p ! k \<and> canonical_block_at c k = Some b \<and>
    prev_hash (header b) = p ! (k - 1) \<and> validate_block P c b (timestamp (header b)) = Ok () \<and>
    meta c (p ! k) = Some (block_meta b (new_work c b)) \<and> p ! k \<noteq> ZERO"
proof -
  note f = grown_facts [OF g]
  obtain hm where hm: "meta c (tip_hash c) = Some hm" using ancestors_Ok_known [OF p] by blast
  obtain km where km: "meta c (p ! k) = Some km" "m_height km = k"
    using ancestors_shape [OF f(1,2) hm p] k(2) f(8) by auto
  then have "blocks c (p ! k) \<noteq> None" using f(3,8) k(1) by (simp add: body_ok_def)
  then obtain b where b: "blocks c (p ! k) = Some b" by auto
  have nf: "p ! k \<noteq> floor_hash c" using km f(2,8) k(1) by (auto simp: floored_def)
  have meta: "meta c (p ! k) = Some (block_meta b (new_work c b))"
    and valid: "validate_block P c b (timestamp (header b)) = Ok ()"
    using g b nf unfolding grown_def history_def by blast+
  obtain j where j: "k = Suc j" using k(1) by (cases k) auto
  have "prev_hash (header b) = p ! (k - 1)"
    using path_parent [OF f(1,2) p, of j] k(2) meta by (simp add: j block_meta_def)
  moreover have "canonical_index c k = Some (p ! k)" using f(5,8) p k(2) by (simp add: tip_ok_def)
  moreover have "p ! k \<noteq> ZERO" using km(1) f(1) by (auto simp: linked_def)
  ultimately show ?thesis using b meta valid f(3) by (auto simp: canonical_block_at_def body_ok_def)
qed

lemma replay_next:
  assumes g: "grown P c" and p: "ancestors c (tip_hash c) = Ok p" and heights: "heights_ok c"
    and r: "chain_inv P r" "subchain r c" and k: "0 < k" "k < length p" "p ! (k - 1) \<in> dom (meta r)"
    and b: "canonical_block_at c k = Some b" and now: "timestamp (header b) \<le> u64_add now MAX_FUTURE_DRIFT_SECS"
  shows "\<exists>r' x. try_apply P r b now = (r', Ok x) \<and> chain_inv P r' \<and> subchain r' c \<and>
    dom (meta r') = insert (p ! k) (dom (meta r)) \<and> (tip_hash r' = tip_hash r \<or> tip_hash r' = p ! k)"
proof -
  note f = grown_facts [OF g]
  from path_block [OF g p k(1,2)] b have hash: "blocks c (p ! k) = Some b" "block_hash P b = p ! k" and prev: "prev_hash (header b) = p ! (k - 1)"
    and valid: "validate_block P c b (timestamp (header b)) = Ok ()"
    and meta: "meta c (p ! k) = Some (block_meta b (new_work c b))" and nz: "block_hash P b \<noteq> ZERO" by auto
  have ri: "linked r" "floored r" "body_ok P r" using r(1) by (simp_all add: chain_inv_def)
  have hr: "heights_ok r" using heights subchain_meta [OF r(2)] by (auto simp: heights_ok_def)
  obtain m where m: "meta r (prev_hash (header b)) = Some m" using k(3) by (auto simp: prev)
  have vr: "validate_block P r b now = Ok ()"
    using validate_block_later [OF valid now] subchain_validate [OF r(2) ri f(1) m] by simp
  have w: "new_work r b = new_work c b" by (rule new_work_subchain [OF r(2) m])
  show ?thesis
  proof (cases "meta r (p ! k)")
    case (Some km)
    then have "try_apply P r b now = (r, Ok AlreadyKnown)" by (simp add: try_apply_def Let_def hash)
    then show ?thesis using r Some by (auto simp: insert_absorb domI)
  next
    case None
    have sub: "subchain (insert_block r (p ! k) b (new_work r b)) c"
    proof -
      have "(meta r)(p ! k \<mapsto> block_meta b (new_work c b)) \<subseteq>\<^sub>m meta c"
        using r(2) meta by (auto simp: subchain_def map_le_def)
      moreover have "(blocks r)(p ! k \<mapsto> b) \<subseteq>\<^sub>m blocks c" using r(2) hash(1) by (auto simp: subchain_def map_le_def)
      ultimately show ?thesis using r(2) by (simp add: subchain_def insert_block_meta w)
    qed
    have new: "meta r (block_hash P b) = None" using None by (simp add: hash)
    from r(1) hr nz new vr show ?thesis
    proof (cases rule: try_apply_valid)
      case (fork w)
      then show ?thesis using sub by (simp add: insert_block_meta hash)
    next
      case (tip w q st)
      then show ?thesis using sub by (simp add: insert_block_meta hash subchain_def)
    qed
  qed
qed

lemma store_applies:
  assumes "try_apply P (chain s) b now = (r, Ok x)" and "chain_inv P r" and "block_hash P b \<in> dom (meta r)"
  shows "\<exists>s'. store_try_apply P True s b now = (s', Ok x) \<and> chain s' = r"
proof -
  obtain m where m: "meta r (block_hash P b) = Some m" using assms(3) by blast
  obtain p h where "ancestors r (tip_hash r) = Ok p" "tip_height r = Ok h"
    using assms(2) by (auto simp: chain_inv_def tip_ok_def heaviest_def tip_height_def)
  with m show ?thesis
    using persist_after_apply_Ok [of r P b m p h "s\<lparr>chain := r\<rparr>"] assms(1)
    by (cases "x = AlreadyKnown") (simp_all add: store_try_apply_def Let_def)
qed

text \<open>The blocks of the peer's branch from some height on, applied in order.\<close>

lemma apply_synced_path:
  assumes g: "grown (prims N) c" and p: "ancestors c (tip_hash c) = Ok p" and heights: "heights_ok c"
    and io: "\<And>i. db_ok w i" and drift: "\<And>i h b. blocks c h = Some b \<Longrightarrow> timestamp (header b) \<le> u64_add (clock w i) MAX_FUTURE_DRIFT_SECS"
  shows "chain_inv (prims N) (chain (chain_store n)) \<Longrightarrow> subchain (chain (chain_store n)) c \<Longrightarrow> 0 < k \<Longrightarrow> k + m \<le> length p \<Longrightarrow>
    p ! (k - 1) \<in> dom (meta (chain (chain_store n))) \<Longrightarrow>
    \<exists>n'. apply_synced N w i (map (\<lambda>h. the (canonical_block_at c h)) [k..<k + m]) n = Ok (n', None) \<and>
      chain_inv (prims N) (chain (chain_store n')) \<and> subchain (chain (chain_store n')) c \<and>
      p ! (k + m - 1) \<in> dom (meta (chain (chain_store n'))) \<and> dom (meta (chain (chain_store n))) \<subseteq> dom (meta (chain (chain_store n'))) \<and>
      (tip_hash (chain (chain_store n')) = tip_hash (chain (chain_store n)) \<or> tip_hash (chain (chain_store n')) \<in> set p) \<and>
      outputs n' = outputs n \<and> pending n' = pending n"
proof (induction m arbitrary: n k i)
  case 0
  then show ?case by auto
next
  case (Suc m)
  let ?r = "chain (chain_store n)"
  have k: "k < length p" using Suc.prems(4) by simp
  from path_block [OF g p Suc.prems(3) k] obtain b where b: "blocks c (p ! k) = Some b" "block_hash (prims N) b = p ! k"
    "canonical_block_at c k = Some b" by blast
  obtain r' x where r': "try_apply (prims N) ?r b (clock w i) = (r', Ok x)" "chain_inv (prims N) r'" "subchain r' c"
    "dom (meta r') = insert (p ! k) (dom (meta ?r))" "tip_hash r' = tip_hash ?r \<or> tip_hash r' = p ! k"
    using replay_next [OF g p heights Suc.prems(1-3) k Suc.prems(5) b(3) drift [OF b(1)]] by blast
  obtain s' where s': "store_try_apply (prims N) True (chain_store n) b (clock w i) = (s', Ok x)" "chain s' = r'"
    using store_applies [OF r'(1,2)] r'(4) b(2) by auto
  let ?n = "n\<lparr>mempool := remove_mined N b (mempool n), chain_store := s'\<rparr>"
  obtain n' where n': "apply_synced N w (Suc i) (map (\<lambda>h. the (canonical_block_at c h)) [Suc k..<Suc k + m]) ?n = Ok (n', None)"
    "chain_inv (prims N) (chain (chain_store n'))" "subchain (chain (chain_store n')) c"
    "p ! (Suc k + m - 1) \<in> dom (meta (chain (chain_store n')))" "dom (meta r') \<subseteq> dom (meta (chain (chain_store n')))"
    "tip_hash (chain (chain_store n')) = tip_hash r' \<or> tip_hash (chain (chain_store n')) \<in> set p"
    "outputs n' = outputs n" "pending n' = pending n"
    using Suc.IH [where n = ?n and k = "Suc k" and i = "Suc i"] r' Suc.prems(4) by (auto simp: s'(2))
  have "map (\<lambda>h. the (canonical_block_at c h)) [k..<k + Suc m] = b # map (\<lambda>h. the (canonical_block_at c h)) [Suc k..<Suc k + m]"
    by (simp add: upt_conv_Cons b(3) del: upt_Suc)
  moreover have "p ! k \<in> set p" using k by simp
  ultimately show ?case using n' r'(4,5) s'(1) io [of i] by (auto simp: Let_def)
qed

subsection \<open>Catching up\<close>

lemma request_sent:
  "loop_step N ws (CommandReceived (RequestChainSync peer)) a =
    Ok (set_pending (\<lambda>p. p\<lparr>chain_sync_tip := (chain_sync_tip p)(request_id (ws 0) \<mapsto> peer)\<rparr>) (call (SyncRequest peer GetTip) a), True)"
  by simp

definition asks_blocks :: "World \<Rightarrow> World \<Rightarrow> PeerId \<Rightarrow> nat \<Rightarrow> nat \<Rightarrow> Node \<Rightarrow> Node" where
  "asks_blocks w0 w1 peer from_height wanted a =
     set_pending (\<lambda>p. p\<lparr>chain_sync_tip := (chain_sync_tip p)(request_id w0 := None),
         chain_sync_blocks := (chain_sync_blocks p)(request_id w1 \<mapsto> peer)\<rparr>)
       (call (SyncRequest peer (GetBlocks from_height wanted)) (call (SyncRequest peer GetTip) a))"

text \<open>The peer's tip is heavier, so its blocks are asked for.\<close>

lemma sync_round_asks:
  assumes a: "chain_inv P (chain (chain_store a))" "tip_height (chain (chain_store a)) = Ok own"
    and b: "chain_inv P (chain (chain_store b))" "tip_height (chain (chain_store b)) = Ok hgt"
    and heavier: "f64_lt (work_at_tip (chain (chain_store a))) (work_at_tip (chain (chain_store b)))"
    and response: "build_chain_sync_response (chain_store b)
      (GetBlocks (u64_add own 1) (min (u64_sub hgt own) MAX_SYNC_BATCH)) = Ok response"
  shows "sync_round N wb w peer b a = handle_chain_sync_response N (w 2) (request_id (w 1)) response
    (asks_blocks (w 0) (w 1) peer (u64_add own 1) (min (u64_sub hgt own) MAX_SYNC_BATCH) a)"
proof -
  let ?a1 = "set_pending (\<lambda>p. p\<lparr>chain_sync_tip := (chain_sync_tip p)(request_id (w 0) \<mapsto> peer)\<rparr>) (call (SyncRequest peer GetTip) a)"
  let ?a2 = "asks_blocks (w 0) (w 1) peer (u64_add own 1) (min (u64_sub hgt own) MAX_SYNC_BATCH) a"
  have light: "\<not> f64_le (work_at_tip (chain (chain_store b))) (work_at_tip (chain (chain_store a)))"
    using heavier by (cases "work_at_tip (chain (chain_store b))"; cases "work_at_tip (chain (chain_store a))") auto
  have "handle_chain_sync_response N (w 1) (request_id (w 0)) (SyncTip hgt (tip_hash (chain (chain_store b))) (work_at_tip (chain (chain_store b)))) ?a1 = Ok ?a2"
    using tip_facts(1) [OF a] a(2) light
    by (simp add: handle_chain_sync_response_def Let_def asks_blocks_def) (simp add: set_pending_def call_def)
  moreover have "last (outputs ?a2) = Call (SyncRequest peer (GetBlocks (u64_add own 1) (min (u64_sub hgt own) MAX_SYNC_BATCH)))"
    by (simp add: asks_blocks_def)
  moreover have "ask_peer N wb sender (GetBlocks (u64_add own 1) (min (u64_sub hgt own) MAX_SYNC_BATCH)) b = Ok (Some response)" for sender
    by (rule ask_peer_Ok [OF response])
  ultimately show ?thesis
    unfolding sync_round_def request_sent
    by (simp add: ask_peer_Ok [OF tip_facts(2) [OF b]] response_arrives_Some del: loop_step.simps)
qed

lemma served_blocks:
  assumes g: "grown P (chain s)" and p: "ancestors (chain s) (tip_hash (chain s)) = Ok p" and heights: "heights_ok (chain s)"
    and k: "0 < k" "k \<le> length p" "length p - k \<le> MAX_SYNC_BATCH"
  shows "build_chain_sync_response s (GetBlocks k (length p - k)) =
    Ok (SyncBlocks (map (\<lambda>h. the (canonical_block_at (chain s) h)) [k..<length p]))"
proof -
  obtain tm where tm: "meta (chain s) (tip_hash (chain s)) = Some tm" using ancestors_Ok_known [OF p] by blast
  have "m_height tm + 1 = length p" using ancestors_shape [OF grown_facts(1,2) [OF g] tm p] grown_facts(8) [OF g] by simp
  then have small: "length p \<le> u64_max" using heights tm by (auto simp: heights_ok_def u64_max_def dest!: spec)
  have "canonical_block_at (chain s) (k + i) = Some (the (canonical_block_at (chain s) (k + i)))" if "i < length p - k" for i
  proof -
    have "0 < k + i" "k + i < length p" using k(1) that by simp_all
    from path_block [OF g p this] show ?thesis by auto
  qed
  then have "blocks_from s k (length p - k) = Some (map (\<lambda>h. the (canonical_block_at (chain s) h)) [k..<k + (length p - k)])"
    by (rule blocks_from_path)
  then show ?thesis using k small by (simp add: build_chain_sync_response_def Let_def min_def)
qed

lemma restart_keeps:
  assumes "chain_inv (prims N) (chain (chain_store n))" and "heights_ok (chain (chain_store n))"
  shows "\<exists>m. restart_mining N w i n = Ok (n\<lparr>mining := m\<rparr>)"
proof -
  obtain m where "restart_if_active (prims N) (chain_store n) (mempool n) (clock w i) (mining n) = Ok m"
    using restart_if_active_safe [OF assms] by blast
  then show ?thesis by (auto simp: restart_mining_def)
qed

text \<open>What is served is taken over when the node stands on the peer's branch.\<close>

lemma blocks_taken:
  assumes g: "grown (prims N) c" and p: "ancestors c (tip_hash c) = Ok p" and heights: "heights_ok c"
    and io: "\<And>i. db_ok w i" and drift: "\<And>i h b. blocks c h = Some b \<Longrightarrow> timestamp (header b) \<le> u64_add (clock w i) MAX_FUTURE_DRIFT_SECS"
    and a: "chain_inv (prims N) (chain (chain_store a))" "subchain (chain (chain_store a)) c" "f64_lt (work_at_tip (chain (chain_store a))) (work_at_tip c)"
    and k: "0 < k" "k < length p" "p ! (k - 1) \<in> dom (meta (chain (chain_store a)))"
    and ids: "chain_sync_tip (pending a) rid = None" "chain_sync_blocks (pending a) rid = Some peer"
  shows "\<exists>a'. handle_chain_sync_response N w rid (SyncBlocks (map (\<lambda>h. the (canonical_block_at c h)) [k..<length p])) a = Ok a' \<and>
    chain_inv (prims N) (chain (chain_store a')) \<and> tip_hash (chain (chain_store a')) = tip_hash c \<and>
    username_owner (chain (chain_store a')) = username_owner c \<and> canonical_index (chain (chain_store a')) = canonical_index c \<and>
    last (outputs a') = Event (ChainSyncCompleted (length p - 1))"
proof -
  note f = grown_facts [OF g]
  let ?bs = "map (\<lambda>h. the (canonical_block_at c h)) [k..<length p]"
  let ?n = "set_pending (\<lambda>p. p\<lparr>chain_sync_blocks := (chain_sync_blocks p)(rid := None)\<rparr>) a"
  have "k + (length p - k) \<le> length p" using k(2) by simp
  then obtain n where n: "apply_synced N w 0 ?bs ?n = Ok (n, None)" "chain_inv (prims N) (chain (chain_store n))"
    "subchain (chain (chain_store n)) c" "p ! (length p - 1) \<in> dom (meta (chain (chain_store n)))"
    "tip_hash (chain (chain_store n)) = tip_hash (chain (chain_store a)) \<or> tip_hash (chain (chain_store n)) \<in> set p"
    using apply_synced_path [OF g p heights io drift, where n = ?n and k = k and m = "length p - k" and i = 0] a(1,2) k
    by (fastforce simp del: upt_Suc)
  let ?r = "chain (chain_store n)"
  obtain tm where tm: "meta c (tip_hash c) = Some tm" using ancestors_Ok_known [OF p] by blast
  have "last p = tip_hash c" "p \<noteq> []" using ancestors_shape [OF f(1,2) tm p] by simp_all
  then have "tip_hash c \<in> dom (meta ?r)" using n(4) by (simp add: last_conv_nth)
  then have tr: "meta ?r (tip_hash c) = Some tm" using tm subchain_meta [OF n(3)] by (metis domD)
  obtain rm where rm: "meta ?r (tip_hash ?r) = Some rm" "f64_le (m_cumulative_work tm) (m_cumulative_work rm)"
    using n(2) tr by (auto simp: chain_inv_def heaviest_def)
  have rc: "meta c (tip_hash ?r) = Some rm" by (rule subchain_meta [OF n(3) rm(1)])
  have tip: "tip_hash ?r = tip_hash c"
  proof (rule ccontr)
    assume ne: "tip_hash ?r \<noteq> tip_hash c"
    have "f64_lt (m_cumulative_work rm) (m_cumulative_work tm)"
      using n(5)
    proof
      assume same: "tip_hash ?r = tip_hash (chain (chain_store a))"
      obtain am where am: "meta (chain (chain_store a)) (tip_hash ?r) = Some am" using a(1) same by (auto simp: chain_inv_def heaviest_def)
      then have "am = rm" using subchain_meta [OF a(2)] rc by fastforce
      then show ?thesis using a(3) am tm by (simp add: work_at_tip_def flip: same)
    next
      assume "tip_hash ?r \<in> set p"
      then show ?thesis using g p ne tm rc unfolding grown_def tip_tops_def by blast
    qed
    with rm(2) show False by (cases "m_cumulative_work tm"; cases "m_cumulative_work rm") auto
  qed
  have ri: "linked ?r" "floored ?r" "body_ok (prims N) ?r" "tip_ok ?r" using n(2) by (simp_all add: chain_inv_def)
  have "state_at ?r (tip_hash c) = state_at c (tip_hash c)" by (rule subchain_state [OF n(3) ri(1-3) f(1) tr])
  then have own: "username_owner ?r = username_owner c" using ri(4) f(5) tip by (simp add: tip_ok_def)
  have "ancestors ?r (tip_hash c) = ancestors c (tip_hash c)" by (rule subchain_ancestors [OF n(3) ri(1) f(1) tr])
  then have idx: "canonical_index ?r = canonical_index c"
    using ri(4) f(5,8) n(3) p tip by (auto simp: tip_ok_def subchain_def)
  have h: "tip_height ?r = Ok (length p - 1)"
    using tip_height_path [OF g p] tm tr tip by (simp add: tip_height_def)
  let ?done = "emit (ChainSyncCompleted (length p - 1)) (emit (ChainTipChanged (length p - 1) (hash_text (tip_hash ?r))) n)"
  have ne: "tip_hash ?r \<noteq> tip_hash (chain (chain_store a))"
  proof
    assume "tip_hash ?r = tip_hash (chain (chain_store a))"
    moreover obtain am where am: "meta (chain (chain_store a)) (tip_hash (chain (chain_store a))) = Some am"
      using a(1) by (auto simp: chain_inv_def heaviest_def)
    ultimately have "am = tm" using subchain_meta [OF a(2) am] tip tm by simp
    then show False using a(3) am tm by (cases "m_cumulative_work tm") (simp_all add: work_at_tip_def)
  qed
  have "heights_ok ?r" using heights subchain_meta [OF n(3)] by (auto simp: heights_ok_def)
  then obtain m where m: "restart_mining N w (length ?bs) ?done = Ok (?done\<lparr>mining := m\<rparr>)"
    using restart_keeps [of N ?done w "length ?bs"] n(2) by auto
  have "handle_chain_sync_response N w rid (SyncBlocks ?bs) a = Ok (?done\<lparr>mining := m\<rparr>)"
    using ids n(1) h ne m by (simp add: handle_chain_sync_response_def Let_def emit_tip_def)
  then show ?thesis using n(2) tip own idx by (intro exI [of _ "?done\<lparr>mining := m\<rparr>"]) (simp add: emit_def)
qed

lemma asks_blocks_simps [simp]:
  "chain_store (asks_blocks w0 w1 peer from_height wanted a) = chain_store a"
  "chain_sync_tip (pending (asks_blocks w0 w1 peer from_height wanted a)) = (chain_sync_tip (pending a))(request_id w0 := None)"
  "chain_sync_blocks (pending (asks_blocks w0 w1 peer from_height wanted a)) = (chain_sync_blocks (pending a))(request_id w1 \<mapsto> peer)"
  by (simp_all add: asks_blocks_def)

text \<open>C10: a node that fell behind catches up. If its tip lies on the branch of a peer's tip, at most 500
  blocks below it, and it knows no block the peer does not, one exchange leaves it with the peer's
  tip, name owners and height index, with its chain invariant intact, and reports the new height.\<close>

theorem sync_catches_up:
  assumes "grown (prims N) (chain (chain_store b))" and "heights_ok (chain (chain_store b))"
    and "ancestors (chain (chain_store b)) (tip_hash (chain (chain_store b))) = Ok p"
    and "chain_inv (prims N) (chain (chain_store a))" and "subchain (chain (chain_store a)) (chain (chain_store b))"
    and "tip_hash (chain (chain_store a)) = p ! own" and "own + 1 < length p" and "length p \<le> own + 1 + MAX_SYNC_BATCH"
    and "chain_sync_tip (pending a) (request_id (w 1)) = None" and "\<forall>i. db_ok (w 2) i"
    and "\<forall>i h blk. blocks (chain (chain_store b)) h = Some blk \<longrightarrow>
      timestamp (header blk) \<le> u64_add (clock (w 2) i) MAX_FUTURE_DRIFT_SECS"
  shows "\<exists>a'. sync_round N wb w peer b a = Ok a' \<and> chain_inv (prims N) (chain (chain_store a')) \<and>
    tip_hash (chain (chain_store a')) = tip_hash (chain (chain_store b)) \<and>
    username_owner (chain (chain_store a')) = username_owner (chain (chain_store b)) \<and>
    canonical_index (chain (chain_store a')) = canonical_index (chain (chain_store b)) \<and>
    last (outputs a') = Event (ChainSyncCompleted (length p - 1))"
proof -
  let ?ca = "chain (chain_store a)" and ?cb = "chain (chain_store b)"
  note f = grown_facts [OF assms(1)]
  obtain am where am: "meta ?ca (p ! own) = Some am" using assms(4,6) by (auto simp: chain_inv_def heaviest_def)
  have amb: "meta ?cb (p ! own) = Some am" by (rule subchain_meta [OF assms(5) am])
  obtain tm where tm: "meta ?cb (tip_hash ?cb) = Some tm" using ancestors_Ok_known [OF assms(3)] by blast
  note shape = ancestors_shape [OF f(1,2) tm assms(3)]
  have heights: "m_height am = own" "m_height tm + 1 = length p" 
  proof -
    obtain mi where "meta ?cb (p ! own) = Some mi" "m_height mi = own" using shape f(8) assms(7) by (metis add_lessD1 add_0)
    then show "m_height am = own" using amb by simp
    show "m_height tm + 1 = length p" using shape f(8) by simp
  qed
  then have own: "tip_height ?ca = Ok own" and hgt: "tip_height ?cb = Ok (length p - 1)"
    using am assms(6) tip_height_path [OF assms(1,3)] by (simp_all add: tip_height_def)
  have "length p < 2 ^ 64" using assms(2) tm heights(2) by (auto simp: heights_ok_def dest!: spec)
  then have small: "u64_add own 1 = own + 1" "u64_sub (length p - 1) own = length p - 1 - own"
    using assms(7) by (auto simp: u64_sub_exact)
  have wanted: "min (u64_sub (length p - 1) own) MAX_SYNC_BATCH = length p - (own + 1)" unfolding small(2) using assms(8) by simp
  have "p ! own \<noteq> last p"
  proof -
    have "p \<noteq> []" using shape by blast
    then show ?thesis
      using ancestors_distinct [OF f(1,2) assms(3)] assms(7) by (simp add: last_conv_nth nth_eq_iff_index_eq)
  qed
  then have "p ! own \<noteq> tip_hash ?cb" using shape by simp
  moreover have "p ! own \<in> set p" using assms(7) by simp
  ultimately have work: "f64_lt (work_at_tip ?ca) (work_at_tip ?cb)"
    using assms(1,3) amb tm am unfolding grown_def tip_tops_def work_at_tip_def assms(6) by simp
  have served: "build_chain_sync_response (chain_store b) (GetBlocks (u64_add own 1) (min (u64_sub (length p - 1) own) MAX_SYNC_BATCH)) =
      Ok (SyncBlocks (map (\<lambda>h. the (canonical_block_at ?cb h)) [own + 1..<length p]))"
    unfolding wanted unfolding small(1) using assms(7,8) by (intro served_blocks [OF assms(1,3,2)]) simp_all
  have "chain_inv (prims N) ?cb" using assms(1) by (simp add: grown_def)
  note round = sync_round_asks [OF assms(4) own this hgt work served, where N = N and w = w]
  show ?thesis
    unfolding round
    by (rule blocks_taken [OF assms(1,3,2)]) (use assms(4,5,7,9-11) work am in \<open>auto simp: wanted\<close>)
qed

lemma sample_path:
  defines "c \<equiv> fst (try_apply toy (new_chain toy) sample_block 1750000300)"
  shows "grown toy c \<and> heights_ok c \<and> tip_hash c = block_hash toy sample_block \<and>
    ancestors c (block_hash toy sample_block) = Ok [block_hash toy (genesis toy), block_hash toy sample_block] \<and>
    blocks c = (blocks (new_chain toy))(block_hash toy sample_block \<mapsto> sample_block)"
proof -
  let ?g = "block_hash toy (genesis toy)" and ?h = "block_hash toy sample_block"
  have grown: "grown toy c" unfolding c_def
    by (rule grown_step [OF grown_new [OF sample_nonzero(1)] sample_heights sample_nonzero(2)])
      (simp add: sample_block_def MAX_FUTURE_DRIFT_SECS_def)
  note f = grown_facts [OF grown]
  have "tip_hash c = ?h \<and> blocks c = (blocks (new_chain toy))(?h \<mapsto> sample_block) \<and>
      (\<exists>w. meta c = (meta (new_chain toy))(?h \<mapsto> block_meta sample_block w))"
    using sample_genesis_inv sample_heights sample_nonzero(2) sample_new sample_valid
  proof (cases rule: try_apply_valid)
    case (tip w p st)
    then show ?thesis by (auto simp: c_def insert_block_def block_meta_def)
  qed (use sample_extends in simp_all)
  then obtain w where c: "tip_hash c = ?h" "blocks c = (blocks (new_chain toy))(?h \<mapsto> sample_block)"
    "meta c = (meta (new_chain toy))(?h \<mapsto> block_meta sample_block w)" by blast
  obtain p where p: "ancestors c (tip_hash c) = Ok p" using f(5) by (auto simp: tip_ok_def)
  have m: "meta c ?h = Some (block_meta sample_block w)" "m_height (block_meta sample_block w) = 1"
    by (simp_all add: c(3) block_meta_def) (simp add: sample_block_def)
  have p': "length p = 2" "hd p = ?g" "last p = ?h"
    using ancestors_shape [OF f(1,2) m(1)] p m(2) f(7,8) by (simp_all add: c(1))
  then have "p = [?g, ?h]" by (cases p; cases "tl p") auto
  moreover have "heights_ok c"
    using sample_heights m(2) by (auto simp: heights_ok_def c(3))
  ultimately show ?thesis using grown c p by simp
qed

lemma sync_catches_up_witness:
  "\<exists>a b a'. tip_hash (chain (chain_store a)) = block_hash toy (genesis toy) \<and>
    sync_round toy_network toy_world (\<lambda>i. toy_world\<lparr>clock := \<lambda>i. 1750000300\<rparr>) [2] b a = Ok a' \<and>
    tip_hash (chain (chain_store a')) = block_hash toy sample_block"
proof -
  let ?c = "fst (try_apply toy (new_chain toy) sample_block 1750000300)" and ?g = "block_hash toy (genesis toy)"
  let ?w = "\<lambda>i :: nat. toy_world\<lparr>clock := \<lambda>i. 1750000300\<rparr>"
  have path: "grown toy ?c" "heights_ok ?c" "tip_hash ?c = block_hash toy sample_block"
    "ancestors ?c (block_hash toy sample_block) = Ok [?g, block_hash toy sample_block]"
    "blocks ?c = (blocks (new_chain toy))(block_hash toy sample_block \<mapsto> sample_block)"
    using sample_path by blast+
  obtain n where "spawn_with_bootstrap toy_network sample_setup (replicate 32 1) [] = Ok n" using sample_spawn by blast
  have "timestamp (header sample_block) = 1750000300" by (simp add: sample_block_def)
  then have drift: "\<forall>i h blk. blocks ?c h = Some blk \<longrightarrow> timestamp (header blk) \<le> u64_add (clock (?w 2) i) MAX_FUTURE_DRIFT_SECS"
    using path(5) by (auto simp: new_chain_def Let_def genesis_def GENESIS_TIMESTAMP_def MAX_FUTURE_DRIFT_SECS_def split: if_splits)
  let ?a = "n\<lparr>chain_store := (chain_store n)\<lparr>chain := new_chain toy\<rparr>, pending := no_pending\<rparr>"
  let ?b = "n\<lparr>chain_store := (chain_store n)\<lparr>chain := ?c\<rparr>\<rparr>"
  have sub: "subchain (new_chain toy) ?c" using path(1) by (simp add: grown_def)
  have "\<exists>a'. sync_round toy_network toy_world ?w [2] ?b ?a = Ok a' \<and> chain_inv (prims toy_network) (chain (chain_store a')) \<and>
    tip_hash (chain (chain_store a')) = tip_hash (chain (chain_store ?b)) \<and>
    username_owner (chain (chain_store a')) = username_owner (chain (chain_store ?b)) \<and>
    canonical_index (chain (chain_store a')) = canonical_index (chain (chain_store ?b)) \<and>
    last (outputs a') = Event (ChainSyncCompleted (length [?g, block_hash toy sample_block] - 1))"
    by (rule sync_catches_up [where own = 0])
      (use path(1-3) path(4) sub drift sample_genesis_inv in
        \<open>simp_all add: sample_floor MAX_SYNC_BATCH_def no_pending_def toy_world_def\<close>)
  moreover have "tip_hash (chain (chain_store ?a)) = ?g" by (simp add: sample_floor)
  moreover have "tip_hash (chain (chain_store ?b)) = block_hash toy sample_block" using path(3) by simp
  ultimately show ?thesis by metis
qed

text \<open>A batch that begins with a block whose parent is not known changes no chain.\<close>

lemma served_block_nonzero:
  assumes "chain_inv P c" and "canonical_block_at c hgt = Some b"
  shows "block_hash P b \<noteq> ZERO"
proof -
  obtain h where "blocks c h = Some b" using assms(2) by (auto simp: canonical_block_at_def bind_eq_Some_conv)
  then have "meta c (block_hash P b) \<noteq> None" using assms(1) by (auto simp: chain_inv_def body_ok_def)
  then show ?thesis using assms(1) by (auto simp: chain_inv_def linked_def)
qed

lemma orphans_change_nothing:
  assumes "chain_inv (prims N) (chain s)" and "heights_ok (chain s)" and "block_hash (prims N) blk \<noteq> ZERO"
    and "meta (chain s) (prev_hash (header blk)) = None \<and> meta (chain s) (block_hash (prims N) blk) = None"
  obtains e where "\<And>n. chain_store n = s \<Longrightarrow>
    apply_synced N w 0 (blk # rest) n = Ok (n\<lparr>mempool := remove_mined N blk (mempool n)\<rparr>, Some e)"
proof -
  obtain e where e: "try_apply (prims N) (chain s) blk (clock w 0) = (chain s, Err e)"
    using assms(1-3)
  proof (cases rule: try_apply_cases [where now = "clock w 0"])
    case valid
    then show ?thesis using assms(4) by (auto elim: validate_block_OkD)
  qed (use assms(4) that in auto)
  show ?thesis by (rule that [of e]) (simp add: e Let_def store_try_apply_def)
qed

text \<open>A fork: one node's own block on the genesis block, and a branch of two other blocks.\<close>

definition plain_block :: "nat \<Rightarrow> Hash32 \<Rightarrow> nat \<Rightarrow> Block" where
  "plain_block h prev t = \<lparr> header = \<lparr> version = 1, height = h, prev_hash = prev, timestamp = t,
     tx_commitment = compute_tx_commitment toy [], difficulty_target = INITIAL_DIFFICULTY_BITS, nonce = 0,
     miner_public_key = replicate 32 0 \<rparr>, transactions = [] \<rparr>"

definition fork1 :: Block where
  "fork1 = plain_block 1 (block_hash toy (genesis toy)) 1750000300"

definition fork2 :: Block where
  "fork2 = plain_block 2 (block_hash toy fork1) 1750000600"

lemma plain_block_simps [simp]:
  "header (plain_block h prev t) = \<lparr> version = 1, height = h, prev_hash = prev, timestamp = t,
     tx_commitment = compute_tx_commitment toy [], difficulty_target = INITIAL_DIFFICULTY_BITS, nonce = 0,
     miner_public_key = replicate 32 0 \<rparr>"
  "transactions (plain_block h prev t) = []"
  by (simp_all add: plain_block_def)

definition own1 :: Block where
  "own1 = plain_block 1 (block_hash toy (genesis toy)) 1750000301"

lemma plain_hash: "block_hash toy (plain_block h prev t) = Hash32 (replicate 31 0 @
    [0x1c + sum_list (le_bytes 8 h) + sum_list (hash_bytes prev) + sum_list (le_bytes 8 t)])"
  unfolding block_hash_def plain_block_simps
  by (simp add: header_hash_def hash_of_def header_canonical_bytes_def INITIAL_DIFFICULTY_BITS_def sum_list_replicate
    compute_tx_commitment_def ZERO_def del: le_bytes.simps) (simp add: add_ac, simp add: iszero_def take_bit_eq_mod)

lemma fork_hashes:
  "block_hash toy own1 = Hash32 (replicate 31 0 @ [0x95])"
  "block_hash toy fork1 = Hash32 (replicate 31 0 @ [0x94])"
  "block_hash toy fork2 = Hash32 (replicate 31 0 @ [0x23])"
  unfolding own1_def fork2_def plain_hash by (simp_all add: sample_genesis_hash fork1_def plain_hash sum_list_replicate)

lemma first_work:
  obtains w x where "work_of INITIAL_DIFFICULTY_BITS = Fin w" "f64_add (Fin 0) (Fin w) = Fin x"
    "65536 \<le> w" "65536 \<le> x" "x \<le> 65537" "w \<le> 65537"
proof -
  let ?T = "target_value INITIAL_DIFFICULTY_BITS"
  have T: "?T = 0xffffff * 256 ^ 27"
    using expand_large [of INITIAL_DIFFICULTY_BITS] by (simp add: INITIAL_DIFFICULTY_BITS_def expo_def mant_def)
  let ?r = "round_pos (of_nat ?T + 1)"
  have lo: "of_nat ?T \<le> ?r"
  proof (rule round_pos_ge)
    show "f64_rep (of_nat ?T)" using f64_rep_nat_power [of "0xffffff" 216] by (simp add: T)
  qed (simp_all add: T)
  have hi: "?r \<le> 2 ^ 240"
  proof (rule round_pos_le)
    show "f64_rep (2 ^ 240)" using f64_rep_nat_power [of 1 240] by simp
  qed (simp_all add: T)
  have pos: "0 < ?r" using lo by (simp add: T)
  have "65536 \<le> 2 ^ 256 / ?r" using hi pos by (simp add: field_simps)
  moreover have "2 ^ 256 / ?r \<le> 65537" using lo pos by (simp add: field_simps T)
  moreover have rep: "f64_rep 65536" "f64_rep 65537"
    using f64_rep_nat_power [of 65536 0] f64_rep_nat_power [of 65537 0] by simp_all
  ultimately have w: "65536 \<le> round_pos (2 ^ 256 / ?r)" "round_pos (2 ^ 256 / ?r) \<le> 65537"
    using pos by (auto intro!: round_pos_ge round_pos_le)
  have T0: "?T \<noteq> 0" by (simp add: T)
  show ?thesis
  proof (rule that)
    show "work_of INITIAL_DIFFICULTY_BITS = Fin (round_pos (2 ^ 256 / ?r))"
      using T0 by (simp add: work_of_value work_value_def)
    show "f64_add (Fin 0) (Fin (round_pos (2 ^ 256 / ?r))) = Fin (round_pos (round_pos (2 ^ 256 / ?r)))"
      using w by (simp) (rule round_f64_pos, simp_all)
  qed (use w rep in \<open>auto intro: round_pos_ge round_pos_le\<close>)
qed

lemma plain_valid:
  assumes "chain_inv toy c" and "meta c prev = Some pm" and "wf_hash prev"
    and "m_height pm + 1 = h" and "h < 100" and "m_difficulty_target pm = INITIAL_DIFFICULTY_BITS"
    and "median_time_past c prev = Ok mt" and "mt < t" and "t \<le> now" and "now < 2 ^ 63"
  shows "validate_block toy c (plain_block h prev t) now = Ok ()"
proof -
  let ?b = "plain_block h prev t"
  have up: "u64_add (m_height pm) 1 = h" using assms(4,5) by simp
  have exp: "expected_difficulty c prev = Ok INITIAL_DIFFICULTY_BITS"
    using assms(2,4,5,6) up by (simp add: expected_difficulty_def Let_def RETARGET_INTERVAL_BLOCKS_def)
  have size: "approx_size_bytes ?b \<le> MAX_BLOCK_BYTES"
  proof -
    have "wf_header (header ?b)"
      using assms(3,5,9,10) by (simp add: wf_header_def wf_compute_tx_commitment toy_digest32)
    then show ?thesis using length_header_canonical_bytes [of "header ?b"]
      by (simp add: approx_size_bytes_def MAX_BLOCK_BYTES_def)
  qed
  have pow: "meets_target (block_hash toy ?b) (expand_target INITIAL_DIFFICULTY_BITS)"
  proof -
    have T: "hash_value (expand_target INITIAL_DIFFICULTY_BITS) = 0xffffff * 256 ^ 27"
      using expand_large [of INITIAL_DIFFICULTY_BITS] by (simp add: INITIAL_DIFFICULTY_BITS_def expo_def mant_def)
    obtain x where b: "block_hash toy ?b = Hash32 (replicate 31 0 @ [x])" unfolding plain_hash by blast
    then have "wf_hash (block_hash toy ?b)" by (simp add: wf_hash_def)
    moreover have "hash_value (block_hash toy ?b) \<le> 255" unfolding b
      using unsigned_less [of x, where 'a = nat] by (simp add: hash_value_def of_be_append)
    ultimately show ?thesis by (simp add: meets_target_def hash_le_iff T)
  qed
  show ?thesis
    unfolding validate_block_def
    using size pow assms(2,7,8,9,10) exp up
    by (simp add: guard_def get_meta_def MAX_TXS_PER_BLOCK_def validate_transactions_def MAX_FUTURE_DRIFT_SECS_def)
qed

lemma plain_extends:
  assumes "chain_inv toy c" and "heights_le n c" and "n < 100" and "tip_hash c = prev" and "meta c prev = Some pm"
    and "validate_block toy c b now = Ok ()" and "prev_hash (header b) = prev" and "difficulty_target (header b) = INITIAL_DIFFICULTY_BITS"
    and "meta c (block_hash toy b) = None" and "block_hash toy b \<noteq> ZERO"
    and "f64_add (m_cumulative_work pm) (work_of INITIAL_DIFFICULTY_BITS) = w" and "\<not> f64_le w (m_cumulative_work pm)"
  defines "c' \<equiv> fst (try_apply toy c b now)"
  shows "chain_inv toy c' \<and> heights_le (Suc n) c' \<and> tip_hash c' = block_hash toy b \<and>
    meta c' = (meta c)(block_hash toy b \<mapsto> block_meta b w) \<and> blocks c' = (blocks c)(block_hash toy b \<mapsto> b)"
proof -
  have ok: "heights_ok c" by (rule heights_le_ok [OF assms(2)]) (use assms(3) in simp)
  have not_fork: "try_apply toy c b now \<noteq> (d, Ok AddedToFork)" for d
    using assms(4-9,11,12) by (auto simp: try_apply_def Let_def insert_block_def split: prod.splits res.splits if_splits)
  have step: "heights_le (Suc n) c'"
    using run_op_step [OF assms(1,2), of "Apply b now"] assms(3,10) by (simp add: c'_def)
  show ?thesis using assms(1) ok assms(10,9,6)
  proof (cases rule: try_apply_valid)
    case (tip v p st)
    have "v = w" using tip(1) assms(5,7,8,11) by (simp add: new_work_def)
    then show ?thesis using tip step by (auto simp: c'_def insert_block_def block_meta_def)
  qed (use not_fork in blast)
qed


lemma fork_values: "hash_value (block_hash toy own1) = 0x95" "hash_value (block_hash toy fork1) = 0x94"
  "hash_value (block_hash toy fork2) = 0x23"
  by (simp_all add: fork_hashes hash_value_def of_be_append)

lemma fork_distinct: "block_hash toy own1 \<noteq> ZERO" "block_hash toy fork1 \<noteq> ZERO" "block_hash toy fork2 \<noteq> ZERO"
  "block_hash toy own1 \<noteq> block_hash toy fork1" "block_hash toy own1 \<noteq> block_hash toy fork2"
  "block_hash toy fork1 \<noteq> block_hash toy fork2" "block_hash toy (genesis toy) \<noteq> block_hash toy own1"
  "block_hash toy (genesis toy) \<noteq> block_hash toy fork1" "block_hash toy (genesis toy) \<noteq> block_hash toy fork2"
  by (auto dest!: arg_cong [of _ _ hash_value] simp: fork_values sample_hash_values)

definition light_chain :: Chain where
  "light_chain = fst (try_apply toy (new_chain toy) own1 1750000700)"

definition heavy_chain :: Chain where
  "heavy_chain = fst (try_apply toy (fst (try_apply toy (new_chain toy) fork1 1750000700)) fork2 1750000700)"

lemma first_block:
  assumes "b = plain_block 1 (block_hash toy (genesis toy)) t" and "block_hash toy b \<noteq> ZERO"
    and "block_hash toy b \<noteq> block_hash toy (genesis toy)" and "GENESIS_TIMESTAMP < t" and "t \<le> 1750000700"
    and "work_of INITIAL_DIFFICULTY_BITS = Fin v" and "f64_add (Fin 0) (Fin v) = Fin w" and "65536 \<le> w"
  defines "c \<equiv> fst (try_apply toy (new_chain toy) b 1750000700)"
  shows "chain_inv toy c \<and> heights_le 1 c \<and> tip_hash c = block_hash toy b \<and>
    meta c = (meta (new_chain toy))(block_hash toy b \<mapsto> block_meta b (Fin w)) \<and>
    blocks c = (blocks (new_chain toy))(block_hash toy b \<mapsto> b)"
proof -
  let ?c = "new_chain toy" and ?g = "block_hash toy (genesis toy)"
  have anc: "ancestors ?c ?g = Ok [?g]"
    using ancestors_floor [of ?c] sample_meta by (simp add: sample_floor domI)
  have mtp: "median_time_past ?c ?g = Ok GENESIS_TIMESTAMP"
    by (simp add: median_time_past_def anc meta_timestamp_def sample_meta MEDIAN_TIME_PAST_WINDOW_def)
  have "validate_block toy ?c b 1750000700 = Ok ()" unfolding assms(1)
    by (rule plain_valid [OF sample_genesis_inv sample_meta _ _ _ _ mtp assms(4,5)]) (simp_all add: sample_genesis_hash wf_hash_def)
  moreover have "meta ?c (block_hash toy b) = None" using assms(3) by (simp add: new_chain_def Let_def)
  ultimately show ?thesis unfolding c_def
    using plain_extends [OF sample_genesis_inv heights_le_new _ sample_floor(2) sample_meta, of b 1750000700 "Fin w"] assms(1-3,6-8)
    by simp
qed

lemma light_facts:
  "chain_inv toy light_chain" "heights_ok light_chain" "tip_hash light_chain = block_hash toy own1"
  "dom (meta light_chain) = {block_hash toy (genesis toy), block_hash toy own1}"
  "tip_height light_chain = Ok 1" "\<exists>x \<le> 65537. work_at_tip light_chain = Fin x"
proof -
  obtain v w where w: "work_of INITIAL_DIFFICULTY_BITS = Fin v" "f64_add (Fin 0) (Fin v) = Fin w" "65536 \<le> w" "w \<le> 65537"
    using first_work by metis
  have f: "chain_inv toy light_chain \<and> heights_le 1 light_chain \<and> tip_hash light_chain = block_hash toy own1 \<and>
    meta light_chain = (meta (new_chain toy))(block_hash toy own1 \<mapsto> block_meta own1 (Fin w)) \<and>
    blocks light_chain = (blocks (new_chain toy))(block_hash toy own1 \<mapsto> own1)"
    unfolding light_chain_def
    by (rule first_block [OF own1_def fork_distinct(1) _ _ _ w(1-3)]) (use fork_distinct(7) in \<open>simp_all add: GENESIS_TIMESTAMP_def\<close>)
  then show "chain_inv toy light_chain" "tip_hash light_chain = block_hash toy own1" by blast+
  show "heights_ok light_chain" using f heights_le_ok [of 1 light_chain] by simp
  show "dom (meta light_chain) = {block_hash toy (genesis toy), block_hash toy own1}"
    using f by (auto simp: new_chain_def Let_def split: if_splits)
  have m: "meta light_chain (tip_hash light_chain) = Some (block_meta own1 (Fin w))" using f by simp
  then show "tip_height light_chain = Ok 1" by (simp add: tip_height_def block_meta_def own1_def)
  show "\<exists>x \<le> 65537. work_at_tip light_chain = Fin x" using m w(4) by (simp add: work_at_tip_def block_meta_def)
qed


lemma heavy_facts:
  "chain_inv toy heavy_chain" "canonical_block_at heavy_chain 2 = Some fork2"
  "\<exists>x \<ge> 131072. work_at_tip heavy_chain = Fin x"
proof -
  let ?g = "block_hash toy (genesis toy)" and ?f = "block_hash toy fork1" and ?h = "block_hash toy fork2"
  let ?c = "fst (try_apply toy (new_chain toy) fork1 1750000700)"
  obtain v w where w: "work_of INITIAL_DIFFICULTY_BITS = Fin v" "f64_add (Fin 0) (Fin v) = Fin w"
    "65536 \<le> v" "65536 \<le> w" "w \<le> 65537" "v \<le> 65537"
    using first_work by metis
  have f: "chain_inv toy ?c \<and> heights_le 1 ?c \<and> tip_hash ?c = ?f \<and>
    meta ?c = (meta (new_chain toy))(?f \<mapsto> block_meta fork1 (Fin w)) \<and> blocks ?c = (blocks (new_chain toy))(?f \<mapsto> fork1)"
    by (rule first_block [OF fork1_def fork_distinct(2) _ _ _ w(1,2,4)]) (use fork_distinct(8) in \<open>simp_all add: GENESIS_TIMESTAMP_def\<close>)
  have fm: "meta ?c ?f = Some (block_meta fork1 (Fin w))" using f by simp
  have fi: "linked ?c" "floored ?c" "tip_ok ?c" using f by (simp_all add: chain_inv_def)
  have grown: "grown toy ?c"
    by (rule grown_step [OF grown_new [OF sample_nonzero(1)] sample_heights fork_distinct(2)])
      (simp add: fork1_def MAX_FUTURE_DRIFT_SECS_def)
  then have fl: "floor_height ?c = 0 \<and> floor_hash ?c = ?g" using grown_facts(7,8) by blast
  obtain p where p: "ancestors ?c ?f = Ok p" using fi(3) f by (auto simp: tip_ok_def)
  have "length p = 2" "hd p = ?g" "last p = ?f"
    using ancestors_shape [OF fi(1,2) fm p] fl by (simp_all add: block_meta_def fork1_def)
  then have anc: "ancestors ?c ?f = Ok [?g, ?f]" using p by (cases p; cases "tl p") auto
  have gm: "meta ?c ?g = Some \<lparr> m_height = 0, m_prev_hash = ZERO, m_timestamp = GENESIS_TIMESTAMP,
      m_difficulty_target = INITIAL_DIFFICULTY_BITS, m_cumulative_work = Fin 0 \<rparr>"
    using f fork_distinct(8) sample_meta by simp
  have mtp: "median_time_past ?c ?f = Ok 1750000300"
    by (simp add: median_time_past_def anc meta_timestamp_def fm gm MEDIAN_TIME_PAST_WINDOW_def)
      (simp add: GENESIS_TIMESTAMP_def block_meta_def fork1_def)
  have "wf_hash ?f" by (simp add: fork_hashes wf_hash_def)
  then have "validate_block toy ?c fork2 1750000700 = Ok ()" unfolding fork2_def
    by (rule plain_valid [OF conjunct1 [OF f] fm _ _ _ _ mtp]) (simp_all add: block_meta_def fork1_def)
  moreover have new: "meta ?c ?h = None" using f fork_distinct by (simp add: new_chain_def Let_def)
  moreover have "f64_add (Fin w) (Fin v) = Fin (round_pos (w + v))"
    using w(3-6) by simp (rule round_f64_pos, simp_all)
  moreover have heavier: "131072 \<le> round_pos (w + v)"
    using w(3,4) f64_rep_nat_power [of 1 17] by (intro round_pos_ge) simp_all
  ultimately have h: "chain_inv toy heavy_chain \<and> heights_le (Suc 1) heavy_chain \<and> tip_hash heavy_chain = ?h \<and>
      meta heavy_chain = (meta ?c)(?h \<mapsto> block_meta fork2 (Fin (round_pos (w + v)))) \<and> blocks heavy_chain = (blocks ?c)(?h \<mapsto> fork2)"
    using plain_extends [of ?c 1 ?f "block_meta fork1 (Fin w)" fork2 1750000700 "Fin (round_pos (w + v))"] f fm w fork_distinct(3)
    unfolding heavy_chain_def by (simp add: block_meta_def fork2_def)
  then show "chain_inv toy heavy_chain" by blast
  have hm: "meta heavy_chain ?h = Some (block_meta fork2 (Fin (round_pos (w + v))))" using h by simp
  then show "\<exists>x \<ge> 131072. work_at_tip heavy_chain = Fin x" using h heavier by (simp add: work_at_tip_def block_meta_def)
  show "canonical_block_at heavy_chain 2 = Some fork2"
  proof -
    have "heights_ok ?c" using f heights_le_ok [of 1 ?c] by simp
    then have "grown toy heavy_chain" unfolding heavy_chain_def
      by (rule grown_step [OF grown _ fork_distinct(3)]) (simp add: fork2_def MAX_FUTURE_DRIFT_SECS_def)
    note g = grown_facts [OF this]
    obtain q where q: "ancestors heavy_chain ?h = Ok q" "\<forall>k \<ge> floor_height heavy_chain. canonical_index heavy_chain k =
        (if k - floor_height heavy_chain < length q then Some (q ! (k - floor_height heavy_chain)) else None)"
      using g(5) h by (auto simp: tip_ok_def)
    have "length q = 3" "q \<noteq> []" "last q = ?h"
      using ancestors_shape [OF g(1,2) hm q(1)] g(8) by (simp_all add: block_meta_def fork2_def)
    then have "length q = 3 \<and> q ! 2 = ?h" using last_conv_nth [of q] by simp
    then have "canonical_index heavy_chain 2 = Some ?h" using q(2) g(8) by simp
    then show ?thesis using h by (simp add: canonical_block_at_def)
  qed
qed

text \<open>C32: catching up does not leave a branch of one's own. If a peer's chain is heavier but the node knows
  neither the peer's block just above the node's own height nor that block's parent, the exchange that
  \<^verbatim>\<open>RequestChainSync\<close> starts changes nothing in the node's chain: a chain
  that is no longer than its own has no block to offer, and of a longer one the first block that is sent has an
  unknown parent. (A
  node that heard the peer's branch through gossip knows that parent and is outside this claim.) The
  witness is a real fork: the peers agree on the genesis block alone, and the longer branch, though
  heavier and two blocks long, is refused.\<close>

theorem heavier_fork_never_adopted:
  assumes "chain_inv (prims N) (chain (chain_store a))" and "heights_ok (chain (chain_store a))" and "tip_height (chain (chain_store a)) = Ok own"
    and "chain_inv (prims N) (chain (chain_store b))"
    and "f64_lt (work_at_tip (chain (chain_store a))) (work_at_tip (chain (chain_store b)))"
    and "\<And>blk. canonical_block_at (chain (chain_store b)) (own + 1) = Some blk \<Longrightarrow>
      meta (chain (chain_store a)) (prev_hash (header blk)) = None \<and> meta (chain (chain_store a)) (block_hash (prims N) blk) = None"
    and "chain_sync_tip (pending a) (request_id (w 1)) = None"
  shows "\<exists>a'. sync_round N wb w peer b a = Ok a' \<and> chain (chain_store a') = chain (chain_store a)"
proof -
  let ?ca = "chain (chain_store a)" and ?cb = "chain (chain_store b)"
  obtain hgt where hgt: "tip_height ?cb = Ok hgt" using tip_height_Ok [OF assms(4)] by blast
  obtain am where am: "meta ?ca (tip_hash ?ca) = Some am" "m_height am = own"
    using assms(1,3) by (auto simp: tip_height_def chain_inv_def heaviest_def)
  then have "own < 2 ^ 64 - 1" using assms(2) by (auto simp: heights_ok_def)
  then have add: "u64_add own 1 = own + 1" by simp
  let ?wanted = "min (u64_sub hgt own) MAX_SYNC_BATCH"
  let ?a = "asks_blocks (w 0) (w 1) peer (own + 1) ?wanted a"
  have ids: "chain_sync_tip (pending ?a) (request_id (w 1)) = None" "chain_sync_blocks (pending ?a) (request_id (w 1)) = Some peer"
    using assms(7) by simp_all
  define last_height where "last_height = min (own + 1 + min ?wanted MAX_SYNC_BATCH) u64_max"
  have resp: "build_chain_sync_response (chain_store b) (GetBlocks (own + 1) ?wanted) =
      Ok (case blocks_from (chain_store b) (own + 1) (last_height - (own + 1)) of None \<Rightarrow> NotAvailable | Some bs \<Rightarrow> SyncBlocks bs)"
    by (simp add: build_chain_sync_response_def last_height_def Let_def split: option.split)
  note round = sync_round_asks [OF assms(1,3,4) hgt assms(5), unfolded add, OF resp, where N = N and w = w]
  show ?thesis
  proof (cases "blocks_from (chain_store b) (own + 1) (last_height - (own + 1))")
    case None
    then show ?thesis unfolding round using ids by (simp add: handle_chain_sync_response_def Let_def)
  next
    case (Some bs)
    show ?thesis
    proof (cases bs)
      case Nil
      obtain h where "tip_height ?ca = Ok h" using assms(3) by blast
      then show ?thesis unfolding round Some using ids Nil
        by (simp add: handle_chain_sync_response_def Let_def emit_tip_def)
    next
      case (Cons blk rest)
      then have blk: "canonical_block_at ?cb (own + 1) = Some blk"
        using Some by (cases "last_height - (own + 1)") (auto split: option.splits)
      obtain e where "\<And>n. chain_store n = chain_store a \<Longrightarrow>
          apply_synced N (w 2) 0 bs n = Ok (n\<lparr>mempool := remove_mined N blk (mempool n)\<rparr>, Some e)"
        using orphans_change_nothing [OF assms(1,2) served_block_nonzero [OF assms(4) blk] assms(6) [OF blk], of "w 2" rest]
        by (auto simp: Cons)
      then show ?thesis unfolding round Some using ids by (simp add: handle_chain_sync_response_def Let_def)
    qed
  qed
qed

lemma heavier_fork_never_adopted_witness:
  "\<exists>a b a'. chain (chain_store a) = light_chain \<and> chain (chain_store b) = heavy_chain \<and>
    f64_lt (work_at_tip light_chain) (work_at_tip heavy_chain) \<and>
    tip_height light_chain = Ok 1 \<and> canonical_block_at heavy_chain (1 + 1) = Some fork2 \<and>
    meta light_chain (prev_hash (header fork2)) = None \<and>
    sync_round toy_network toy_world (\<lambda>i. toy_world) [2] b a = Ok a' \<and> chain (chain_store a') = light_chain"
proof -
  obtain n where "spawn_with_bootstrap toy_network sample_setup (replicate 32 1) [] = Ok n" using sample_spawn by blast
  let ?a = "n\<lparr>chain_store := (chain_store n)\<lparr>chain := light_chain\<rparr>, pending := no_pending\<rparr>"
  let ?b = "n\<lparr>chain_store := (chain_store n)\<lparr>chain := heavy_chain\<rparr>\<rparr>"
  obtain x y where "work_at_tip light_chain = Fin x" "x \<le> 65537" "work_at_tip heavy_chain = Fin y" "131072 \<le> y"
    using light_facts(6) heavy_facts(3) by blast
  then have work: "f64_lt (work_at_tip light_chain) (work_at_tip heavy_chain)" by simp
  have parent: "prev_hash (header fork2) = block_hash toy fork1" by (simp add: fork2_def)
  have unknown: "meta light_chain (block_hash toy fork1) = None" "meta light_chain (block_hash toy fork2) = None"
    using fork_distinct(4,5,8,9) light_facts(4) by (metis domIff insertE singletonD)+
  have "\<exists>a'. sync_round toy_network toy_world (\<lambda>i. toy_world) [2] ?b ?a = Ok a' \<and> chain (chain_store a') = chain (chain_store ?a)"
    by (rule heavier_fork_never_adopted [where own = 1])
      (use work light_facts(1,2,5) heavy_facts(1,2) unknown parent in \<open>simp_all add: no_pending_def numeral_2_eq_2\<close>)
  then show ?thesis using work light_facts(5) heavy_facts(2) unknown(1) parent
    by - (rule exI [of _ ?a], rule exI [of _ ?b], auto simp: numeral_2_eq_2)
qed

end
