(* ===== verification/Name_Claim.thy ===== *)
theory Name_Claim
  imports Node_Task Chain_Sync
begin

text \<open>
  The \<^verbatim>\<open>@username\<close> from end to end: a claim is built and submitted through \<^verbatim>\<open>packages/crypto-core-ffi\<close>,
  waits in the mempool of \<^verbatim>\<open>packages/p2p-core\<close>, is mined into a block that the rules of
  \<^verbatim>\<open>packages/ledger-core\<close> accept, and the name then resolves to the key of the identity that asked.
\<close>

subsection \<open>The flow\<close>

definition called :: "FfiP2pNode \<times> unit ffi \<Rightarrow> FfiP2pNode ffi" where
  "called r = bind_res (snd r) (\<lambda>_. Ok (fst r))"

text \<open>An application claims a name at its current tip, mines, and asks who owns the name. \<open>stop\<close> and
  \<open>clk\<close> are what the mining thread reads; the result is the event that answers the question.\<close>

definition claim_name ::
  "Boundary \<Rightarrow> (nat \<Rightarrow> World) \<Rightarrow> (nat \<Rightarrow> bool) \<Rightarrow> (nat \<Rightarrow> nat) \<Rightarrow> FfiIdentity \<Rightarrow> bytes \<Rightarrow> nat \<Rightarrow> bytes \<Rightarrow> bytes \<Rightarrow>
    FfiP2pNode \<Rightarrow> FfiP2pEvent option ffi" where
  "claim_name B w stop clk kp name hint nonce_bytes key h =
     bind_res (ledger_build_username_claim B kp name hint (hash_bytes (tip_hash (chain (chain_store (loop_node h))))) nonce_bytes)
       (\<lambda>claim.
     bind_res (called (ffi_submit_username_claim B claim h)) (\<lambda>h.
     let h = take_command B (w 0) h in
     bind_res (called (ffi_start_mining key h)) (\<lambda>h.
     let h = take_command B (w 1) h; a = last (tasks (mining (loop_node h))) in
     case mine (prims (net B)) stop clk (at_header a) (at_transactions a) of
       Some (Some b) \<Rightarrow>
         (let h = task_step B (w 2) (MiningResult (at_generation a) b) h in
          bind_res (called (ffi_query_username_owner name h)) (\<lambda>h.
          let h = take_command B (w 3) h in
          Ok (if unread_events h = [] then None else Some (ffi_event B (last (unread_events h))))))
     | _ \<Rightarrow> Ok None)))"

subsection \<open>The claim\<close>

lemma new_claim_verified:
  assumes "ed25519_laws P" and "new_claim P kp name hint anchor nonce_bytes = Ok tx"
  shows "verify_self_contained P tx = Ok ()" and "username tx = normalize_username P name"
    and "owner_public_key tx = ffi_identity_public_key_bytes P kp" and "anchor_block_hash tx = anchor"
  using assms
  by (auto simp: new_claim_def Let_def bind_res_Ok validate_username_format_Ok verify_self_contained_Ok
      ed25519_laws_def public_key_def identity_sign_def tx_preimage_def ffi_identity_public_key_bytes_def)

text \<open>A claim anchored at the tip for a free name goes into the next candidate.\<close>

lemma claim_selected:
  assumes "chain_inv P (chain s)" and "mining_candidate P s pool key now = Ok (Some (hdr, selected))"
    and "tx \<in> snd ` set pool" and "verify_self_contained P tx = Ok ()" and "anchor_block_hash tx = tip_hash (chain s)"
    and "username_owner (chain s) (username tx) = None" and "length pool \<le> MAX_TXS_PER_BLOCK"
    and "\<forall>tx' \<in> snd ` set pool. username tx' = username tx \<longrightarrow> tx' = tx"
  shows "tx \<in> set selected"
proof -
  obtain tip where tip: "tip_height (chain s) = Ok tip"
    and sel: "select_transactions P s (u64_add tip 1) (sort_key (tx_id P) (map snd pool)) [] {} = Ok selected"
    using mining_candidate_Some [OF assms(2)] by metis
  obtain tm where tm: "meta (chain s) (tip_hash (chain s)) = Some tm" "m_height tm = tip"
    using tip by (auto simp: tip_height_def bind_res_Ok)
  obtain p where p: "ancestors (chain s) (tip_hash (chain s)) = Ok p" using assms(1) by (auto simp: chain_inv_def tip_ok_def)
  have "last p = tip_hash (chain s)" "p \<noteq> []"
    using ancestors_shape [OF _ _ tm(1) p] assms(1) by (simp_all add: chain_inv_def)
  then have "tip_hash (chain s) \<in> set p" by (metis last_in_set)
  moreover have "u64_add tip 1 - tip \<le> ANCHOR_MAX_AGE_BLOCKS"
  proof -
    have "u64_add tip 1 \<le> tip + 1" by (simp add: u64_add_def)
    then show ?thesis by (simp add: ANCHOR_MAX_AGE_BLOCKS_def)
  qed
  ultimately have "is_valid_candidate_transaction P s tx (u64_add tip 1) = Ok True"
    unfolding candidate_valid_iff [OF assms(1) p] using assms(4-6) tm by (simp add: claim_ok_def)
  then show ?thesis using assms(3,7,8) by (intro select_transactions_takes [OF sel]) auto
qed

lemma select_transactions_distinct:
  "mining_candidate P s pool key now = Ok (Some (hdr, selected)) \<Longrightarrow> distinct (map username selected)"
  using select_transactions_sound [where selected = "[]" and used = "{}"] by (fastforce elim!: mining_candidate_Some)

subsection \<open>The block\<close>

text \<open>A valid block on the tip that adds work becomes the tip, and the names it claims are owned.\<close>

lemma heavier_block_owns:
  assumes "chain_inv P c" and "heights_ok c" and "block_hash P b \<noteq> ZERO" and "meta c (block_hash P b) = None"
    and "validate_block P c b now = Ok ()" and "prev_hash (header b) = tip_hash c"
    and "f64_lt (work_at_tip c) (new_work c b)" and "tx \<in> set (transactions b)"
    and "distinct (map username (transactions b))"
  shows "\<exists>c'. try_apply P c b now = (c', Ok ExtendedTip) \<and> chain_inv P c' \<and> tip_hash c' = block_hash P b \<and>
    block_hash P b \<in> dom (meta c') \<and>
    username_owner c' (username tx) = Some \<lparr> o_public_key = owner_public_key tx, o_claimed_at_height = height (header b),
      o_claimed_in_block = block_hash P b \<rparr>"
proof -
  obtain tm where tm: "meta c (tip_hash c) = Some tm" using assms(1) by (auto simp: chain_inv_def heaviest_def)
  have ne: "tip_hash c \<noteq> block_hash P b" using tm assms(4) by auto
  have "\<not> f64_le (new_work c b) (m_cumulative_work tm)"
    using assms(7) tm by (cases "new_work c b"; cases "m_cumulative_work tm") (auto simp: work_at_tip_def)
  then have fork: "try_apply P c b now \<noteq> (c', Ok AddedToFork)" for c'
    using assms(4-6) tm ne
    by (auto simp: try_apply_def Let_def new_work_def insert_block_def split: prod.splits res.splits)
  from assms(1-5) show ?thesis
  proof (cases rule: try_apply_valid)
    case (fork w)
    with \<open>\<And>c'. _ \<noteq> (c', Ok AddedToFork)\<close> show ?thesis by blast
  next
    case (tip w p st)
    have "username tx \<in> set (names b)" using assms(8) by (simp add: names_def)
    then obtain tx' where tx': "tx' \<in> set (transactions b)" "username tx' = username tx"
      "apply_claims (block_hash P b) b st (username tx) = Some (owner_entry (block_hash P b) b tx')"
      using apply_claims_found by blast
    then have "tx' = tx" using assms(8,9) by (auto simp: distinct_map inj_on_def)
    then show ?thesis using tip tx'(3) assms(6) by (auto simp: owner_entry_def insert_block_meta)
  qed
qed

lemma mining_result_applied:
  assumes "try_apply (prims N) (chain (chain_store n)) b (clock w 0) = (c', Ok ExtendedTip)" and "chain_inv (prims N) c'"
    and "heights_ok c'" and "block_hash (prims N) b \<in> dom (meta c')" and "db_ok w 0"
    and "map_option ms_generation (active (mining n)) = Some generation"
  shows "\<exists>n'. loop_step N (\<lambda>i. w) (MiningResult generation b) n = Ok (n', True) \<and> chain (chain_store n') = c'"
proof -
  obtain s where s: "store_try_apply (prims N) (db_ok w 0) (chain_store n) b (clock w 0) = (s, Ok ExtendedTip)" "chain s = c'"
    using store_applies [OF assms(1,2,4)] assms(5) by auto
  define m where "m = publish blocks_topic (enc_block N b) (n\<lparr>chain_store := s, mempool := remove_mined N b (mempool n)\<rparr>)"
  have m: "chain_store m = s" by (simp add: m_def publish_def call_def split: option.split)
  obtain h where "tip_height c' = Ok h" using tip_height_Ok [OF assms(2)] by blast
  then obtain m1 where m1: "emit_tip m = Ok m1" "chain_store m1 = s" by (auto simp: emit_tip_def emit_def m s(2))
  obtain k where "restart_mining N w 1 m1 = Ok (m1\<lparr>mining := k\<rparr>)"
    using restart_keeps [of N m1 w 1] assms(2,3) m1(2) s(2) by auto
  then have "apply_and_broadcast_block N w b n = Ok (m1\<lparr>mining := k\<rparr>, Some ExtendedTip)"
    by (simp add: apply_and_broadcast_block_def s(1) Let_def m1(1) flip: m_def)
  then show ?thesis using assms(6) m1(2) s(2)
    by (simp add: handle_mining_result_def emit_def)
qed

lemma take_command_Ok:
  assumes "sent_commands h = [c]" and "loop_step (net B) (\<lambda>i. w) (CommandReceived c) (loop_node h) = Ok (n, True)"
  shows "take_command B w h = h\<lparr>sent_commands := [], loop_node := n, receiving := True,
    unread_events := unread_events h @ events_of (drop (length (outputs (loop_node h))) (outputs n))\<rparr>"
  using assms by (simp add: take_command_def task_step_def del: loop_step.simps)

lemma submitted_claim_held:
  assumes "verify_self_contained (prims N) tx = Ok ()"
  shows "\<exists>n'. loop_step N ws (CommandReceived (SubmitUsernameClaim tx)) n = Ok (n', True) \<and>
    chain_store n' = chain_store n \<and> mempool n' = AList.update (tx_id (prims N) tx) tx (mempool n) \<and> mining n' = mining n"
  using assms by (simp add: publish_def call_def Let_def split: option.split)

lemma mining_started:
  assumes "mining_candidate (prims N) (chain_store n) (mempool n) key (clock (ws 0) 0) = Ok (Some (hdr, selected))"
  shows "\<exists>n'. loop_step N ws (CommandReceived (StartMining key)) n = Ok (n', True) \<and> chain_store n' = chain_store n \<and>
    (let a = last (tasks (mining n')) in at_header a = hdr \<and> at_transactions a = selected \<and>
      map_option ms_generation (active (mining n')) = Some (at_generation a))"
  using assms by (simp add: mining_start_def spawn_mining_attempt_def Let_def)

lemma owner_answered:
  assumes "owner_of_username (prims N) (chain (chain_store n)) name = Some owner"
  shows "loop_step N ws (CommandReceived (QueryUsernameOwner name)) n =
    Ok (emit (UsernameOwnerResolved name (o_public_key owner) (o_claimed_at_height owner)) n, True)"
  using assms by simp

text \<open>The ledger's part: the next candidate has the claim, and the block found for it becomes the tip.\<close>

lemma mined_claim_owned:
  assumes "chain (chain_store n) = c" and "chain_inv P c" and "heights_le k c" and "k < 2 ^ 64 - 2" and "wf_hash (tip_hash c)"
    and "tip_height c = Ok tip" and "digest32 (sha256 P)" and "wf_tx tx" and "verify_self_contained P tx = Ok ()"
    and "anchor_block_hash tx = tip_hash c" and "username_owner c (username tx) = None" and "length (mempool n) < MAX_TXS_PER_BLOCK"
    and "\<forall>tx' \<in> snd ` set (mempool n). wf_tx tx' \<and> username tx' \<noteq> username tx" and "length key = 32"
    and cand: "mining_candidate P (chain_store n) (AList.update (tx_id P tx) tx (mempool n)) key t = Ok (Some (hdr, selected))"
    and found: "mine P stop clk hdr selected = Some (Some b)"
    and past: "\<forall>t. store_median_time_past (chain_store n) = Ok t \<longrightarrow> t < 2 ^ 64 - 1"
    and drift: "timestamp (header b) \<le> u64_add now MAX_FUTURE_DRIFT_SECS"
    and new: "block_hash P b \<noteq> ZERO" "meta c (block_hash P b) = None" and "f64_lt (work_at_tip c) (new_work c b)"
  shows "\<exists>c'. try_apply P c b now = (c', Ok ExtendedTip) \<and> chain_inv P c' \<and> heights_ok c' \<and> block_hash P b \<in> dom (meta c') \<and>
    username_owner c' (username tx) = Some \<lparr> o_public_key = owner_public_key tx, o_claimed_at_height = tip + 1,
      o_claimed_in_block = block_hash P b \<rparr>"
proof -
  let ?pool = "AList.update (tx_id P tx) tx (mempool n)"
  have heights: "heights_ok c" by (rule heights_le_ok [OF assms(3)]) (use assms(4) in simp)
  have pool: "\<forall>tx' \<in> snd ` set ?pool. wf_tx tx' \<and> (username tx' = username tx \<longrightarrow> tx' = tx)"
    using assms(8,13) in_alist_update [of _ "tx_id P tx" tx "mempool n"] by fastforce
  have "map_of ?pool (tx_id P tx) = Some tx" by (simp add: update_conv')
  from map_of_SomeD [OF this] have held: "tx \<in> snd ` set ?pool" by force
  have few: "length ?pool \<le> MAX_TXS_PER_BLOCK" using assms(12) length_update_le [of "tx_id P tx" tx "mempool n"] by simp
  have valid: "validate_block P c b now = Ok ()"
    using mined_block_passes [where s = "chain_store n", unfolded assms(1), OF assms(2) heights assms(5,7) _ assms(14) cand found past drift] pool
    by blast
  obtain target mtp where hdr: "hdr = \<lparr> version = 1, height = u64_add tip 1, prev_hash = tip_hash c, timestamp = max t (u64_add mtp 1),
      tx_commitment = compute_tx_commitment P selected, difficulty_target = target, nonce = 0, miner_public_key = key \<rparr>"
    using mining_candidate_Some [OF cand] assms(6) by (metis assms(1) res.inject(1))
  have b: "prev_hash (header b) = tip_hash c" "height (header b) = u64_add tip 1" "transactions b = selected"
    using mine_Some [OF found] by (auto simp: mined_from_def hdr)
  have tip: "u64_add tip 1 = tip + 1"
    using heights assms(6) by (intro u64_add_exact) (auto simp: tip_height_def bind_res_Ok heights_ok_def)
  have "tx \<in> set selected"
    by (rule claim_selected [OF _ cand]) (use assms(2,9-11) pool held few in \<open>auto simp: assms(1)\<close>)
  moreover have "distinct (map username selected)" using select_transactions_distinct [OF cand] by simp
  ultimately obtain c' where c': "try_apply P c b now = (c', Ok ExtendedTip)" "chain_inv P c'"
    "block_hash P b \<in> dom (meta c')" "username_owner c' (username tx) = Some \<lparr> o_public_key = owner_public_key tx,
      o_claimed_at_height = tip + 1, o_claimed_in_block = block_hash P b \<rparr>"
    using heavier_block_owns [OF assms(2) heights new valid b(1) assms(21), of tx] unfolding b(2,3) tip by blast
  moreover have "heights_ok c'"
    using try_apply_step [OF assms(2,3) _ new(1), of now] assms(4) c'(1) heights_le_ok [of "Suc k" c'] by simp
  ultimately show ?thesis by blast
qed

text \<open>The channels' part: if the loop takes the four inputs as it should, the flow ends with its answer.\<close>

lemma claim_name_answered:
  assumes "loop_node h = n" and "receiving h" and "sent_commands h = []" and "length key = 32"
    and built: "ledger_build_username_claim B kp name hint (hash_bytes (tip_hash (chain (chain_store n)))) nonce_bytes = Ok bs"
    and read: "dec_tx (net B) bs = Some tx"
    and n1: "loop_step (net B) (\<lambda>i. w 0) (CommandReceived (SubmitUsernameClaim tx)) n = Ok (n1, True)"
    and n2: "loop_step (net B) (\<lambda>i. w 1) (CommandReceived (StartMining key)) n1 = Ok (n2, True)"
    and found: "mine (prims (net B)) stop clk (at_header (last (tasks (mining n2)))) (at_transactions (last (tasks (mining n2)))) = Some (Some b)"
    and n3: "loop_step (net B) (\<lambda>i. w 2) (MiningResult (at_generation (last (tasks (mining n2)))) b) n2 = Ok (n3, True)"
    and n4: "loop_step (net B) (\<lambda>i. w 3) (CommandReceived (QueryUsernameOwner name)) n3 = Ok (emit answer n3, True)"
  shows "claim_name B w stop clk kp name hint nonce_bytes key h = Ok (Some (ffi_event B answer))"
proof -
  define h1 where "h1 = take_command B (w 0) (h\<lparr>sent_commands := [SubmitUsernameClaim tx]\<rparr>)"
  have h1: "sent_commands h1 = []" "receiving h1" "loop_node h1 = n1"
    using n1 assms(1) unfolding h1_def by (subst take_command_Ok [where n = n1], simp_all del: loop_step.simps)+
  define h2 where "h2 = take_command B (w 1) (h1\<lparr>sent_commands := [StartMining key]\<rparr>)"
  have h2: "sent_commands h2 = []" "receiving h2" "loop_node h2 = n2"
    using n2 h1(3) unfolding h2_def by (subst take_command_Ok [where n = n2], simp_all del: loop_step.simps)+
  define h3 where "h3 = task_step B (w 2) (MiningResult (at_generation (last (tasks (mining n2)))) b) h2"
  have h3: "sent_commands h3 = []" "receiving h3" "loop_node h3 = n3"
    using n3 h2 by (simp_all add: h3_def task_step_def del: loop_step.simps)
  define h4 where "h4 = take_command B (w 3) (h3\<lparr>sent_commands := [QueryUsernameOwner name]\<rparr>)"
  have "events_of (drop (length (outputs n3)) (outputs (emit answer n3))) = [answer]"
    unfolding emit_def Node.select_convs Node.update_convs by (simp add: events_of_def)
  then have h4: "unread_events h4 = unread_events h3 @ [answer]"
    using n4 h3(3) unfolding h4_def by (subst take_command_Ok) (simp_all del: loop_step.simps)
  have calls: "called (ffi_submit_username_claim B bs h) = Ok (h\<lparr>sent_commands := [SubmitUsernameClaim tx]\<rparr>)"
    "called (ffi_start_mining key h1) = Ok (h1\<lparr>sent_commands := [StartMining key]\<rparr>)"
    "called (ffi_query_username_owner name h3) = Ok (h3\<lparr>sent_commands := [QueryUsernameOwner name]\<rparr>)"
    using read assms(2-4) h1 h3
    by (simp_all add: called_def ffi_submit_username_claim_def send_parsed_def ffi_start_mining_def ffi_query_username_owner_def
        ffi_send_def)
  show ?thesis
    unfolding claim_name_def assms(1) built bind_res.simps calls(1) Let_def h1_def [symmetric] calls(2) h2_def [symmetric] h2(3)
      found option.case h3_def [symmetric] calls(3) h4_def [symmetric] h4 by simp
qed

text \<open>C4: a name that is claimed is owned. If an identity claims a free, well-formed name through the
  bindings at the node's tip, starts mining there, and the search finds a block, then that block is
  accepted, and asking the node for the name answers with the key of that identity and the height of
  that block.\<close>

theorem claimed_name_is_owned:
  assumes "loop_node h = n" and "chain (chain_store n) = c" and "prims (net B) = P" and "ed25519_laws P" and "wire_laws (net B)" and "digest32 (sha256 P)"
    and "receiving h" and "sent_commands h = []" and "length key = 32" and "length nonce_bytes = 8"
    and "chain_inv P c" and "heights_le k c" and "k < 2 ^ 64 - 2" and "wf_hash (tip_hash c)" and "tip_height c = Ok tip"
    and "new_claim P kp name hint (tip_hash c) nonce_bytes = Ok tx" and "enc_tx (net B) tx = Some bs"
    and "username_owner c (username tx) = None" and "length (mempool n) < MAX_TXS_PER_BLOCK"
    and "\<forall>tx' \<in> snd ` set (mempool n). wf_tx tx' \<and> username tx' \<noteq> username tx"
    and "mining_candidate P (chain_store n) (AList.update (tx_id P tx) tx (mempool n)) key (clock (w 1) 0) = Ok (Some (hdr, selected))"
    and "mine P stop clk hdr selected = Some (Some b)"
    and "\<forall>t. store_median_time_past (chain_store n) = Ok t \<longrightarrow> t < 2 ^ 64 - 1"
    and "timestamp (header b) \<le> u64_add (clock (w 2) 0) MAX_FUTURE_DRIFT_SECS" and "db_ok (w 2) 0"
    and "block_hash P b \<noteq> ZERO" and "meta c (block_hash P b) = None" and "f64_lt (work_at_tip c) (new_work c b)" and "hint < 2 ^ 64"
  shows "claim_name B w stop clk kp name hint nonce_bytes key h =
    Ok (Some (FfiUsernameOwnerResolved name (ffi_identity_public_key_bytes P kp) (tip + 1)))"
proof -
  note claim = new_claim_verified [OF assms(4,16)]
  have "wf_tx tx"
    using assms(4,10,14,16,29) by (auto simp: validate_username_format_Ok public_key_def ed25519_laws_def new_claim_def wf_tx_def Let_def bind_res_Ok)
  from mined_claim_owned [OF assms(2,11-15,6) this claim(1,4) assms(18-20,9,21-24,26-28)] obtain c' where
    c': "try_apply P c b (clock (w 2) 0) = (c', Ok ExtendedTip)" "chain_inv P c'" "heights_ok c'" "block_hash P b \<in> dom (meta c')"
      "username_owner c' (username tx) = Some \<lparr> o_public_key = owner_public_key tx, o_claimed_at_height = tip + 1,
        o_claimed_in_block = block_hash P b \<rparr>" by blast
  obtain n1 where n1: "loop_step (net B) (\<lambda>i. w 0) (CommandReceived (SubmitUsernameClaim tx)) n = Ok (n1, True)"
    "chain_store n1 = chain_store n" "mempool n1 = AList.update (tx_id P tx) tx (mempool n)"
    using submitted_claim_held [of "net B" tx "\<lambda>i. w 0" n] claim(1) by (auto simp: assms(3))
  have "mining_candidate (prims (net B)) (chain_store n1) (mempool n1) key (clock (w 1) 0) = Ok (Some (hdr, selected))"
    using assms(21) n1(2,3) by (simp add: assms(3))
  from mining_started [where ws = "\<lambda>i. w 1", OF this] obtain n2 where
    n2: "loop_step (net B) (\<lambda>i. w 1) (CommandReceived (StartMining key)) n1 = Ok (n2, True)" "chain_store n2 = chain_store n"
    and a: "at_header (last (tasks (mining n2))) = hdr" "at_transactions (last (tasks (mining n2))) = selected"
      "map_option ms_generation (active (mining n2)) = Some (at_generation (last (tasks (mining n2))))"
    using n1(2) by (auto simp: Let_def)
  have "try_apply (prims (net B)) (chain (chain_store n2)) b (clock (w 2) 0) = (c', Ok ExtendedTip)"
    using c'(1) by (simp add: n2(2) assms(2,3))
  from mining_result_applied [OF this _ c'(3) _ assms(25) a(3)] c'(2,4) obtain n3 where
    n3: "loop_step (net B) (\<lambda>i. w 2) (MiningResult (at_generation (last (tasks (mining n2)))) b) n2 = Ok (n3, True)" "chain (chain_store n3) = c'"
    by (auto simp: assms(3))
  have "owner_of_username (prims (net B)) (chain (chain_store n3)) name = Some \<lparr> o_public_key = owner_public_key tx,
      o_claimed_at_height = tip + 1, o_claimed_in_block = block_hash P b \<rparr>"
    using c'(5) by (simp add: owner_of_username_def n3(2) claim(2) assms(3))
  note n4 = owner_answered [OF this, of "\<lambda>i. w 3"]
  have "length (hash_bytes (tip_hash c)) = 32" "Hash32 (hash_bytes (tip_hash c)) = tip_hash c" using assms(14) by (simp_all add: wf_hash_def)
  then have built: "ledger_build_username_claim B kp name hint (hash_bytes (tip_hash (chain (chain_store n)))) nonce_bytes = Ok bs"
    using assms(10,16,17) by (simp add: ledger_build_username_claim_def assms(2,3))
  have read: "dec_tx (net B) bs = Some tx" using assms(5,17) by (simp add: wire_laws_def)
  have found: "mine (prims (net B)) stop clk (at_header (last (tasks (mining n2)))) (at_transactions (last (tasks (mining n2)))) = Some (Some b)"
    using assms(22) a(1,2) by (simp add: assms(3))
  from claim_name_answered [OF assms(1,7-9) built read n1(1) n2(1) found n3(1) n4] show ?thesis by (simp add: claim(3))
qed

lemma sample_claim:
  "new_claim toy (IdentityKeyPair [5]) (ascii ''alice'') (claimed_at_height_hint sample_tx) (block_hash toy (genesis toy)) (tx_nonce sample_tx) =
    Ok sample_tx"
proof -
  have n: "normalize_username toy (ascii ''alice'') = ascii ''alice''"
    using normalize_valid [of "ascii ''alice''" toy] sample_tx_verifies
    by (simp add: verify_self_contained_def sample_tx_fields bind_res_Ok validate_username_format_Ok)
  have "validate_username_format (ascii ''alice'') = Ok ()"
    using sample_tx_verifies by (simp add: verify_self_contained_Ok sample_tx_fields validate_username_format_Ok)
  then show ?thesis unfolding new_claim_def n Let_def
    by (simp add: public_key_def identity_sign_def) (simp add: sample_tx_def Let_def tx_preimage_def)
qed

lemma sample_heavier: "f64_lt (work_at_tip (new_chain toy)) (new_work (new_chain toy) sample_block)"
proof -
  have "1 \<le> work_value (target_value INITIAL_DIFFICULTY_BITS)" by (rule work_value_ge_1 [OF target_value_bound])
  then have "f64_lt (Fin 0) (f64_add (Fin 0) (work_of INITIAL_DIFFICULTY_BITS))"
    using round_pos_ge [OF _ _ f64_rep_1, of "work_value (target_value INITIAL_DIFFICULTY_BITS)"]
    by (auto simp: work_of_value round_f64_def)
  then show ?thesis by (simp add: work_at_tip_def new_work_def sample_floor sample_meta) (simp add: sample_block_def sample_meta)
qed

lemma claimed_name_is_owned_witness:
  "\<exists>h. claim_name sample_boundary (\<lambda>i. toy_world\<lparr>clock := \<lambda>i. 1750000300\<rparr>) (\<lambda>j. False) (\<lambda>j. 0) (IdentityKeyPair [5]) (ascii ''alice'')
      (claimed_at_height_hint sample_tx) (tx_nonce sample_tx) (replicate 32 0) h =
    Ok (Some (FfiUsernameOwnerResolved (ascii ''alice'') (ed_public toy [5]) 1))"
proof -
  obtain n where "spawn_with_bootstrap toy_network sample_setup (replicate 32 1) [] = Ok n" using sample_spawn by blast
  let ?n = "n\<lparr>chain_store := sample_store, mempool := []\<rparr>" and ?w = "toy_world\<lparr>clock := \<lambda>i. 1750000300\<rparr>"
  let ?h = "\<lparr> own_peer_id = [], sent_commands = [], receiving = True, unread_events = [], loop_node = ?n \<rparr>"
  have base: "chain sample_store = new_chain toy" by (simp add: sample_store_def)
  have "claim_name sample_boundary (\<lambda>i. ?w) (\<lambda>j. False) (\<lambda>j. 0) (IdentityKeyPair [5]) (ascii ''alice'')
      (claimed_at_height_hint sample_tx) (tx_nonce sample_tx) (replicate 32 0) ?h =
    Ok (Some (FfiUsernameOwnerResolved (ascii ''alice'') (ffi_identity_public_key_bytes toy (IdentityKeyPair [5])) (0 + 1)))"
  proof (rule claimed_name_is_owned [where n = ?n and c = "new_chain toy" and P = toy and tx = sample_tx and k = 0 and b = sample_block])
    show "new_claim toy (IdentityKeyPair [5]) (ascii ''alice'') (claimed_at_height_hint sample_tx) (tip_hash (new_chain toy)) (tx_nonce sample_tx) = Ok sample_tx"
      using sample_claim by (simp add: sample_floor)
    show "mining_candidate toy (chain_store ?n) (AList.update (tx_id toy sample_tx) sample_tx (mempool ?n)) (replicate 32 0) (clock ?w 0) =
        Ok (Some (header sample_block, [sample_tx]))"
      using sample_candidate(1) [OF base] by simp
    show "\<forall>t. store_median_time_past (chain_store ?n) = Ok t \<longrightarrow> t < 2 ^ 64 - 1"
      using sample_candidate(2) [OF base] by fastforce
    show "timestamp (header sample_block) \<le> u64_add (clock ?w 0) MAX_FUTURE_DRIFT_SECS"
      by (simp add: MAX_FUTURE_DRIFT_SECS_def) (simp add: sample_block_def)
    show "length (tx_nonce sample_tx) = 8" "claimed_at_height_hint sample_tx < 2 ^ 64" by (simp_all add: sample_tx_def Let_def)
    show "tip_height (new_chain toy) = Ok 0" by (simp add: tip_height_def sample_floor sample_meta)
    show "enc_tx (net sample_boundary) sample_tx = Some [9]" by (simp add: sample_boundary_def toy_network_def)
    show "username_owner (new_chain toy) (username sample_tx) = None" by (simp add: new_chain_def Let_def)
    show "wf_hash (tip_hash (new_chain toy))" by (simp add: sample_floor wf_hash_def sample_genesis_hash)
  qed (use sample_genesis_inv sample_nonzero sample_new sample_heavier sample_mined toy_network_wire in
      \<open>simp_all add: base sample_boundary_def toy_laws toy_digest32 heights_le_new toy_world_def MAX_TXS_PER_BLOCK_def\<close>)
  then show ?thesis by (auto simp: ffi_identity_public_key_bytes_def public_key_def)
qed

end
