(* ===== verification/Mail_Delivery.thy ===== *)
theory Mail_Delivery
  imports Event_Loop
begin

text \<open>
  A message left for someone who is away: the sender's node stamps a deposit and sends it through the
  mix, the relay closest to its tag keeps it, and a query of the recipient brings it back through a
  reply block. Every node runs the event loop of \<^verbatim>\<open>packages/p2p-core/src/node.rs\<close>; the network between
  them is \<open>carry\<close>, which hands one packet from node to node until it is no longer forwarded.
\<close>

subsection \<open>The mailbox of one relay\<close>

lemma accept_serves:
  assumes "bincode_laws P" and "mailbox_ok P s" and "for_tag (d_tag d) s = []" and "map_of (deposits s) (deposit_key P d) = None"
    and "total_bytes s + stored_size P \<lparr> s_tag = d_tag d, s_envelope = d_envelope d \<rparr> < 2 ^ 64"
  shows "for_tag (d_tag d) (accept P d s) = [\<lparr> c_key = deposit_key P d, c_envelope = d_envelope d \<rparr>]"
proof -
  let ?v = "\<lparr> s_tag = d_tag d, s_envelope = d_envelope d \<rparr>" and ?k = "deposit_key P d"
  define e where "e = evict_until_room_for (stored_size P ?v) s"
  obtain n where e: "mailbox_ok P e" "deposits e = drop n (deposits s)"
    using evict_until_room_for_spec [OF assms(1,2), of "stored_size P ?v"] by (auto simp: e_def)
  have dep: "deposits (accept P d s) = table_insert ?k ?v (deposits e)" by (simp add: accept_def Let_def e_def)
  have none: "\<forall>(k, v) \<in> set (deposits s). s_tag v \<noteq> d_tag d"
    using assms(3) for_tag_scan [OF assms(2), of "d_tag d"] by (auto simp: scan_tag_def filter_empty_conv)
  then have none': "\<forall>(k, v) \<in> set (deposits e). s_tag v \<noteq> d_tag d" using e(2) by (auto dest: in_set_dropD)
  have "filter (\<lambda>(k, v). s_tag v = d_tag d) (table_insert ?k ?v t) = [(?k, ?v)]"
    if "\<forall>(k, v) \<in> set t. s_tag v \<noteq> d_tag d" for t
    using that by (induction ?k ?v t rule: table_insert.induct) (auto simp: filter_empty_conv)
  note this [OF none']
  moreover have "mailbox_ok P (accept P d s)" by (rule accept_ok [OF assms(1,2,5)]) (simp add: assms(4))
  ultimately show ?thesis by (simp add: for_tag_scan scan_tag_def dep)
qed

subsection \<open>Packets between nodes\<close>

type_synonym Net = "PeerId \<Rightarrow> Node"

text \<open>One packet on its way; a forwarded one waits out its delay first. At most \<open>k\<close> nodes handle it,
  the last of them in the world \<open>ws 0\<close>.\<close>

fun carry :: "Network \<Rightarrow> (nat \<Rightarrow> World) \<Rightarrow> nat \<Rightarrow> PeerId \<Rightarrow> PeerId \<Rightarrow> MixMessage \<Rightarrow> Net \<Rightarrow> (LedgerError, Net) res" where
  "carry N ws 0 sender to msg net = Ok net"
| "carry N ws (Suc k) sender to msg net =
     bind_res (loop_step N (\<lambda>i. ws k) (SwarmInput (MixEvent (Request sender msg 0))) (net to)) (\<lambda>(n, _).
       case last (outputs n) of
         Spawn (ForwardAfter delay q fwd) \<Rightarrow>
           bind_res (loop_step N (\<lambda>i. ws k) (ForwardReady q fwd) n) (\<lambda>(n, _). carry N ws k to q fwd (net(to := n)))
       | Call (MixRequest q reply) \<Rightarrow> carry N ws k to q reply (net(to := n))
       | _ \<Rightarrow> Ok (net(to := n)))"

text \<open>A node handles an input and the packet it sends, if it sends one, is carried to its end.\<close>

definition handle_and_carry ::
  "Network \<Rightarrow> World \<Rightarrow> (nat \<Rightarrow> World) \<Rightarrow> nat \<Rightarrow> PeerId \<Rightarrow> LoopInput \<Rightarrow> Net \<Rightarrow> (LedgerError, Net) res" where
  "handle_and_carry N w ws k p input net =
     bind_res (loop_step N (\<lambda>i. w) input (net p)) (\<lambda>(n, _).
       case last (outputs n) of
         Call (MixRequest q msg) \<Rightarrow> carry N ws k p q msg (net(p := n))
       | _ \<Rightarrow> Ok (net(p := n)))"

subsection \<open>A mesh of relays\<close>

definition mix_id :: "Node \<Rightarrow> PeerId \<times> bytes \<times> RoutingKey \<times> Relays" where
  "mix_id n = (local_peer_id n, mix_secret n, mix_public n, known_mix_relays n)"

text \<open>The nodes of \<open>S\<close> are connected to each other and know each other's routing keys.\<close>

definition mesh :: "Network \<Rightarrow> PeerId set \<Rightarrow> Net \<Rightarrow> bool" where
  "mesh N S net \<longleftrightarrow> (\<forall>p \<in> S. local_peer_id (net p) = p \<and> mix_public (net p) = x_public (prims N) (mix_secret (net p)) \<and>
     relays_ok N (known_mix_relays (net p)) \<and>
     set (known_mix_relays (net p)) = (\<lambda>q. (node_address_for N q, q)) ` (S - {p}) \<and>
     (\<forall>q \<in> S - {p}. known_mix_routing_keys (net p) q = Some (mix_public (net q))))"

definition quiet :: "Net \<Rightarrow> Net \<Rightarrow> bool" where
  "quiet net net' \<longleftrightarrow> (\<forall>p. mix_id (net' p) = mix_id (net p) \<and> mailbox_store (net' p) = mailbox_store (net p))"

lemma quiet_refl [simp]: "quiet net net"
  by (simp add: quiet_def)

lemma quiet_trans: "quiet a b \<Longrightarrow> quiet b c \<Longrightarrow> quiet a c"
  by (simp add: quiet_def)

lemma mesh_update:
  assumes "mesh N S net" and "mix_id n = mix_id (net p)"
    and "known_mix_routing_keys n = known_mix_routing_keys (net p) \<or>
      (\<exists>q \<in> S. known_mix_routing_keys n = (known_mix_routing_keys (net p))(q \<mapsto> mix_public (net q)))"
  shows "mesh N S (net(p := n))"
proof -
  have pub: "mix_public ((net(p := n)) q) = mix_public (net q)" for q using assms(2) by (simp add: mix_id_def)
  have "known_mix_routing_keys n q = Some (mix_public (net q))" if "p \<in> S" "q \<in> S - {p}" for q
    using assms(1,3) that by (auto simp: mesh_def)
  then show ?thesis
    using assms(1,2) by (simp add: mesh_def mix_id_def pub)
qed

lemma mesh_next:
  assumes "mesh N S net" and "p \<in> S" and "q \<in> S" and "q \<noteq> p"
  shows "map_of (known_mix_relays (net p)) (node_address_for N q) = Some q"
  using assms by (auto simp: mesh_def relays_ok_def)

lemma mesh_usable:
  assumes "mesh N S net" and "p \<in> S"
  shows "(a, q, key) \<in> set (usable_relays (known_mix_relays (net p)) (known_mix_routing_keys (net p))) \<longleftrightarrow>
    a = node_address_for N q \<and> q \<in> S - {p} \<and> key = mix_public (net q)"
  using assms by (auto simp: in_usable_relays mesh_def)

text \<open>Distances to a tag single out one relay of the mesh.\<close>

definition nearest :: "Network \<Rightarrow> PeerId set \<Rightarrow> bytes \<Rightarrow> PeerId \<Rightarrow> bool" where
  "nearest N S tag r \<longleftrightarrow> r \<in> S \<and> (\<forall>q \<in> S - {r}. kad_distance N tag r < kad_distance N tag q)"

lemma mesh_closest:
  assumes "mesh N S net" and "p \<in> S" and "nearest N S tag r" and "r \<noteq> p"
  shows "closest_relay_to_tag N tag (known_mix_relays (net p)) (known_mix_routing_keys (net p)) =
    Some (node_address_for N r, r, mix_public (net r))"
proof -
  let ?u = "usable_relays (known_mix_relays (net p)) (known_mix_routing_keys (net p))"
  have r: "(node_address_for N r, r, mix_public (net r)) \<in> set ?u"
    using assms by (simp add: mesh_usable nearest_def)
  then obtain hop where hop: "closest_relay_to_tag N tag (known_mix_relays (net p)) (known_mix_routing_keys (net p)) = Some hop"
    by (cases "closest_relay_to_tag N tag (known_mix_relays (net p)) (known_mix_routing_keys (net p))")
      (auto simp: closest_relay_alt)
  obtain a q key where h: "hop = (a, q, key)" by (cases hop)
  have "a = node_address_for N q \<and> q \<in> S - {p} \<and> key = mix_public (net q)"
    using closest_relay(1) [OF hop] mesh_usable [OF assms(1,2)] by (simp add: h)
  moreover have "kad_distance N tag q \<le> kad_distance N tag r"
    using closest_relay(2) [OF hop r] by (simp add: h peer_of_def)
  then have "q = r" using assms(3) calculation unfolding nearest_def by (metis DiffD1 DiffI leD singletonD)
  ultimately show ?thesis using hop h by simp
qed

lemma mesh_hops:
  assumes "mesh N S net" and "p \<in> S" and "digest32 (sha256 (prims N))"
    and "set hops \<subseteq> set (usable_relays (known_mix_relays (net p)) (known_mix_routing_keys (net p)))"
  shows "list_all2 (hop_of_secret N) (map (\<lambda>q. mix_secret (net q)) (map peer_of hops)) (hops_of hops)"
    and "map address (hops_of hops) = map (node_address_for N) (map peer_of hops)"
    and "set (map peer_of hops) \<subseteq> S - {p}"
  using assms
  by (induction hops)
    (auto simp: hops_of_def mesh_usable hop_of_secret_def node_address_for_def digest32_def mesh_def peer_of_def)

subsection \<open>One hop\<close>

text \<open>The state of a node that has taken a packet in.\<close>

definition received :: "PeerId \<Rightarrow> MixMessage \<Rightarrow> Node \<Rightarrow> Node" where
  "received sender msg n = (call (MixAck 0) n)\<lparr>known_mix_routing_keys :=
     (known_mix_routing_keys n)(sender \<mapsto> sender_routing_public_key msg)\<rparr>"

lemma received_simps [simp]:
  "mix_id (received sender msg n) = mix_id n" "mailbox_store (received sender msg n) = mailbox_store n"
  "known_mix_relays (received sender msg n) = known_mix_relays n" "mix_public (received sender msg n) = mix_public n"
  "known_mix_routing_keys (received sender msg n) = (known_mix_routing_keys n)(sender \<mapsto> sender_routing_public_key msg)"
  by (simp_all add: received_def call_def mix_id_def)

lemma output_simps [simp]:
  "mix_id (call c n) = mix_id n" "mix_id (emit e n) = mix_id n" "mix_id (spawn_task t n) = mix_id n"
  "known_mix_routing_keys (call c n) = known_mix_routing_keys n" "known_mix_routing_keys (emit e n) = known_mix_routing_keys n"
  "known_mix_routing_keys (spawn_task t n) = known_mix_routing_keys n"
  "mailbox_store (call c n) = mailbox_store n" "mailbox_store (emit e n) = mailbox_store n"
  "mailbox_store (spawn_task t n) = mailbox_store n"
  "last (outputs (call c n)) = Call c" "last (outputs (emit e n)) = Event e" "last (outputs (spawn_task t n)) = Spawn t"
  by (simp_all add: call_def emit_def spawn_task_def mix_id_def)

lemma packet_step:
  "loop_step N ws (SwarmInput (MixEvent e)) n = bind_res (handle_mix_event N (ws 0) e n) (\<lambda>n. Ok (n, True))"
  by (simp add: release_deferred_def)

lemma forward_step:
  assumes "sphinx_wf N (packet_bytes msg)" and "sphinx_process N (packet_bytes msg) (mix_secret n) = Ok (ForwardHop p a delay)"
    and "map_of (known_mix_relays n) a = Some q"
  shows "loop_step N ws (SwarmInput (MixEvent (Request sender msg 0))) n =
    Ok (spawn_task (ForwardAfter delay q (own_message p n)) (received sender msg n), True)"
proof -
  have "handle_mix_event N w (Request sender msg 0) n =
      Ok (spawn_task (ForwardAfter delay q (own_message p n)) (received sender msg n))" for w
    using assms by (simp add: handle_mix_event_def peel_def received_def call_def own_message_def)
  then show ?thesis by (simp only: packet_step bind_res.simps)
qed

lemma final_step:
  assumes "sphinx_wf N (packet_bytes msg)" and "sphinx_process N (packet_bytes msg) (mix_secret n) = Ok (FinalHop d i body)"
    and "recover_plaintext N body = Ok payload"
  shows "loop_step N ws (SwarmInput (MixEvent (Request sender msg 0))) n =
    bind_res (handle_final_payload N (ws 0) payload (received sender msg n)) (\<lambda>n. Ok (n, True))"
proof -
  have "handle_mix_event N w (Request sender msg 0) n = handle_final_payload N w payload (received sender msg n)" for w
    using assms by (simp add: handle_mix_event_def peel_def received_def call_def)
  then show ?thesis by (simp only: packet_step)
qed

lemma mesh_received:
  assumes "mesh N S net" and "sender \<in> S" and "sender_routing_public_key msg = mix_public (net sender)"
    and "mix_id n = mix_id (net p)" and "known_mix_routing_keys n = known_mix_routing_keys (received sender msg (net p))"
  shows "mesh N S (net(p := n))"
  by (rule mesh_update [OF assms(1,4)]) (use assms(2,3,5) in auto)

text \<open>A packet built for a path reaches the last relay of it; on the way nothing else changes.\<close>

lemma carry_to_last:
  assumes "path \<noteq> []" and "delivers N (packet_bytes msg) (zip (map (\<lambda>q. mix_secret (net q)) path) (map (node_address_for N) path)) payload"
    and "mesh N S net" and "sender \<in> S" and "set path \<subseteq> S" and "successively (\<noteq>) (sender # path)"
    and "sender_routing_public_key msg = mix_public (net sender)" and "length path \<le> k"
  shows "\<exists>net' sender' msg'. carry N ws k sender (hd path) msg net = carry N ws (Suc (k - length path)) sender' (last path) msg' net' \<and>
    mesh N S net' \<and> quiet net net' \<and> sender' \<in> S \<and> sender' \<noteq> last path \<and>
    sender_routing_public_key msg' = mix_public (net sender') \<and>
    delivers N (packet_bytes msg') [(mix_secret (net (last path)), node_address_for N (last path))] payload"
  using assms
proof (induction path arbitrary: sender msg net k)
  case (Cons p path)
  show ?case
  proof (cases path)
    case Nil
    show ?thesis
      by (rule exI [of _ net], rule exI [of _ sender], rule exI [of _ msg]) (use Cons.prems Nil in simp)
  next
    case (Cons q path')
    obtain k' where k: "k = Suc k'" using Cons.prems(8) by (cases k) auto
    obtain pk delay where hop: "sphinx_wf N (packet_bytes msg)"
      "sphinx_process N (packet_bytes msg) (mix_secret (net p)) = Ok (ForwardHop pk (node_address_for N q) delay)"
      "delivers N pk (zip (map (\<lambda>q. mix_secret (net q)) path) (map (node_address_for N) path)) payload"
      using Cons.prems(2) by (auto simp: Cons)
    have S: "p \<in> S" "q \<in> S" "q \<noteq> p" using Cons.prems(5,6) by (auto simp: Cons)
    let ?fwd = "own_message pk (net p)"
    let ?n = "call (MixRequest q ?fwd) (spawn_task (ForwardAfter delay q ?fwd) (received sender msg (net p)))"
    let ?net = "net(p := ?n)"
    have step: "carry N ws k sender p msg net = carry N ws k' p q ?fwd ?net"
      using forward_step [OF hop(1,2) mesh_next [OF Cons.prems(3) S], of "\<lambda>i. ws k'" sender]
      by (simp add: k del: loop_step.simps(2))
    have m: "mesh N S ?net" by (rule mesh_received [OF Cons.prems(3,4,7)]) simp_all
    have quiet: "quiet net ?net" by (simp add: quiet_def)
    have id: "mix_secret (?net x) = mix_secret (net x)" "mix_public (?net x) = mix_public (net x)" for x
      using quiet by (simp_all add: quiet_def mix_id_def)
    have "path \<noteq> []" "set path \<subseteq> S" "successively (\<noteq>) (p # path)" "length path \<le> k'"
      using Cons.prems(5,6,8) by (simp_all add: Cons k)
    moreover have "delivers N (packet_bytes ?fwd) (zip (map (\<lambda>q. mix_secret (?net q)) path) (map (node_address_for N) path)) payload"
      using hop(3) by (simp only: id) (simp add: own_message_def)
    moreover have "sender_routing_public_key ?fwd = mix_public (?net p)" by (simp only: id) (simp add: own_message_def)
    ultimately obtain net' sender' msg' where r:
      "carry N ws k' p (hd path) ?fwd ?net = carry N ws (Suc (k' - length path)) sender' (last path) msg' net'"
      "mesh N S net'" "quiet ?net net'" "sender' \<in> S" "sender' \<noteq> last path"
      "sender_routing_public_key msg' = mix_public (?net sender')"
      "delivers N (packet_bytes msg') [(mix_secret (?net (last path)), node_address_for N (last path))] payload"
      using Cons.IH [of ?fwd ?net p k'] m S(1) by blast
    have l: "last (p # path) = last path" "hd (p # path) = p" "hd path = q" "k - length (p # path) = k' - length path"
      by (simp_all add: Cons k)
    have "carry N ws k sender p msg net = carry N ws (Suc (k' - length path)) sender' (last path) msg' net'"
      using r(1) step by (simp only: l)
    then show ?thesis
      unfolding l using r(2,4-7) quiet_trans [OF quiet r(3)] unfolding id by blast
  qed
qed simp

subsection \<open>What is sent\<close>

text \<open>\<^verbatim>\<open>sphinx-packet\<close> builds a packet for any path up to its limit when the message fits into one
  payload, and a reply block for any such path.\<close>

definition fits :: "Network \<Rightarrow> bytes \<Rightarrow> bool" where
  "fits N payload \<longleftrightarrow> (\<forall>hops d i dl. hops \<noteq> [] \<longrightarrow> length hops \<le> max_path_length N \<longrightarrow>
     (\<exists>p. sphinx_new N payload hops d i dl = Ok p))"

definition surbs_fit :: "Network \<Rightarrow> bytes \<Rightarrow> bytes \<Rightarrow> bool" where
  "surbs_fit N tag reply \<longleftrightarrow>
     (\<forall>hops d i dl. hops \<noteq> [] \<longrightarrow> length hops \<le> max_path_length N \<longrightarrow>
        (\<exists>s. surb_new N hops d i dl = Ok s \<and> fits N (frame_mailbox_query tag s) \<and>
           (\<exists>r. surb_use N s reply (default_payload_size N) = Ok r)))"

definition route :: "Network \<Rightarrow> Net \<Rightarrow> SphinxPacket \<Rightarrow> PeerId list \<Rightarrow> bytes \<Rightarrow> bool" where
  "route N net pk path payload \<longleftrightarrow> path \<noteq> [] \<and> distinct path \<and> length path \<le> 3 \<and>
     delivers N pk (zip (map (\<lambda>q. mix_secret (net q)) path) (map (node_address_for N) path)) payload"

lemma mesh_path:
  assumes "mesh N S net" and "p \<in> S" and "nearest N S tag r" and "r \<noteq> p" and "rand_laws w"
  obtains hops where
    "build_mix_path_to_tag N w i tag (known_mix_relays (net p)) (known_mix_routing_keys (net p)) = Some hops"
    and "hops \<noteq> []" and "length hops \<le> 3" and "distinct (map peer_of hops)" and "peer_of (last hops) = r"
    and "set hops \<subseteq> set (usable_relays (known_mix_relays (net p)) (known_mix_routing_keys (net p)))"
proof -
  note c = mesh_closest [OF assms(1-4)]
  have "relays_ok N (known_mix_relays (net p))" using assms(1,2) by (simp add: mesh_def)
  from mix_path_facts [OF assms(5) this, where i = i and tag = tag and ks = "known_mix_routing_keys (net p)"] c show ?thesis
    by (cases "build_mix_path_to_tag N w i tag (known_mix_relays (net p)) (known_mix_routing_keys (net p))")
      (auto simp: closest_relay_alt peer_of_def dest!: that)
qed

lemma mesh_packet:
  assumes "mesh N S net" and "p \<in> S" and "digest32 (sha256 (prims N))" and "sphinx_laws N" and "3 \<le> max_path_length N"
    and "fits N payload" and "hops \<noteq> []" and "length hops \<le> 3" and "distinct (map peer_of hops)"
    and "set hops \<subseteq> set (usable_relays (known_mix_relays (net p)) (known_mix_routing_keys (net p)))"
  shows "\<exists>pk. build_packet N payload (hops_of hops) d i dl = Ok pk \<and> route N net pk (map peer_of hops) payload"
proof -
  note h = mesh_hops [OF assms(1-3,10)]
  have len: "hops_of hops \<noteq> []" "length (hops_of hops) \<le> max_path_length N" using assms(5,7,8) by (simp_all add: hops_of_def)
  then obtain pk where pk: "sphinx_new N payload (hops_of hops) d i dl = Ok pk" using assms(6) unfolding fits_def by blast
  have "delivers N pk (zip (map (\<lambda>q. mix_secret (net q)) (map peer_of hops)) (map address (hops_of hops))) payload"
    using assms(4) h(1) pk unfolding sphinx_laws_def by blast
  then show ?thesis using pk len assms(7-9) by (simp add: build_packet_def route_def h(2))
qed

lemma deposit_sent:
  assumes "mesh N S net" and "p \<in> S" and "nearest N S (d_tag d) r" and "r \<noteq> p" and "rand_laws w"
    and "digest32 (sha256 (prims N))" and "sphinx_laws N" and "3 \<le> max_path_length N"
    and "frame_mailbox_deposit N d = Some payload" and "fits N payload"
  shows "\<exists>pk path. loop_step N (\<lambda>i. w) (DepositStamped d) (net p) =
      Ok (call (MixRequest (hd path) (own_message pk (net p))) (net p), True) \<and>
    route N net pk path payload \<and> last path = r \<and> set path \<subseteq> S - {p}"
proof -
  obtain hops where hops:
    "build_mix_path_to_tag N w 0 (d_tag d) (known_mix_relays (net p)) (known_mix_routing_keys (net p)) = Some hops"
    "hops \<noteq> []" "length hops \<le> 3" "distinct (map peer_of hops)" "peer_of (last hops) = r"
    "set hops \<subseteq> set (usable_relays (known_mix_relays (net p)) (known_mix_routing_keys (net p)))"
    using mesh_path [OF assms(1-5)] by metis
  obtain pk where pk: "build_packet N payload (hops_of hops) (rng_bytes w 1 32) (rng_bytes w 2 16)
      (rng_delays w 3 (length hops) MIX_DUMMY_TRAFFIC_HOP_DELAY) = Ok pk" "route N net pk (map peer_of hops) payload"
    using mesh_packet [OF assms(1,2,6-8,10) hops(2-4,6)] by blast
  have "send_mailbox_deposit N w d (net p) = Ok (call (MixRequest (hd (map peer_of hops)) (own_message pk (net p))) (net p))"
    using hops(1,2) pk(1) assms(9) by (simp add: send_mailbox_deposit_def hd_map peer_of_def)
  then show ?thesis using pk(2) hops(2,5) mesh_hops(3) [OF assms(1,2,6) hops(6)]
    by (intro exI [of _ pk] exI [of _ "map peer_of hops"]) (simp add: last_map)
qed

lemmas surb_facts = conjunct2 [OF iffD1 [OF sphinx_laws_def], rule_format]

lemma surb_law:
  assumes "sphinx_laws N" and "list_all2 (hop_of_secret N) sks hops" and "surb_new N hops d i dl = Ok s"
  shows "s \<noteq> []" and "surb_wf N s"
    and "surb_use N s msg (default_payload_size N) = Ok (p, a) \<Longrightarrow> a = address (hd hops)"
    and "surb_use N s msg (default_payload_size N) = Ok (p, a) \<Longrightarrow> delivers N p (zip sks (map address hops)) msg"
proof -
  note law = surb_facts [OF assms]
  show "s \<noteq> []" and "surb_wf N s" using law by simp_all
  assume "surb_use N s msg (default_payload_size N) = Ok (p, a)"
  then show "a = address (hd hops)" and "delivers N p (zip sks (map address hops)) msg" using law by simp_all
qed

lemma query_sent:
  fixes sm :: bytes
  assumes "mesh N S net" and "p \<in> S" and "rand_laws w"
    and "digest32 (sha256 (prims N))" and "sphinx_laws N" and "3 \<le> max_path_length N"
  defines "tag \<equiv> mailbox_tag (prims N) sm (epoch_for (clock w 0))"
  assumes "nearest N S tag r" and "r \<noteq> p" and "surbs_fit N tag reply"
  shows "\<exists>pk path surb rpath ret_pk. loop_step N (\<lambda>i. w) (CommandReceived (RetrieveFromMailbox sm)) (net p) =
      Ok (call (MixRequest (hd path) (own_message pk (net p))) (net p), True) \<and>
    route N net pk path (frame_mailbox_query tag surb) \<and> last path = r \<and> set path \<subseteq> S - {p} \<and>
    surb \<noteq> [] \<and> surb_wf N surb \<and> use_surb N surb reply = Ok (ret_pk, node_address_for N (hd rpath)) \<and>
    route N net ret_pk rpath reply \<and> last rpath = p \<and> set rpath \<subseteq> S - {r}"
proof -
  let ?relays = "known_mix_relays (net p)" and ?keys = "known_mix_routing_keys (net p)"
  obtain hops where hops: "build_mix_path_to_tag N w 0 tag ?relays ?keys = Some hops"
    "hops \<noteq> []" "length hops \<le> 3" "distinct (map peer_of hops)" "peer_of (last hops) = r"
    "set hops \<subseteq> set (usable_relays ?relays ?keys)"
    using mesh_path [OF assms(1,2,8,9,3)] by metis
  let ?cand = "filter (\<lambda>hop. peer_of hop \<noteq> r) (usable_relays ?relays ?keys)"
  define ret where "ret = rng_choose_multiple w 1 ?cand 2"
  have ok: "relays_ok N ?relays" "local_peer_id (net p) = p" "mix_public (net p) = x_public (prims N) (mix_secret (net p))"
    using assms(1,2) by (simp_all add: mesh_def)
  have "distinct (map peer_of ?cand)"
    using usable_distinct_peers [OF relays_distinct_peers [OF ok(1)]] by (rule distinct_map_filter)
  then have picked: "set ret \<subseteq> set ?cand" "length ret \<le> 2" "distinct (map peer_of ret)"
    using picked(1,2) [OF assms(3), of 1 ?cand 2] unfolding ret_def by (simp_all only: picked(3) [OF assms(3)] min.cobounded1)
  have ret: "set ret \<subseteq> set (usable_relays ?relays ?keys)" "\<forall>h \<in> set ret. peer_of h \<noteq> r" using picked(1) by auto
  note mh = mesh_hops [OF assms(1,2,4) ret(1)]
  let ?self = "\<lparr> address = node_address_for N p, hop_public_key = mix_public (net p) \<rparr>"
  let ?rhops = "hops_of ret @ [?self]" and ?rpath = "map peer_of ret @ [p]"
  have len: "?rhops \<noteq> []" "length ?rhops \<le> max_path_length N" using picked(2) assms(6) by (simp_all add: hops_of_def)
  obtain surb rp where surb: "surb_new N ?rhops (rng_bytes w 2 32) (rng_bytes w 3 16)
      (rng_delays w 4 (length ?rhops) MIX_DUMMY_TRAFFIC_HOP_DELAY) = Ok surb"
    "fits N (frame_mailbox_query tag surb)" "surb_use N surb reply (default_payload_size N) = Ok rp"
    using assms(10) len unfolding surbs_fit_def by blast
  obtain ret_pk a where rp: "rp = (ret_pk, a)" by (cases rp)
  have "hop_of_secret N (mix_secret (net p)) ?self"
    using ok(3) assms(4) by (simp add: hop_of_secret_def node_address_for_def digest32_def)
  then have secrets: "list_all2 (hop_of_secret N) (map (\<lambda>q. mix_secret (net q)) ?rpath) ?rhops"
    using mh(1) by (simp add: list_all2_appendI)
  have s: "surb \<noteq> []" "surb_wf N surb" "a = address (hd ?rhops)"
    "delivers N ret_pk (zip (map (\<lambda>q. mix_secret (net q)) ?rpath) (map address ?rhops)) reply"
    using surb_law [OF assms(5) secrets surb(1)] surb(3) unfolding rp by simp_all
  have addr: "map address ?rhops = map (node_address_for N) ?rpath" using mh(2) by simp
  have "address (hd ?rhops) = hd (map address ?rhops)" by (rule hd_map [symmetric]) simp
  also have "\<dots> = hd (map (node_address_for N) ?rpath)" by (simp only: addr)
  also have "\<dots> = node_address_for N (hd ?rpath)" by (rule hd_map) simp
  finally have first: "address (hd ?rhops) = node_address_for N (hd ?rpath)" .
  have "?rpath \<noteq> []" "distinct ?rpath" "length ?rpath \<le> 3" using picked(2,3) mh(3) by auto
  then have "route N net ret_pk ?rpath reply"
    using s(4) unfolding addr route_def by blast
  moreover have "set ?rpath \<subseteq> S - {r}" using ret(2) mh(3) assms(2,9) by auto
  moreover obtain pk where pk: "build_packet N (frame_mailbox_query tag surb) (hops_of hops) (rng_bytes w 5 32) (rng_bytes w 6 16)
      (rng_delays w 7 (length hops) MIX_DUMMY_TRAFFIC_HOP_DELAY) = Ok pk"
    "route N net pk (map peer_of hops) (frame_mailbox_query tag surb)"
    using mesh_packet [OF assms(1,2,4-6) surb(2) hops(2-4,6)] by blast
  moreover have "send_mailbox_retrieval_query N w sm (net p) =
      Ok (call (MixRequest (hd (map peer_of hops)) (own_message pk (net p))) (net p))"
  proof -
    have "fst (snd (last hops)) = r" using hops(5) by (simp add: peer_of_def)
    moreover have "pick_mix_path w (Suc 0) (filter (\<lambda>(addr, peer). peer \<noteq> r) ?relays) ?keys (MIX_PATH_HOPS - 1) = ret"
      by (simp add: pick_mix_path_def usable_without ret_def MIX_PATH_HOPS_def)
    ultimately show ?thesis
      using hops(1,2) pk(1) surb(1) len
      by (simp add: send_mailbox_retrieval_query_def build_surb_def Let_def tag_def [symmetric] ok(2) hd_map peer_of_def)
  qed
  ultimately show ?thesis
    using hops(2,5) mesh_hops(3) [OF assms(1,2,4) hops(6)] s(1,2) surb(3) first s(3)
    by (intro exI [of _ pk] exI [of _ "map peer_of hops"] exI [of _ surb] exI [of _ ?rpath] exI [of _ ret_pk])
      (simp add: last_map use_surb_def rp)
qed

subsection \<open>The last hop\<close>

lemma mesh_quiet:
  assumes "mesh N S net" and "quiet net net'" and "mesh N S net'" and "mix_id n = mix_id (net' p)"
    and "known_mix_routing_keys n = known_mix_routing_keys (net' p)"
  shows "mesh N S (net'(p := n))"
  using mesh_update [OF assms(3,4)] assms(5) by blast

lemma distinct_successively: "distinct xs \<Longrightarrow> successively (\<noteq>) xs"
  by (induction xs rule: induct_list012) auto

lemma carry_route:
  assumes "route N net (packet_bytes msg) path payload" and "mesh N S net" and "sender \<in> S" and "set path \<subseteq> S - {sender}"
    and "sender_routing_public_key msg = mix_public (net sender)" and "3 \<le> k" and "last path = r"
  obtains j net' n where "k - 3 \<le> j" and "quiet net net'" and "net' r = n" and "mesh N S net'"
    and "carry N ws k sender (hd path) msg net =
      bind_res (handle_final_payload N (ws j) payload n) (\<lambda>n'.
       case last (outputs n') of
         Spawn (ForwardAfter delay q fwd) \<Rightarrow>
           bind_res (loop_step N (\<lambda>i. ws j) (ForwardReady q fwd) n')
             (\<lambda>(n, _). carry N ws j r q fwd (net'(r := n)))
       | Call (MixRequest q reply) \<Rightarrow> carry N ws j r q reply (net'(r := n'))
       | _ \<Rightarrow> Ok (net'(r := n')))"
proof -
  have r: "path \<noteq> []" "distinct path" "length path \<le> 3"
    "delivers N (packet_bytes msg) (zip (map (\<lambda>q. mix_secret (net q)) path) (map (node_address_for N) path)) payload"
    using assms(1) by (simp_all add: route_def)
  have S: "set path \<subseteq> S" "successively (\<noteq>) (sender # path)" "length path \<le> k"
  proof -
    show "set path \<subseteq> S" "length path \<le> k" using assms(4,6) r(3) by auto
    have "sender \<notin> set path" using assms(4) by blast
    then show "successively (\<noteq>) (sender # path)" using r(2) by (intro distinct_successively) simp
  qed
  let ?r = r and ?j = "k - length path"
  from carry_to_last [OF r(1,4) assms(2,3) S(1,2) assms(5) S(3), unfolded assms(7)] obtain net1 sender' msg' where
    c: "carry N ws k sender (hd path) msg net = carry N ws (Suc ?j) sender' ?r msg' net1"
    and net1: "mesh N S net1" "quiet net net1" "sender' \<in> S" "sender_routing_public_key msg' = mix_public (net sender')"
    and d: "delivers N (packet_bytes msg') [(mix_secret (net ?r), node_address_for N ?r)] payload" by blast
  have id: "mix_secret (net1 x) = mix_secret (net x)" "mix_public (net1 x) = mix_public (net x)" for x
    using net1(2) by (simp_all add: quiet_def mix_id_def)
  let ?n = "received sender' msg' (net1 ?r)"
  obtain d i body where last: "sphinx_wf N (packet_bytes msg')" "recover_plaintext N body = Ok payload"
    "sphinx_process N (packet_bytes msg') (mix_secret (net1 ?r)) = Ok (FinalHop d i body)"
    using d by (auto simp: id)
  have m: "mesh N S (net1(?r := ?n))"
    by (rule mesh_received [OF net1(1,3), of msg']) (simp_all only: net1(4) id received_simps)
  have q: "quiet net (net1(?r := ?n))" using net1(2) by (simp add: quiet_def)
  have e: "carry N ws (Suc ?j) sender' ?r msg' net1 =
      bind_res (handle_final_payload N (ws ?j) payload ?n) (\<lambda>n'.
       case last (outputs n') of
         Spawn (ForwardAfter delay q fwd) \<Rightarrow>
           bind_res (loop_step N (\<lambda>i. ws ?j) (ForwardReady q fwd) n')
             (\<lambda>(n, _). carry N ws ?j ?r q fwd (net1(?r := n)))
       | Call (MixRequest q reply) \<Rightarrow> carry N ws ?j ?r q reply (net1(?r := n'))
       | _ \<Rightarrow> Ok (net1(?r := n')))"
    unfolding carry.simps(2) final_step [OF last(1,3,2)] by (cases "handle_final_payload N (ws ?j) payload ?n") simp_all
  show ?thesis
  proof (rule that [of ?j "net1(?r := ?n)" ?n])
    show "k - 3 \<le> ?j" using r(3) by simp
  qed (use q m in \<open>simp_all only: c e fun_upd_upd fun_upd_same\<close>)
qed

lemma final_deposit:
  assumes "wire_laws N" and "frame_mailbox_deposit N d = Some payload" and "validate (prims N) d (clock w 0) = Ok ()"
  shows "handle_final_payload N w payload n =
    Ok (emit MailboxDepositStored (n\<lparr>mailbox_store := accept (prims N) d (mailbox_store n)\<rparr>))"
proof -
  obtain bs where bs: "enc_deposit N d = Some bs" "payload = 1 # bs"
    using assms(2) by (auto simp: frame_mailbox_deposit_def payload_tags)
  then have "\<not> is_dummy_payload payload" "parse_mailbox_deposit N payload = Some d"
    using assms(1) is_dummy_first [of 1 bs] by (auto simp: parse_defs wire_laws_def)
  then show ?thesis using assms(3) by (simp add: handle_final_payload_def)
qed

lemma final_query:
  assumes "length tag = 32" and "surb \<noteq> []" and "surb_wf N surb" and "for_tag tag (mailbox_store n) = c # cs"
    and "use_surb N surb (frame_mailbox_reply (c_envelope c)) = Ok (pk, a)" and "map_of (known_mix_relays n) a = Some q"
  shows "handle_final_payload N w (frame_mailbox_query tag surb) n = Ok (call (MixRequest q (own_message pk n)) n)"
proof -
  let ?p = "frame_mailbox_query tag surb"
  have "\<not> is_dummy_payload ?p" "parse_mailbox_deposit N ?p = None" "parse_mailbox_query N ?p = Some (tag, surb)"
    using assms(1-3) is_dummy_first [of 2 "tag @ surb"]
    by (auto simp: frame_mailbox_query_def parse_defs MAILBOX_TAG_LEN_def)
  then show ?thesis using assms(4-6) by (simp add: handle_final_payload_def)
qed

lemma final_reply:
  "handle_final_payload N w (frame_mailbox_reply envelope) n = Ok (emit (MailboxEnvelopeRetrieved envelope) n)"
proof -
  let ?p = "frame_mailbox_reply envelope"
  have "\<not> is_dummy_payload ?p" "parse_mailbox_deposit N ?p = None" "parse_mailbox_query N ?p = None"
    "parse_mailbox_reply ?p = Some envelope"
    using is_dummy_first [of 3 envelope] by (auto simp: frame_mailbox_reply_def parse_defs)
  then show ?thesis by (simp add: handle_final_payload_def)
qed

lemma own_message_simps [simp]:
  "packet_bytes (own_message pk n) = pk" "sender_routing_public_key (own_message pk n) = mix_public n"
  by (simp_all add: own_message_def)

text \<open>The deposit.\<close>

lemma deposit_arrives:
  assumes "mesh N S net" and "s \<in> S" and "nearest N S (d_tag d) r" and "r \<noteq> s" and "rand_laws w"
    and "digest32 (sha256 (prims N))" and "sphinx_laws N" and "wire_laws N" and "3 \<le> max_path_length N"
    and "frame_mailbox_deposit N d = Some payload" and "fits N payload"
    and "\<forall>i. validate (prims N) d (clock (ws i) 0) = Ok ()" and "3 \<le> k"
  shows "\<exists>net1. handle_and_carry N w ws k s (DepositStamped d) net = Ok net1 \<and> mesh N S net1 \<and>
    mailbox_store (net1 r) = accept (prims N) d (mailbox_store (net r)) \<and>
    (\<forall>p. p \<noteq> r \<longrightarrow> mailbox_store (net1 p) = mailbox_store (net p)) \<and>
    last (outputs (net1 r)) = Event MailboxDepositStored"
proof -
  obtain pk path where sent: "loop_step N (\<lambda>i. w) (DepositStamped d) (net s) =
      Ok (call (MixRequest (hd path) (own_message pk (net s))) (net s), True)"
    "route N net pk path payload" "last path = r" "set path \<subseteq> S - {s}"
    using deposit_sent [OF assms(1-7,9-11)] by blast
  let ?msg = "own_message pk (net s)" and ?net = "net(s := call (MixRequest (hd path) (own_message pk (net s))) (net s))"
  have q: "quiet net ?net" and m: "mesh N S ?net"
    using mesh_update [OF assms(1), of "call (MixRequest (hd path) ?msg) (net s)" s] by (simp_all add: quiet_def)
  then have id: "mix_secret (?net x) = mix_secret (net x)" "mix_public (?net x) = mix_public (net x)"
    "mailbox_store (?net x) = mailbox_store (net x)" for x
    by (simp_all add: quiet_def mix_id_def call_def)
  have route: "route N ?net (packet_bytes ?msg) path payload"
    using sent(2) by (simp only: route_def id own_message_simps simp_thms)
  have key: "sender_routing_public_key ?msg = mix_public (?net s)" by (simp only: id own_message_simps)
  obtain j net' n where c: "k - 3 \<le> j" "quiet ?net net'" "net' r = n" "mesh N S net'"
    "carry N ws k s (hd path) ?msg ?net =
      bind_res (handle_final_payload N (ws j) payload n) (\<lambda>n'.
       case last (outputs n') of
         Spawn (ForwardAfter delay q fwd) \<Rightarrow>
           bind_res (loop_step N (\<lambda>i. ws j) (ForwardReady q fwd) n') (\<lambda>(n, _). carry N ws j r q fwd (net'(r := n)))
       | Call (MixRequest q reply) \<Rightarrow> carry N ws j r q reply (net'(r := n'))
       | _ \<Rightarrow> Ok (net'(r := n')))"
    by (rule carry_route [OF route m assms(2) sent(4) key assms(13) sent(3)])
  let ?stored = "emit MailboxDepositStored (n\<lparr>mailbox_store := accept (prims N) d (mailbox_store n)\<rparr>)"
  have "handle_final_payload N (ws j) payload n = Ok ?stored" by (rule final_deposit [OF assms(8,10)]) (use assms(12) in simp)
  then have "carry N ws k s (hd path) ?msg ?net = Ok (net'(r := ?stored))" unfolding c(5) by (simp add: Let_def)
  then have "handle_and_carry N w ws k s (DepositStamped d) net = Ok (net'(r := ?stored))"
    using sent(1) by (simp add: handle_and_carry_def del: loop_step.simps)
  moreover have "mesh N S (net'(r := ?stored))"
    by (rule mesh_quiet [OF m c(2,4)]) (simp_all add: mix_id_def c(3) emit_def)
  moreover have "mailbox_store (net' p) = mailbox_store (net p)" for p using c(2) q by (simp add: quiet_def)
  ultimately show ?thesis using c(3) by (intro exI [of _ "net'(r := ?stored)"]) auto
qed

text \<open>The query and its answer.\<close>

lemma query_answered:
  assumes "mesh N S net" and "t \<in> S" and "rand_laws w"
    and "digest32 (sha256 (prims N))" and "sphinx_laws N" and "3 \<le> max_path_length N"
    and "nearest N S (mailbox_tag (prims N) sm (epoch_for (clock w 0))) r" and "r \<noteq> t"
    and "length (mailbox_tag (prims N) sm (epoch_for (clock w 0))) = 32"
    and "for_tag (mailbox_tag (prims N) sm (epoch_for (clock w 0))) (mailbox_store (net r)) = c # cs"
    and "surbs_fit N (mailbox_tag (prims N) sm (epoch_for (clock w 0))) (frame_mailbox_reply (c_envelope c))" and "6 \<le> k"
  shows "\<exists>net1. handle_and_carry N w ws k t (CommandReceived (RetrieveFromMailbox sm)) net = Ok net1 \<and>
    last (outputs (net1 t)) = Event (MailboxEnvelopeRetrieved (c_envelope c))"
proof -
  let ?tag = "mailbox_tag (prims N) sm (epoch_for (clock w 0))" and ?reply = "frame_mailbox_reply (c_envelope c)"
  obtain pk path surb rpath ret_pk where sent: "loop_step N (\<lambda>i. w) (CommandReceived (RetrieveFromMailbox sm)) (net t) =
      Ok (call (MixRequest (hd path) (own_message pk (net t))) (net t), True)"
    "route N net pk path (frame_mailbox_query ?tag surb)" "last path = r" "set path \<subseteq> S - {t}"
    and surb: "surb \<noteq> []" "surb_wf N surb" "use_surb N surb ?reply = Ok (ret_pk, node_address_for N (hd rpath))"
    and way: "route N net ret_pk rpath ?reply" "last rpath = t" "set rpath \<subseteq> S - {r}"
    using query_sent [OF assms(1-8,11)] by blast
  let ?msg = "own_message pk (net t)" and ?net = "net(t := call (MixRequest (hd path) (own_message pk (net t))) (net t))"
  have q: "quiet net ?net" and m: "mesh N S ?net"
    using mesh_update [OF assms(1), of "call (MixRequest (hd path) ?msg) (net t)" t] by (simp_all add: quiet_def)
  then have id: "mix_secret (?net x) = mix_secret (net x)" "mix_public (?net x) = mix_public (net x)"
    "mailbox_store (?net x) = mailbox_store (net x)" for x
    by (simp_all add: quiet_def mix_id_def call_def)
  have route: "route N ?net (packet_bytes ?msg) path (frame_mailbox_query ?tag surb)"
    using sent(2) by (simp only: route_def id own_message_simps simp_thms)
  have key: "sender_routing_public_key ?msg = mix_public (?net t)" by (simp only: id own_message_simps)
  have k3: "3 \<le> k" using assms(12) by simp
  obtain j net' n where c: "k - 3 \<le> j" "quiet ?net net'" "net' r = n" "mesh N S net'"
    "carry N ws k t (hd path) ?msg ?net =
      bind_res (handle_final_payload N (ws j) (frame_mailbox_query ?tag surb) n) (\<lambda>n'.
       case last (outputs n') of
         Spawn (ForwardAfter delay q fwd) \<Rightarrow>
           bind_res (loop_step N (\<lambda>i. ws j) (ForwardReady q fwd) n') (\<lambda>(n, _). carry N ws j r q fwd (net'(r := n)))
       | Call (MixRequest q reply) \<Rightarrow> carry N ws j r q reply (net'(r := n'))
       | _ \<Rightarrow> Ok (net'(r := n')))"
    by (rule carry_route [OF route m assms(2) sent(4) key k3 sent(3)])
  have r: "r \<in> S" using assms(7) by (simp add: nearest_def)
  have rp: "rpath \<noteq> []" using way(1) by (simp add: route_def)
  have "hd rpath \<in> S" "hd rpath \<noteq> r" using way(3) list.set_sel(1) [OF rp] by auto
  then have next_hop: "map_of (known_mix_relays n) (node_address_for N (hd rpath)) = Some (hd rpath)"
    using mesh_next [OF c(4) r] by (simp add: c(3))
  have store: "mailbox_store n = mailbox_store (net r)" using c(2,3) id(3) by (auto simp: quiet_def)
  let ?n = "call (MixRequest (hd rpath) (own_message ret_pk n)) n"
  have "handle_final_payload N (ws j) (frame_mailbox_query ?tag surb) n = Ok ?n"
    by (rule final_query [OF assms(9) surb(1,2) _ surb(3) next_hop]) (use assms(10) in \<open>simp add: store\<close>)
  then have first: "carry N ws k t (hd path) ?msg ?net = carry N ws j r (hd rpath) (own_message ret_pk n) (net'(r := ?n))"
    unfolding c(5) by (simp add: Let_def)
  let ?net' = "net'(r := ?n)"
  have m': "mesh N S ?net'" by (rule mesh_quiet [OF m c(2,4)]) (simp_all add: c(3))
  have "quiet net ?net'" using quiet_trans [OF q c(2)] by (simp add: quiet_def flip: c(3))
  then have id': "mix_secret (?net' x) = mix_secret (net x)" for x by (simp add: quiet_def mix_id_def)
  have route': "route N ?net' (packet_bytes (own_message ret_pk n)) rpath ?reply"
    using way(1) by (simp only: route_def id' own_message_simps simp_thms)
  have key': "sender_routing_public_key (own_message ret_pk n) = mix_public (?net' r)" by (simp add: call_def)
  have j3: "3 \<le> j" using c(1) assms(12) by simp
  obtain i net'' n' where d: "j - 3 \<le> i" "quiet ?net' net''" "net'' t = n'" "mesh N S net''"
    "carry N ws j r (hd rpath) (own_message ret_pk n) ?net' =
      bind_res (handle_final_payload N (ws i) ?reply n') (\<lambda>n.
       case last (outputs n) of
         Spawn (ForwardAfter delay q fwd) \<Rightarrow>
           bind_res (loop_step N (\<lambda>k. ws i) (ForwardReady q fwd) n) (\<lambda>(n, _). carry N ws i t q fwd (net''(t := n)))
       | Call (MixRequest q reply) \<Rightarrow> carry N ws i t q reply (net''(t := n))
       | _ \<Rightarrow> Ok (net''(t := n)))"
    by (rule carry_route [OF route' m' r way(3) key' j3 way(2)])
  have "carry N ws j r (hd rpath) (own_message ret_pk n) ?net' = Ok (net''(t := emit (MailboxEnvelopeRetrieved (c_envelope c)) n'))"
    unfolding d(5) final_reply by (simp add: Let_def)
  then show ?thesis
    using sent(1) first by (simp add: handle_and_carry_def del: loop_step.simps)
qed

subsection \<open>There and back\<close>

text \<open>C14: a message left for someone who is away reaches them. In a mesh of connected relays, a stamped
  deposit is stored by the relay closest to its tag and by no other node, and a later query of the
  recipient in the same epoch brings back exactly the envelope of it, over paths of up to three hops
  each way: no packet is dropped, misread or sent to a node that does not exist.\<close>

theorem mailbox_round_trip:
  assumes "mesh N S net" and "s \<in> S" and "t \<in> S" and "nearest N S (d_tag d) r" and "r \<noteq> s" and "r \<noteq> t"
    and "sphinx_laws N" and "wire_laws N" and "bincode_laws (prims N)" and "digest32 (sha256 (prims N))" and "3 \<le> max_path_length N"
    and "rand_laws w" and "rand_laws w'"
    and "frame_mailbox_deposit N d = Some payload" and "fits N payload"
    and "surbs_fit N (d_tag d) (frame_mailbox_reply (d_envelope d))"
    and "d_tag d = mailbox_tag (prims N) sm (epoch_for (clock w' 0))" and "length (d_tag d) = 32"
    and "\<forall>i. validate (prims N) d (clock (ws i) 0) = Ok ()"
    and "mailbox_ok (prims N) (mailbox_store (net r))" and "for_tag (d_tag d) (mailbox_store (net r)) = []"
    and "map_of (deposits (mailbox_store (net r))) (deposit_key (prims N) d) = None"
    and "total_bytes (mailbox_store (net r)) + stored_size (prims N) \<lparr> s_tag = d_tag d, s_envelope = d_envelope d \<rparr> < 2 ^ 64"
    and "3 \<le> k" and "6 \<le> k'"
  shows "\<exists>net1 net2. handle_and_carry N w ws k s (DepositStamped d) net = Ok net1 \<and>
    last (outputs (net1 r)) = Event MailboxDepositStored \<and>
    (\<forall>p. p \<noteq> r \<longrightarrow> mailbox_store (net1 p) = mailbox_store (net p)) \<and>
    handle_and_carry N w' ws' k' t (CommandReceived (RetrieveFromMailbox sm)) net1 = Ok net2 \<and>
    last (outputs (net2 t)) = Event (MailboxEnvelopeRetrieved (d_envelope d))"
proof -
  obtain net1 where net1: "handle_and_carry N w ws k s (DepositStamped d) net = Ok net1" "mesh N S net1"
    "mailbox_store (net1 r) = accept (prims N) d (mailbox_store (net r))"
    "\<forall>p. p \<noteq> r \<longrightarrow> mailbox_store (net1 p) = mailbox_store (net p)" "last (outputs (net1 r)) = Event MailboxDepositStored"
    using deposit_arrives [OF assms(1,2,4,5,12,10,7,8,11,14,15,19,24)] by blast
  let ?c = "\<lparr> c_key = deposit_key (prims N) d, c_envelope = d_envelope d \<rparr>"
  have "for_tag (d_tag d) (mailbox_store (net1 r)) = [?c]"
    unfolding net1(3) by (rule accept_serves [OF assms(9,20-23)])
  then have "\<exists>net2. handle_and_carry N w' ws' k' t (CommandReceived (RetrieveFromMailbox sm)) net1 = Ok net2 \<and>
      last (outputs (net2 t)) = Event (MailboxEnvelopeRetrieved (c_envelope ?c))"
    using assms(4,16,18) unfolding assms(17)
    by (intro query_answered [OF net1(2) assms(3,13,10,7,11) _ assms(6) _ _ _ assms(25)]) simp_all
  then show ?thesis using net1(1,4,5) by auto
qed

subsection \<open>A concrete exchange\<close>

definition mail_peers :: "PeerId list" where
  "mail_peers = [[4], [2], [3], [5]]"

definition mail_node :: "PeerId \<Rightarrow> Node" where
  "mail_node p = (initial_node p p (x_public toy p) sample_store fresh_mailbox)
     \<lparr>known_mix_relays := toy_relays (filter (\<lambda>q. q \<noteq> p) mail_peers), known_mix_routing_keys := (\<lambda>q. Some (x_public toy q))\<rparr>"

lemma mail_node_simps [simp]:
  "local_peer_id (mail_node p) = p" "mix_secret (mail_node p) = p" "mix_public (mail_node p) = x_public toy p"
  "known_mix_relays (mail_node p) = toy_relays (filter (\<lambda>q. q \<noteq> p) mail_peers)"
  "known_mix_routing_keys (mail_node p) = (\<lambda>q. Some (x_public toy q))" "mailbox_store (mail_node p) = fresh_mailbox"
  by (simp_all add: mail_node_def initial_node_def)

lemma mail_mesh: "mesh toy_network (set mail_peers) mail_node"
proof -
  have addr: "inj_on (node_address_for toy_network) (set mail_peers)" by (simp add: mail_peers_def node_address_for_def)
  have "relays_ok toy_network (toy_relays ps)" if "set ps \<subseteq> set mail_peers" "distinct ps" for ps
    using that inj_on_subset [OF addr] by (auto simp: relays_ok_def toy_relays_def comp_def distinct_map)
  moreover have "distinct mail_peers" by (simp add: mail_peers_def)
  ultimately show ?thesis by (auto simp: mesh_def toy_relays_def)
qed

lemma toy_deposit_valid:
  assumes "i \<le> 60"
  shows "validate toy (toy_deposit i) (clock toy_world 0) = Ok ()"
proof -
  have "length (pow_hash toy tag env time nonce) = 32" and "of_be (pow_hash toy tag env time nonce) < 2 ^ 236" for tag env time nonce
    using unat_byte_less [of "sum_list (pow_preimage toy tag env time nonce)"] by (simp_all add: pow_hash_def of_be_append)
  then show ?thesis using assms
    by (simp add: validate_def meets_pow_iff toy_deposit_def toy_world_def abs_diff_def MAX_ENVELOPE_BYTES_def MAX_CLOCK_DRIFT_SECS_def) linarith
qed

lemma mailbox_round_trip_witness:
  "\<exists>net1 net2. handle_and_carry toy_network toy_world (\<lambda>i. toy_world) 3 [4] (DepositStamped (toy_deposit 5)) mail_node = Ok net1 \<and>
    last (outputs (net1 [2])) = Event MailboxDepositStored \<and>
    handle_and_carry toy_network toy_world (\<lambda>i. toy_world) 6 [3] (CommandReceived (RetrieveFromMailbox [7])) net1 = Ok net2 \<and>
    last (outputs (net2 [3])) = Event (MailboxEnvelopeRetrieved [2, 3])"
proof -
  have near: "nearest toy_network (set mail_peers) (d_tag (toy_deposit 5)) [2]"
    by (auto simp: nearest_def mail_peers_def of_be_def)
  have in_S: "[4] \<in> set mail_peers" "[3] \<in> set mail_peers" by (simp_all add: mail_peers_def)
  have framed: "frame_mailbox_deposit toy_network (toy_deposit 5) = Some [1, 9]" by (simp add: frame_mailbox_deposit_def payload_tags)
  have room: "fits toy_network p" "surbs_fit toy_network tag p" for p tag by (simp_all add: fits_def surbs_fit_def)
  have tag: "d_tag (toy_deposit 5) = mailbox_tag toy [7] (epoch_for (clock toy_world 0))" "length (d_tag (toy_deposit 5)) = 32"
    by (simp_all add: toy_deposit_def mailbox_tag_def MAILBOX_TAG_LEN_def sum_list_replicate)
  have valid: "\<forall>i. validate toy (toy_deposit 5) (clock ((\<lambda>i :: nat. toy_world) i) 0) = Ok ()"
    by (simp add: toy_deposit_valid)
  have empty: "for_tag tag fresh_mailbox = []" "map_of (deposits fresh_mailbox) key = None" for tag key
    by (simp_all add: for_tag_def mailbox_open_def no_mailbox_file_def List.map_filter_simps)
  have envelope: "d_envelope (toy_deposit 5) = [2, 3]" by (simp add: toy_deposit_def)
  have size: "total_bytes fresh_mailbox + stored_size toy \<lparr> s_tag = d_tag (toy_deposit 5), s_envelope = d_envelope (toy_deposit 5) \<rparr> < 2 ^ 64"
    by (simp add: toy_sizes fresh_mailbox_ok(3))
  show ?thesis
    using mailbox_round_trip [where N = toy_network and net = mail_node and k = 3 and k' = 6 and ws = "\<lambda>i. toy_world"
        and ws' = "\<lambda>i. toy_world", OF mail_mesh in_S near _ _ toy_network_sphinx toy_network_wire _ _ _ toy_world_rand toy_world_rand
        framed room(1) room(2) _ tag(2), of "[7]"]
      tag(1) valid empty toy_laws(6) toy_digest32 fresh_mailbox_ok(1) size
    by (simp add: envelope) blast
qed

end
