(* ===== verification/Mail_Retrieval.thy ===== *)
theory Mail_Retrieval
  imports Mail_Delivery
begin

text \<open>
  What a relay answers when several messages wait under one tag. A query removes nothing from the cache
  of \<^verbatim>\<open>packages/p2p-core/src/mailbox.rs\<close>, and no other handler of \<^verbatim>\<open>node.rs\<close> does, so only eviction for
  space ever brings a later message forward.
\<close>

subsection \<open>The oldest deposit of a tag\<close>

lemma insert_keeps_first:
  assumes "table_ok t" and "filter Q t = x # xs" and "k \<noteq> fst x" and "Q (k, v) \<Longrightarrow> fst x < k"
  shows "\<exists>xs'. filter Q (table_insert k v t) = x # xs'"
  using assms
proof (induction k v t rule: table_insert.induct)
  case (2 k v k' v' t)
  show ?case
  proof (cases "Q (k', v')")
    case True
    then show ?thesis using "2.prems" by auto
  next
    case False
    then have x: "filter Q t = x # xs" using "2.prems"(2) by simp
    have "x \<in> set (filter Q t)" unfolding x by simp
    then have "x \<in> set t" by simp
    then have "k' < fst x" using "2.prems"(1) by (auto simp: table_ok_def)
    then show ?thesis using False x "2.prems" "2.IH" by (auto simp: table_ok_def)
  qed
qed simp

lemma accept_with_room:
  assumes "u64_add (total_bytes s) (stored_size P \<lparr> s_tag = d_tag d, s_envelope = d_envelope d \<rparr>) \<le> limit_bytes s"
  shows "deposits (accept P d s) = table_insert (deposit_key P d) \<lparr> s_tag = d_tag d, s_envelope = d_envelope d \<rparr> (deposits s)"
    and "limit_bytes (accept P d s) = limit_bytes s"
  using assms by (simp_all add: accept_def Let_def) (subst evict_until_room_for.simps, simp)+

definition waits_first :: "bytes \<Rightarrow> bytes \<Rightarrow> bytes \<Rightarrow> MailboxStore \<Rightarrow> bool" where
  "waits_first tag key envelope s \<longleftrightarrow>
     (\<exists>rows. filter (\<lambda>(k, v). s_tag v = tag) (deposits s) = (key, \<lparr> s_tag = tag, s_envelope = envelope \<rparr>) # rows)"

lemma waits_first_served:
  assumes "mailbox_ok P s" and "waits_first tag key envelope s"
  shows "\<exists>cs. for_tag tag s = \<lparr> c_key = key, c_envelope = envelope \<rparr> # cs"
  using assms by (auto simp: waits_first_def for_tag_scan scan_tag_def)

lemma accept_waits:
  assumes "table_ok (deposits s)" and "waits_first tag key envelope s" and "d_tag d = tag \<longrightarrow> key < deposit_key P d" and "deposit_key P d \<noteq> key"
    and "u64_add (total_bytes s) (stored_size P \<lparr> s_tag = d_tag d, s_envelope = d_envelope d \<rparr>) \<le> limit_bytes s"
  shows "waits_first tag key envelope (accept P d s)"
proof -
  obtain rows where "filter (\<lambda>(k, v). s_tag v = tag) (deposits s) = (key, \<lparr> s_tag = tag, s_envelope = envelope \<rparr>) # rows"
    using assms(2) by (auto simp: waits_first_def)
  from insert_keeps_first [OF assms(1) this, of "deposit_key P d" "\<lparr> s_tag = d_tag d, s_envelope = d_envelope d \<rparr>"] assms(3,4)
  show ?thesis by (simp add: waits_first_def accept_with_room [OF assms(5)])
qed

subsection \<open>Payloads that arrive at a relay\<close>

fun receive_all :: "Network \<Rightarrow> (World \<times> bytes) list \<Rightarrow> Node \<Rightarrow> (LedgerError, Node) res" where
  "receive_all N [] n = Ok n"
| "receive_all N ((w, p) # ps) n = bind_res (handle_final_payload N w p n) (receive_all N ps)"

definition deposits_in :: "Network \<Rightarrow> (World \<times> bytes) list \<Rightarrow> MailboxDeposit list" where
  "deposits_in N ps = List.map_filter (\<lambda>(w, p). parse_mailbox_deposit N p) ps"

lemma final_payload_store:
  assumes "handle_final_payload N w p n = Ok n'"
  shows "mailbox_store n' = mailbox_store n \<or>
    (\<exists>d. parse_mailbox_deposit N p = Some d \<and> mailbox_store n' = accept (prims N) d (mailbox_store n))"
  using assms
  by (auto simp: handle_final_payload_def emit_def call_def split: option.splits list.splits res.splits prod.splits if_splits)

lemma receive_all_returns:
  assumes "sphinx_returns N"
  shows "\<exists>n'. receive_all N ps n = Ok n'"
proof (induction ps arbitrary: n)
  case (Cons wp ps)
  obtain w p n1 where "wp = (w, p)" "handle_final_payload N w p n = Ok n1" using final_payload_returns [OF assms] by (cases wp) blast
  then show ?case using Cons.IH [of n1] by simp
qed simp

lemma receive_keeps_first:
  assumes "bincode_laws (prims N)" and "keys_identify_tags (prims N) ds" and "set (deposits_in N ps) \<subseteq> ds"
    and "mailbox_ok (prims N) (mailbox_store n)" and "came_from (prims N) ds (mailbox_store n)"
    and "waits_first tag key envelope (mailbox_store n)"
    and "\<forall>d \<in> set (deposits_in N ps). (d_tag d = tag \<longrightarrow> key < deposit_key (prims N) d) \<and> deposit_key (prims N) d \<noteq> key"
    and "total_bytes (mailbox_store n) + added_bytes (prims N) (map Accept (deposits_in N ps)) \<le> limit_bytes (mailbox_store n)"
    and "limit_bytes (mailbox_store n) < 2 ^ 64" and "receive_all N ps n = Ok n'"
  shows "mailbox_ok (prims N) (mailbox_store n') \<and> waits_first tag key envelope (mailbox_store n')"
  using assms(3-10)
proof (induction ps arbitrary: n)
  case (Cons wp ps)
  obtain w p where wp: "wp = (w, p)" by (cases wp)
  let ?s = "mailbox_store n"
  obtain n1 where n1: "handle_final_payload N w p n = Ok n1" and run: "receive_all N ps n1 = Ok n'"
    using Cons.prems(8) by (auto simp: wp bind_res_Ok)
  show ?case
  proof (cases "mailbox_store n1 = ?s")
    case True
    have "set (deposits_in N ps) \<subseteq> set (deposits_in N (wp # ps))"
      and "added_bytes (prims N) (map Accept (deposits_in N ps)) \<le> added_bytes (prims N) (map Accept (deposits_in N (wp # ps)))"
      by (auto simp: deposits_in_def List.map_filter_simps wp added_bytes_def split: option.split)
    then show ?thesis using Cons.prems by (intro Cons.IH [OF _ _ _ _ _ _ _ run]) (auto simp: True)
  next
    case False
    then obtain d where d: "parse_mailbox_deposit N p = Some d" "mailbox_store n1 = accept (prims N) d ?s"
      using final_payload_store [OF n1] by blast
    have ds: "deposits_in N (wp # ps) = d # deposits_in N ps" by (simp add: deposits_in_def List.map_filter_simps wp d(1))
    let ?size = "stored_size (prims N) \<lparr> s_tag = d_tag d, s_envelope = d_envelope d \<rparr>"
    have sum: "total_bytes ?s + ?size + added_bytes (prims N) (map Accept (deposits_in N ps)) \<le> limit_bytes ?s"
      using Cons.prems(6) by (simp add: ds added_bytes_def)
    then have room: "u64_add (total_bytes ?s) ?size \<le> limit_bytes ?s" "total_bytes ?s + added_bytes (prims N) [Accept d] < 2 ^ 64"
      using Cons.prems(7) by (simp_all add: u64_add_def added_bytes_def)
    have ok: "mailbox_ok (prims N) (accept (prims N) d ?s)" "came_from (prims N) ds (accept (prims N) d ?s)"
      "total_bytes (accept (prims N) d ?s) \<le> total_bytes ?s + ?size"
      using mailbox_step_ok [OF assms(1) Cons.prems(2,3) assms(2) room(2)] Cons.prems(1)
      by (simp_all add: accepted_def ds added_bytes_def)
    have "table_ok (deposits ?s)" using Cons.prems(2) by (simp add: mailbox_ok_def)
    then show ?thesis
      using Cons.prems ok sum accept_waits [OF _ Cons.prems(4) _ _ room(1)] accept_with_room(2) [OF room(1)]
      by (intro Cons.IH [OF _ _ _ _ _ _ _ run]) (simp_all add: d(2) ds)
  qed
qed simp

text \<open>A deposit that reaches an empty cache and whatever comes after it.\<close>

lemma first_deposit_waits:
  assumes "bincode_laws (prims N)" and "keys_identify_tags (prims N) (insert d (set (deposits_in N ps)))"
    and "mailbox_store n = accept (prims N) d fresh_mailbox"
    and "\<forall>d' \<in> set (deposits_in N ps). d_tag d' = d_tag d \<longrightarrow> deposit_key (prims N) d < deposit_key (prims N) d'"
    and "added_bytes (prims N) (map Accept (d # deposits_in N ps)) \<le> DEFAULT_CACHE_LIMIT_BYTES"
    and "receive_all N ps n = Ok n'"
  shows "mailbox_ok (prims N) (mailbox_store n') \<and>
    waits_first (d_tag d) (deposit_key (prims N) d) (d_envelope d) (mailbox_store n')"
proof (rule receive_keeps_first [OF assms(1,2) subset_insertI])
  let ?P = "prims N" and ?size = "stored_size (prims N) \<lparr> s_tag = d_tag d, s_envelope = d_envelope d \<rparr>"
  have fresh: "total_bytes fresh_mailbox = 0" "limit_bytes fresh_mailbox = DEFAULT_CACHE_LIMIT_BYTES" "deposits fresh_mailbox = []"
    by (simp_all add: mailbox_open_def no_mailbox_file_def)
  have limit: "DEFAULT_CACHE_LIMIT_BYTES < 2 ^ 64" by (simp add: DEFAULT_CACHE_LIMIT_BYTES_def)
  have size: "?size + added_bytes ?P (map Accept (deposits_in N ps)) \<le> DEFAULT_CACHE_LIMIT_BYTES"
    using assms(5) by (simp add: added_bytes_def)
  then have room: "u64_add (total_bytes fresh_mailbox) ?size \<le> limit_bytes fresh_mailbox"
    "total_bytes fresh_mailbox + added_bytes ?P [Accept d] < 2 ^ 64"
    using limit by (simp_all add: fresh u64_add_def added_bytes_def)
  have ok: "mailbox_ok ?P (accept ?P d fresh_mailbox)" "came_from ?P (insert d (set (deposits_in N ps))) (accept ?P d fresh_mailbox)"
    "total_bytes (accept ?P d fresh_mailbox) \<le> ?size"
    using mailbox_step_ok [OF assms(1) fresh_mailbox_ok(1,2) assms(2) room(2)]
    by (simp_all add: accepted_def added_bytes_def fresh)
  have lim: "limit_bytes (accept ?P d fresh_mailbox) = DEFAULT_CACHE_LIMIT_BYTES"
    by (simp only: accept_with_room(2) [OF room(1)] fresh)
  show "mailbox_ok ?P (mailbox_store n)" "came_from ?P (insert d (set (deposits_in N ps))) (mailbox_store n)"
    by (simp_all only: assms(3) ok(1,2))
  show "waits_first (d_tag d) (deposit_key ?P d) (d_envelope d) (mailbox_store n)"
    by (simp add: assms(3) waits_first_def accept_with_room [OF room(1)] fresh)
  show "total_bytes (mailbox_store n) + added_bytes ?P (map Accept (deposits_in N ps)) \<le> limit_bytes (mailbox_store n)"
    using ok(3) size unfolding assms(3) lim by linarith
  show "limit_bytes (mailbox_store n) < 2 ^ 64" unfolding assms(3) lim by (rule limit)
  show "receive_all N ps n = Ok n'" by (rule assms(6))
  show "\<forall>d' \<in> set (deposits_in N ps). (d_tag d' = d_tag d \<longrightarrow> deposit_key ?P d < deposit_key ?P d') \<and>
      deposit_key ?P d' \<noteq> deposit_key ?P d"
  proof (intro ballI conjI)
    fix d' assume d': "d' \<in> set (deposits_in N ps)"
    then show "d_tag d' = d_tag d \<longrightarrow> deposit_key ?P d < deposit_key ?P d'" using assms(4) by blast
    then show "deposit_key ?P d' \<noteq> deposit_key ?P d"
      using assms(2) d' by (metis insertCI keys_identify_tags_def less_irrefl)
  qed
qed

text \<open>C39: the oldest message of a tag hides the others. Once a relay with an empty cache has stored a
  deposit, every query for its tag is answered with that deposit's envelope, however many queries were
  answered before and whatever else is stored meanwhile under the same tag with a later key, as long
  as the cache has room: a recipient who asks again is given the same message again.\<close>

theorem oldest_deposit_hides_others:
  assumes "bincode_laws (prims N)" and "wire_laws N"
    and "keys_identify_tags (prims N) (insert d (set (deposits_in N ps)))" and "mailbox_store n = fresh_mailbox"
    and "frame_mailbox_deposit N d = Some p" and "validate (prims N) d (clock w 0) = Ok ()"
    and "\<forall>d' \<in> set (deposits_in N ps). d_tag d' = d_tag d \<longrightarrow> deposit_key (prims N) d < deposit_key (prims N) d'"
    and "added_bytes (prims N) (map Accept (d # deposits_in N ps)) \<le> DEFAULT_CACHE_LIMIT_BYTES"
    and "length (d_tag d) = 32" and "surb \<noteq> []" and "surb_wf N surb" and "sphinx_returns N"
  shows "\<exists>n'. receive_all N ((w, p) # ps) n = Ok n' \<and>
    handle_final_payload N w' (frame_mailbox_query (d_tag d) surb) n' =
      (case use_surb N surb (frame_mailbox_reply (d_envelope d)) of
         Ok (reply, a) \<Rightarrow>
           Ok (case map_of (known_mix_relays n') a of Some q \<Rightarrow> call (MixRequest q (own_message reply n')) n' | None \<Rightarrow> n')
       | _ \<Rightarrow> Ok n')"
proof -
  let ?P = "prims N"
  obtain n1 where n1: "handle_final_payload N w p n = Ok n1" "mailbox_store n1 = accept ?P d fresh_mailbox"
    by (simp add: final_deposit [OF assms(2,5,6)] assms(4) emit_def)
  obtain n' where n': "receive_all N ps n1 = Ok n'" using receive_all_returns [OF assms(12)] by blast
  have "mailbox_ok ?P (mailbox_store n') \<and> waits_first (d_tag d) (deposit_key ?P d) (d_envelope d) (mailbox_store n')"
    by (rule first_deposit_waits [OF assms(1,3) n1(2) assms(7,8) n'])
  then obtain cs where "for_tag (d_tag d) (mailbox_store n') = \<lparr> c_key = deposit_key ?P d, c_envelope = d_envelope d \<rparr> # cs"
    using waits_first_served by blast
  moreover have "\<not> is_dummy_payload (frame_mailbox_query (d_tag d) surb)" "parse_mailbox_deposit N (frame_mailbox_query (d_tag d) surb) = None"
    "parse_mailbox_query N (frame_mailbox_query (d_tag d) surb) = Some (d_tag d, surb)"
    using assms(9-11) is_dummy_first [of 2 "d_tag d @ surb"]
    by (auto simp: frame_mailbox_query_def parse_defs MAILBOX_TAG_LEN_def)
  ultimately have "handle_final_payload N w' (frame_mailbox_query (d_tag d) surb) n' =
      (case use_surb N surb (frame_mailbox_reply (d_envelope d)) of
         Ok (reply, a) \<Rightarrow>
           Ok (case map_of (known_mix_relays n') a of Some q \<Rightarrow> call (MixRequest q (own_message reply n')) n' | None \<Rightarrow> n')
       | _ \<Rightarrow> Ok n')"
    by (auto simp: handle_final_payload_def packets_open [OF assms(12)] split: res.split option.split)
  then show ?thesis using n1(1) n' by auto
qed

text \<open>Two deposits under one tag, a query in between, and a query at the end.\<close>

definition two_deposits :: Network where
  "two_deposits = toy_network\<lparr>dec_deposit := \<lambda>bs. Some (toy_deposit (if bs = [9] then 5 else 6))\<rparr>"

lemma oldest_deposit_hides_others_witness:
  "\<exists>n n'. deposits_in two_deposits [(toy_world, [1, 8]), (toy_world, frame_mailbox_query (replicate 32 7) [2])] = [toy_deposit 6] \<and>
    receive_all two_deposits [(toy_world, [1, 9]), (toy_world, [1, 8]), (toy_world, frame_mailbox_query (replicate 32 7) [2])] n = Ok n' \<and>
    handle_final_payload two_deposits toy_world (frame_mailbox_query (replicate 32 7) [2]) n' =
      (case use_surb two_deposits [2] (frame_mailbox_reply [2, 3]) of
         Ok (reply, a) \<Rightarrow>
           Ok (case map_of (known_mix_relays n') a of Some q \<Rightarrow> call (MixRequest q (own_message reply n')) n' | None \<Rightarrow> n')
       | _ \<Rightarrow> Ok n')"
proof -
  let ?N = two_deposits and ?d = "toy_deposit 5"
  let ?ps = "[(toy_world, [1, 8]), (toy_world, frame_mailbox_query (replicate 32 7) [2])]"
  obtain n :: Node where n: "mailbox_store n = fresh_mailbox"
    using mail_node_simps by blast
  have p: "prims ?N = toy" by (simp add: two_deposits_def)
  have ds: "deposits_in ?N ?ps = [toy_deposit 6]"
    by (simp add: deposits_in_def List.map_filter_simps parse_defs two_deposits_def frame_mailbox_query_def)
  have tags: "d_tag (toy_deposit i) = replicate 32 7" "d_envelope (toy_deposit i) = [2, 3]" for i by (simp_all add: toy_deposit_def)
  have framed: "frame_mailbox_deposit ?N ?d = Some [1, 9]"
    by (simp add: frame_mailbox_deposit_def payload_tags two_deposits_def)
  have valid: "validate (prims ?N) ?d (clock toy_world 0) = Ok ()" unfolding p by (rule toy_deposit_valid) simp
  have wire: "wire_laws ?N" using toy_network_wire by (simp add: wire_laws_def two_deposits_def)
  have key: "deposit_key toy (toy_deposit i) = be_bytes 8 i @ sha256 toy (pow_preimage toy (replicate 32 7) [2, 3] i (le_bytes 8 0))" for i
    by (simp add: deposit_key_def toy_deposit_def)
  have order: "deposit_key toy ?d < deposit_key toy (toy_deposit 6)"
    unfolding key by (simp add: be_bytes_def less_list_code)
  have same: "keys_identify_tags (prims ?N) (insert ?d (set (deposits_in ?N ?ps)))"
    by (simp add: ds keys_identify_tags_def tags)
  have sizes: "added_bytes (prims ?N) (map Accept (?d # deposits_in ?N ?ps)) \<le> DEFAULT_CACHE_LIMIT_BYTES"
    by (simp add: ds p added_bytes_def toy_sizes DEFAULT_CACHE_LIMIT_BYTES_def)
  have later: "\<forall>d' \<in> set (deposits_in ?N ?ps). d_tag d' = d_tag ?d \<longrightarrow> deposit_key (prims ?N) ?d < deposit_key (prims ?N) d'"
    by (simp add: ds p order)
  have bincode: "bincode_laws (prims ?N)" unfolding p by (rule toy_laws(6))
  have surb: "surb_wf ?N [2]" by (simp add: two_deposits_def toy_network_def)
  have returns: "sphinx_returns ?N" using toy_network_returns by (simp add: sphinx_returns_def two_deposits_def toy_network_def)
  from oldest_deposit_hides_others [OF bincode wire same n framed valid later sizes _ _ surb returns, of toy_world] ds
  show ?thesis unfolding tags by fastforce
qed

end
