(* ===== verification/Convergence.thy ===== *)
theory Convergence
  imports Chain_Run
begin

text \<open>
  Agreement between nodes: chains of \<^verbatim>\<open>packages/ledger-core/src/chain_state.rs\<close> that were given blocks
  in different orders, at different times and with different invalid blocks in between agree once they
  know the same blocks, unless two branches have exactly the same work.
\<close>

subsection \<open>Chains that were never pruned\<close>

text \<open>Without pruning every known block has its body, and its work is that of its parent and its own.\<close>

definition unpruned :: "Primitives \<Rightarrow> Chain \<Rightarrow> bool" where
  "unpruned P c \<longleftrightarrow> floor_hash c = block_hash P (genesis P) \<and> floor_height c = 0 \<and> floor_username_owner c = Map.empty \<and>
     dom (blocks c) = dom (meta c) \<and> blocks c (block_hash P (genesis P)) = Some (genesis P) \<and>
     (\<forall>h m. meta c h = Some m \<longrightarrow>
        (if h = floor_hash c then m_cumulative_work m = Fin 0
         else \<exists>pm. meta c (m_prev_hash m) = Some pm \<and>
                m_cumulative_work m = f64_add (m_cumulative_work pm) (work_of (m_difficulty_target m))))"

lemma unpruned_new: "unpruned P (new_chain P)"
  by (auto simp: unpruned_def new_chain_def Let_def)

lemma unpruned_insert:
  assumes "unpruned P c" and "meta c hash = None" and "meta c (prev_hash (header b)) = Some pm" and "w = new_work c b"
    and "floor_hash c \<noteq> hash"
  shows "unpruned P (insert_block c hash b w)"
proof -
  let ?c = "insert_block c hash b w"
  have meta: "meta ?c = (meta c)(hash \<mapsto> \<lparr> m_height = height (header b), m_prev_hash = prev_hash (header b),
      m_timestamp = timestamp (header b), m_difficulty_target = difficulty_target (header b), m_cumulative_work = w \<rparr>)"
    by (simp add: insert_block_def)
  have ne: "prev_hash (header b) \<noteq> hash" using assms(2,3) by auto
  have "if h = floor_hash ?c then m_cumulative_work m = Fin 0
      else \<exists>pm. meta ?c (m_prev_hash m) = Some pm \<and>
        m_cumulative_work m = f64_add (m_cumulative_work pm) (work_of (m_difficulty_target m))"
    if m: "meta ?c h = Some m" for h m
  proof (cases "h = hash")
    case True
    then have m': "m = \<lparr> m_height = height (header b), m_prev_hash = prev_hash (header b), m_timestamp = timestamp (header b),
        m_difficulty_target = difficulty_target (header b), m_cumulative_work = w \<rparr>"
      using m by (simp add: meta)
    have "meta ?c (prev_hash (header b)) = Some pm" using ne assms(3) by (simp add: meta)
    then show ?thesis using True assms(3-5) by (simp add: m' new_work_def)
  next
    case False
    then have old: "meta c h = Some m" using m by (simp add: meta)
    then have "if h = floor_hash c then m_cumulative_work m = Fin 0
        else \<exists>pm. meta c (m_prev_hash m) = Some pm \<and>
          m_cumulative_work m = f64_add (m_cumulative_work pm) (work_of (m_difficulty_target m))"
      using assms(1) by (simp add: unpruned_def)
    then show ?thesis using assms(2) by (auto simp: meta split: if_splits)
  qed
  moreover have "dom (blocks ?c) = dom (meta ?c)" using assms(1) by (auto simp: unpruned_def meta)
  moreover have "blocks ?c (block_hash P (genesis P)) = Some (genesis P)" using assms(1,5) by (simp add: unpruned_def insert_block_def)
  ultimately show ?thesis using assms(1) by (simp add: unpruned_def)
qed

lemma unpruned_fields:
  "unpruned P c \<Longrightarrow> unpruned P (c\<lparr>canonical_index := i, username_owner := o', tip_hash := t\<rparr>)"
  by (simp add: unpruned_def)

lemma unpruned_apply:
  assumes inv: "chain_inv P c" and heights: "heights_ok c" and nz: "block_hash P b \<noteq> ZERO" and "unpruned P c"
  shows "unpruned P (fst (try_apply P c b now))"
  using inv heights nz
proof (cases rule: try_apply_cases [where now = now])
  case valid
  obtain pm where pm: "meta c (prev_hash (header b)) = Some pm" using validate_block_OkD [OF valid(2)] by metis
  have "floor_hash c \<in> dom (meta c)" using inv by (auto simp: chain_inv_def floored_def)
  then have "floor_hash c \<noteq> block_hash P b" using valid(1) by auto
  note ins = unpruned_insert [OF assms(4) valid(1) pm refl this]
  from inv heights nz valid show ?thesis
  proof (cases rule: try_apply_valid)
    case (fork w)
    then show ?thesis using ins by simp
  next
    case (tip w p st)
    then show ?thesis using ins unpruned_fields by simp
  qed
qed (use assms(4) in simp_all)

subsection \<open>The same blocks\<close>

lemma unpruned_metas_agree:
  assumes "chain_inv P c" and "unpruned P c" and "chain_inv P c'" and "unpruned P c'" and "blocks c' = blocks c"
    and "meta c h = Some m" and "meta c' h = Some m'"
  shows "m' = m"
proof -
  have inv: "linked c" "body_ok P c" "body_ok P c'" using assms(1,3) by (simp_all add: chain_inv_def)
  have fields: "m_height m' = m_height m \<and> m_prev_hash m' = m_prev_hash m \<and> m_timestamp m' = m_timestamp m \<and>
      m_difficulty_target m' = m_difficulty_target m" if h: "meta c h = Some m" "meta c' h = Some m'" for h m m'
  proof -
    have "h \<in> dom (blocks c)" using assms(2) h(1) by (simp add: unpruned_def dom_def)
    then obtain b where b: "blocks c h = Some b" by auto
    have "\<exists>m. meta d h = Some m \<and> matches b m" if "body_ok P d" "blocks d h = Some b" for d
      using that unfolding body_ok_def by blast
    then have "matches b m" "matches b m'" using inv(2,3) h b assms(5) by fastforce+
    then show ?thesis by (simp add: matches_def)
  qed
  have floor: "floor_hash c' = floor_hash c" using assms(2,4) by (simp add: unpruned_def)
  have work: "if h = floor_hash d then m_cumulative_work m = Fin 0
      else \<exists>pm. meta d (m_prev_hash m) = Some pm \<and>
        m_cumulative_work m = f64_add (m_cumulative_work pm) (work_of (m_difficulty_target m))"
    if "unpruned P d" "meta d h = Some m" for d h m using that by (simp add: unpruned_def)
  have zero: "meta c ZERO = None" using inv(1) by (simp add: linked_def)
  have "m_cumulative_work m' = m_cumulative_work m"
    using inv(1) assms(6,7)
  proof (induction arbitrary: m' rule: chain_induct)
    case (root h m)
    have "h = floor_hash c" using work [OF assms(2) root(1)] root(2) zero by (auto split: if_splits)
    then show ?case using work [OF assms(2) root(1)] work [OF assms(4) root.prems] floor by simp
  next
    case (child h m pm)
    note f = fields [OF child(1) child.prems]
    show ?case
    proof (cases "h = floor_hash c")
      case True
      then show ?thesis using work [OF assms(2) child(1)] work [OF assms(4) child.prems] floor by simp
    next
      case False
      obtain pm' where pm': "meta c' (m_prev_hash m') = Some pm'"
        "m_cumulative_work m' = f64_add (m_cumulative_work pm') (work_of (m_difficulty_target m'))"
        using work [OF assms(4) child.prems] False floor by auto
      have "m_cumulative_work pm' = m_cumulative_work pm" using child.IH [of pm'] pm'(1) f by simp
      then show ?thesis using work [OF assms(2) child(1)] False child(2) pm'(2) f by auto
    qed
  qed
  then show ?thesis using fields [OF assms(6,7)] by (cases m; cases m') simp
qed

lemma unpruned_meta_determined:
  assumes "chain_inv P c" and "unpruned P c" and "chain_inv P c'" and "unpruned P c'" and "blocks c' = blocks c"
  shows "meta c' = meta c"
proof
  fix h
  have "dom (meta c') = dom (meta c)" using assms(2,4,5) by (simp add: unpruned_def)
  then have "meta c' h = None \<longleftrightarrow> meta c h = None" by (metis domIff)
  then show "meta c' h = meta c h"
    using unpruned_metas_agree [OF assms] by (cases "meta c h"; cases "meta c' h") auto
qed

lemma run_unpruned:
  assumes "chain_inv P c" and "heights_le n c" and "n + length ops < 2 ^ 64 - 1" and "list_all (op_ok P) ops"
    and "\<forall>op \<in> set ops. \<exists>b now. op = Apply b now" and "unpruned P c"
  shows "chain_inv P (foldl (run_op P) c ops) \<and> unpruned P (foldl (run_op P) c ops)"
  using assms
proof (induction ops arbitrary: c n)
  case (Cons op ops)
  obtain b now where op: "op = Apply b now" using Cons.prems(5) by auto
  have step: "chain_inv P (run_op P c op) \<and> op_returns P c op \<and> heights_le (Suc n) (run_op P c op)"
    using Cons.prems by (intro run_op_step) simp_all
  have "heights_ok c" by (rule heights_le_ok [OF Cons.prems(2) le_less_trans [OF _ Cons.prems(3)]]) simp
  then have "unpruned P (run_op P c op)" using unpruned_apply [OF Cons.prems(1) _ _ Cons.prems(6)] Cons.prems(4) by (simp add: op)
  then show ?case using Cons.IH [of "run_op P c op" "Suc n"] Cons.prems step by simp
qed simp

lemma unpruned_agree:
  assumes inv: "chain_inv P c" "unpruned P c" "chain_inv P c'" "unpruned P c'" and "blocks c' = blocks c"
    and "\<forall>h m tm. meta c h = Some m \<and> meta c (tip_hash c) = Some tm \<and> f64_le (m_cumulative_work tm) (m_cumulative_work m) \<longrightarrow>
      h = tip_hash c"
  shows "tip_hash c' = tip_hash c \<and> username_owner c' = username_owner c \<and> canonical_index c' = canonical_index c"
proof -
  have meta: "meta c' = meta c" by (rule unpruned_meta_determined [OF inv assms(5)])
  have floor: "floor_hash c' = floor_hash c" "floor_height c' = floor_height c" "floor_height c = 0"
    "floor_username_owner c' = floor_username_owner c" using inv(2,4) by (simp_all add: unpruned_def)
  obtain tm where tm: "meta c (tip_hash c) = Some tm" using inv(1) by (auto simp: chain_inv_def heaviest_def)
  obtain tm' where tm': "meta c' (tip_hash c') = Some tm'" "f64_le (m_cumulative_work tm) (m_cumulative_work tm')"
    using inv(3) tm meta by (auto simp: chain_inv_def heaviest_def)
  have tip: "tip_hash c' = tip_hash c" using assms(6) tm tm' meta by metis
  have tips: "tip_ok c" "tip_ok c'" using inv(1,3) by (simp_all add: chain_inv_def)
  have "state_at c' (tip_hash c) = state_at c (tip_hash c)" by (rule state_at_cong) (simp_all add: meta floor assms(5))
  then have "username_owner c' = username_owner c" using tips tip by (simp add: tip_ok_def)
  moreover have "canonical_index c' = canonical_index c"
  proof
    fix k
    obtain p where p: "ancestors c (tip_hash c) = Ok p" "canonical_index c k = (if k < length p then Some (p ! k) else None)"
      using tips(1) floor(3) by (auto simp: tip_ok_def)
    have "ancestors c' (tip_hash c') = Ok p" using p(1) ancestors_cong [OF meta floor(1), of "tip_hash c"] tip by simp
    then show "canonical_index c' k = canonical_index c k" using tips(2) p(2) floor by (auto simp: tip_ok_def)
  qed
  ultimately show ?thesis using tip by simp
qed

text \<open>Every block such a chain knows was given to it.\<close>

lemma try_apply_blocks: "blocks (fst (try_apply P c b now)) h = Some b' \<Longrightarrow> blocks c h = Some b' \<or> b' = b"
  by (auto simp: try_apply_def set_canonical_tip_def insert_block_def Let_def split: res.splits option.splits if_splits)

lemma run_blocks:
  assumes "\<forall>op \<in> set ops. \<exists>b now. op = Apply b now" and "blocks (foldl (run_op P) c ops) h = Some b"
  shows "blocks c h = Some b \<or> (\<exists>now. Apply b now \<in> set ops)"
  using assms
proof (induction ops arbitrary: c)
  case (Cons op ops)
  obtain b' now where op: "op = Apply b' now" using Cons.prems(1) by auto
  from Cons.IH [of "run_op P c op"] Cons.prems try_apply_blocks [of P c b' now h b] show ?case by (auto simp: op)
qed simp

text \<open>Two chains that start from genesis and were given any blocks in any order, at any times, end with the
  same tip, the same owner of every name and the same block at every height as soon as they know the same
  blocks, provided no other block ties with the tip in cumulative work.\<close>

theorem same_blocks_same_chain:
  assumes "block_hash P (genesis P) \<noteq> ZERO" and "list_all (op_ok P) ops" and "list_all (op_ok P) ops'"
    and "length ops < 2 ^ 64 - 2" and "length ops' < 2 ^ 64 - 2"
    and "\<forall>op \<in> set ops \<union> set ops'. \<exists>b now. op = Apply b now"
    and "foldl (run_op P) (new_chain P) ops = c" and "foldl (run_op P) (new_chain P) ops' = c'"
    and "blocks c' = blocks c"
    and "\<forall>h m tm. meta c h = Some m \<and> meta c (tip_hash c) = Some tm \<and> f64_le (m_cumulative_work tm) (m_cumulative_work m) \<longrightarrow>
      h = tip_hash c"
  shows "tip_hash c' = tip_hash c \<and> username_owner c' = username_owner c \<and> canonical_index c' = canonical_index c"
proof -
  have "chain_inv P c" "unpruned P c" "chain_inv P c'" "unpruned P c'"
    using run_unpruned [OF new_chain_inv [OF assms(1)] heights_le_new, of ops] run_unpruned [OF new_chain_inv [OF assms(1)] heights_le_new, of ops']
      unpruned_new assms(2-8) by auto
  from unpruned_agree [OF this assms(9,10)] show ?thesis .
qed

subsection \<open>A concrete chain\<close>

definition sample_tip :: Chain where
  "sample_tip = fst (try_apply toy (new_chain toy) sample_block 1750000300)"

lemma sample_tip_applied: "try_apply toy (new_chain toy) sample_block 1750000300 = (sample_tip, Ok ExtendedTip)"
  using sample_extends by (simp add: sample_tip_def prod_eq_iff)

lemma sample_tip_meta:
  obtains m where "meta sample_tip = (meta (new_chain toy))(block_hash toy sample_block \<mapsto> m)"
    and "f64_lt (Fin 0) (m_cumulative_work m)" and "tip_hash sample_tip = block_hash toy sample_block"
  using sample_genesis_inv sample_heights sample_nonzero(2) sample_new sample_valid
proof (cases rule: try_apply_valid)
  case (tip w p st)
  have "tip_hash (new_chain toy) = block_hash toy (genesis toy)" by (simp add: new_chain_def Let_def)
  then show ?thesis using tip sample_meta that by (simp add: sample_tip_def insert_block_def)
qed (use sample_extends in simp)

lemma sample_no_tie:
  "\<forall>h m tm. meta sample_tip h = Some m \<and> meta sample_tip (tip_hash sample_tip) = Some tm \<and>
    f64_le (m_cumulative_work tm) (m_cumulative_work m) \<longrightarrow> h = tip_hash sample_tip"
proof -
  obtain m where c: "meta sample_tip = (meta (new_chain toy))(block_hash toy sample_block \<mapsto> m)" "f64_lt (Fin 0) (m_cumulative_work m)"
    "tip_hash sample_tip = block_hash toy sample_block" by (rule sample_tip_meta)
  have "\<not> f64_le (m_cumulative_work m) (Fin 0)" using c(2) by (cases "m_cumulative_work m") simp_all
  moreover have "meta (new_chain toy) h = Some m0 \<Longrightarrow> m_cumulative_work m0 = Fin 0" for h m0
    by (auto simp: new_chain_def Let_def split: if_splits)
  ultimately show ?thesis by (auto simp: c split: if_splits)
qed

lemma sample_tip_owner: "\<exists>ow. username_owner sample_tip (ascii ''alice'') = Some ow"
  using sample_genesis_inv sample_heights sample_nonzero(2) sample_new sample_valid
proof (cases rule: try_apply_valid)
  case (tip w p st)
  have "ascii ''alice'' \<in> set (names sample_block)" by (simp add: names_def sample_block_def sample_tx_fields)
  from apply_claims_found [OF this] tip show ?thesis by (simp add: sample_tip_def) metis
qed (use sample_extends in simp)

text \<open>The sample block, alone and after the genesis block and before a repetition.\<close>

lemma same_blocks_same_chain_witness:
  "tip_hash (foldl (run_op toy) (new_chain toy) [Apply (genesis toy) 0, Apply sample_block 1750000300, Apply sample_block 5]) =
    tip_hash (foldl (run_op toy) (new_chain toy) [Apply sample_block 1750000300])"
proof -
  let ?ops = "[Apply sample_block 1750000300]" and ?ops' = "[Apply (genesis toy) 0, Apply sample_block 1750000300, Apply sample_block 5]"
  obtain m where c: "meta sample_tip = (meta (new_chain toy))(block_hash toy sample_block \<mapsto> m)" by (rule sample_tip_meta)
  have g: "try_apply toy (new_chain toy) (genesis toy) 0 = (new_chain toy, Ok AlreadyKnown)" by (simp add: try_apply_def Let_def sample_meta)
  have again: "try_apply toy sample_tip sample_block 5 = (sample_tip, Ok AlreadyKnown)" by (simp add: try_apply_def Let_def c)
  have runs: "foldl (run_op toy) (new_chain toy) ?ops = sample_tip" "foldl (run_op toy) (new_chain toy) ?ops' = sample_tip"
    by (simp_all add: g again sample_tip_applied)
  have ok: "list_all (op_ok toy) ?ops" "list_all (op_ok toy) ?ops'" using sample_nonzero by simp_all
  have sizes: "length ?ops < 2 ^ 64 - 2" "length ?ops' < 2 ^ 64 - 2" by simp_all
  have applies: "\<forall>op \<in> set ?ops \<union> set ?ops'. \<exists>b now. op = Apply b now" by simp
  from same_blocks_same_chain [OF sample_nonzero(1) ok sizes applies runs refl sample_no_tie] show ?thesis by (simp only: runs)
qed

end
