(* ===== verification/Gossip_Network.thy ===== *)
theory Gossip_Network
  imports Loop_Invariant Chain_Sync Convergence
begin

text \<open>
  Several nodes of \<^verbatim>\<open>packages/p2p-core/src/node.rs\<close> and the gossip between them. Each member runs the
  event loop on whatever its application, its miner, its clock and outsiders send it; a message that one
  member has published may reach any other, at any time, in any order, more than once or never.
\<close>

subsection \<open>What a handler does to the ledger\<close>

text \<open>The chain store, the blocks published so far and the commands that wait for a connection, which all
  need the hash table.\<close>

definition gossips :: "Node \<Rightarrow> bytes set" where
  "gossips n = {data. Call (GossipPublish blocks_topic data) \<in> set (outputs n)}"

definition deferred_ok :: "Node \<Rightarrow> bool" where
  "deferred_ok n \<longleftrightarrow> (\<forall>c \<in> set (deferred_commands n). needs_dht_peer c)"

definition ledger_view :: "Node \<Rightarrow> ChainStore \<times> bytes set \<times> Command list" where
  "ledger_view n = (chain_store n, gossips n, deferred_commands n)"

interpretation ledger_view: node_view ledger_view
proof unfold_locales
  fix x n assume "background x"
  then have "x \<noteq> Call (GossipPublish topic data)" for topic data by auto
  then show "ledger_view (n\<lparr>outputs := outputs n @ [x]\<rparr>) = ledger_view n" by (auto simp: ledger_view_def gossips_def)
qed (simp_all add: ledger_view_def gossips_def set_pending_def)

lemma topics_differ: "txs_topic \<noteq> blocks_topic" "mix_relay_directory_topic \<noteq> blocks_topic" "mix_relay_directory_topic \<noteq> txs_topic"
  by (simp_all add: txs_topic_def blocks_topic_def mix_relay_directory_topic_def ascii_def)

lemma ledger_view_fields [simp]:
  "ledger_view (n\<lparr>local_blobs := lb\<rparr>) = ledger_view n" "ledger_view (n\<lparr>mempool := mp\<rparr>) = ledger_view n"
  "ledger_view (n\<lparr>mix_dummy_traffic_active := b\<rparr>) = ledger_view n" "ledger_view (n\<lparr>mining := m\<rparr>) = ledger_view n"
  "ledger_view (n\<lparr>known_mix_relays := rs\<rparr>) = ledger_view n" "ledger_view (n\<lparr>dht_ready := b\<rparr>) = ledger_view n"
  "ledger_view (set_pending f n) = ledger_view n"
  by (simp_all add: ledger_view_def gossips_def set_pending_def)

lemma ledger_view_outputs [simp]:
  "ledger_view (emit e n) = ledger_view n"
  "ledger_view (call (EnvelopeRequest to bs) n) = ledger_view n" "ledger_view (call (BlobRequest peer rid) n) = ledger_view n"
  "topic \<noteq> blocks_topic \<Longrightarrow> ledger_view (publish topic enc n) = ledger_view n"
  by (auto simp: ledger_view_def gossips_def emit_def call_def publish_def split: option.split)

lemma ledger_view_events [simp]:
  "ledger_view (handle_envelope_event ev1 n) = ledger_view n" "ledger_view (handle_blob_event ev2 n) = ledger_view n"
  by (simp_all add: handle_envelope_event_def handle_blob_event_def Let_def
      split: RequestResponseEvent.split option.split BlobResponse.split prod.split)

lemma ledger_view_restart_mining: "restart_mining N w i n = Ok n' \<Longrightarrow> ledger_view n' = ledger_view n"
  by (auto simp: restart_mining_def bind_res_Ok)

lemmas ledger_view_results = ledger_view_restart_mining ledger_view.tip_emitted ledger_view.mix_handled

text \<open>The node took some of the blocks into its chain, one after the other, and published no others.\<close>

definition fed :: "Network \<Rightarrow> Block list \<Rightarrow> Node \<Rightarrow> Node \<Rightarrow> bool" where
  "fed N bs n n' \<longleftrightarrow>
     (\<exists>ops. set ops \<subseteq> {Apply b now | b now. b \<in> set bs} \<and> length ops \<le> length bs \<and>
        chain (chain_store n') = foldl (run_op (prims N)) (chain (chain_store n)) ops) \<and>
     gossips n' \<subseteq> gossips n \<union> {data. \<exists>b \<in> set bs. enc_block N b = Some data} \<and>
     (deferred_ok n \<longrightarrow> deferred_ok n')"

lemma fed_kept: "chain_store n' = chain_store n \<Longrightarrow> gossips n' = gossips n \<Longrightarrow> (deferred_ok n \<Longrightarrow> deferred_ok n') \<Longrightarrow> fed N bs n n'"
  by (auto simp: fed_def intro: exI [of _ "[]"])

lemma fed_same: "ledger_view n' = ledger_view n \<Longrightarrow> fed N bs n n'"
  by (rule fed_kept) (simp_all add: ledger_view_def deferred_ok_def)

lemma fed_view: "fed N bs n n1 \<Longrightarrow> ledger_view n2 = ledger_view n1 \<Longrightarrow> fed N bs n n2"
  by (simp add: fed_def ledger_view_def deferred_ok_def)

lemma fed_view_left: "fed N bs n1 n2 \<Longrightarrow> ledger_view n1 = ledger_view n \<Longrightarrow> fed N bs n n2"
  by (simp add: fed_def ledger_view_def deferred_ok_def)

lemma fed_append:
  assumes "fed N bs n n1" and "fed N bs' n1 n2"
  shows "fed N (bs @ bs') n n2"
proof -
  obtain ops where ops: "set ops \<subseteq> {Apply b now | b now. b \<in> set bs}" "length ops \<le> length bs"
    "chain (chain_store n1) = foldl (run_op (prims N)) (chain (chain_store n)) ops"
    using assms(1) by (auto simp: fed_def)
  obtain ops' where ops': "set ops' \<subseteq> {Apply b now | b now. b \<in> set bs'}" "length ops' \<le> length bs'"
    "chain (chain_store n2) = foldl (run_op (prims N)) (chain (chain_store n1)) ops'"
    using assms(2) by (auto simp: fed_def)
  have "set (ops @ ops') \<subseteq> {Apply b now | b now. b \<in> set (bs @ bs')}" using ops(1) ops'(1) by auto
  moreover have "length (ops @ ops') \<le> length (bs @ bs')" using ops(2) ops'(2) by simp
  moreover have "chain (chain_store n2) = foldl (run_op (prims N)) (chain (chain_store n)) (ops @ ops')"
    using ops(3) ops'(3) by simp
  moreover have "gossips n2 \<subseteq> gossips n \<union> {data. \<exists>b \<in> set (bs @ bs'). enc_block N b = Some data}"
    using conjunct2 [OF assms(1) [unfolded fed_def]] conjunct2 [OF assms(2) [unfolded fed_def]] by fastforce
  moreover have "deferred_ok n \<longrightarrow> deferred_ok n2" using assms by (simp add: fed_def)
  ultimately show ?thesis unfolding fed_def by blast
qed

lemma fed_more: "fed N bs n n' \<Longrightarrow> fed N (bs @ bs') n n'"
  by (rule fed_append [OF _ fed_same]) simp_all

lemma fed_try_apply:
  assumes "store_try_apply (prims N) io (chain_store n) b now = (s, r)"
  shows "fed N [b] n (n\<lparr>chain_store := s\<rparr>)"
proof -
  have "chain s = fst (try_apply (prims N) (chain (chain_store n)) b now)"
    using chain_store_try_apply [of "prims N" io "chain_store n" b now] assms by simp
  then show ?thesis by (auto simp: fed_def gossips_def deferred_ok_def intro!: exI [of _ "[Apply b now]"])
qed

lemma fed_apply_and_broadcast_block:
  assumes "apply_and_broadcast_block N w b n = Ok (n', outcome)"
  shows "fed N [b] n n'"
proof -
  obtain s r where sr: "store_try_apply (prims N) (db_ok w 0) (chain_store n) b (clock w 0) = (s, r)" by fastforce
  note fed = fed_try_apply [OF sr]
  show ?thesis
  proof (cases r)
    case (Ok x)
    define m where "m = publish blocks_topic (enc_block N b) (n\<lparr>chain_store := s, mempool := remove_mined N b (mempool n)\<rparr>)"
    have "chain_store m = s" "gossips m \<subseteq> gossips n \<union> {data. enc_block N b = Some data}" "deferred_commands m = deferred_commands n"
      by (auto simp: m_def publish_def call_def gossips_def split: option.split)
    then have m: "fed N [b] n m" using fed by (auto simp: fed_def deferred_ok_def)
    have "n' = n\<lparr>chain_store := s\<rparr> \<or> ledger_view n' = ledger_view m"
      using assms by (auto simp: apply_and_broadcast_block_def sr Ok Let_def bind_res_Ok simp flip: m_def split: if_splits
          dest!: ledger_view_results)
    then show ?thesis using fed fed_view [OF m] by auto
  next
    case (Err e)
    then have "ledger_view n' = ledger_view (n\<lparr>chain_store := s\<rparr>)" using assms by (auto simp: apply_and_broadcast_block_def sr)
    then show ?thesis by (rule fed_view [OF fed])
  qed (use assms in \<open>simp_all add: apply_and_broadcast_block_def sr\<close>)
qed

lemma fed_apply_synced: "apply_synced N w i bs n = Ok (n', e) \<Longrightarrow> fed N bs n n'"
proof (induction bs arbitrary: i n)
  case (Cons b bs)
  let ?n = "n\<lparr>mempool := remove_mined N b (mempool n)\<rparr>"
  obtain s r where sr: "store_try_apply (prims N) (db_ok w i) (chain_store ?n) b (clock w i) = (s, r)" by fastforce
  have fed: "fed N [b] n (?n\<lparr>chain_store := s\<rparr>)"
    by (rule fed_view_left [OF fed_try_apply [OF sr]]) simp
  show ?case
  proof (cases r)
    case (Ok x)
    then have "apply_synced N w (Suc i) bs (?n\<lparr>chain_store := s\<rparr>) = Ok (n', e)" using Cons.prems sr by (simp add: Let_def)
    from fed_append [OF fed Cons.IH [OF this]] show ?thesis by simp
  next
    case (Err x)
    then have "n' = ?n\<lparr>chain_store := s\<rparr>" using Cons.prems sr by (simp add: Let_def)
    then show ?thesis using fed_more [OF fed, of bs] by simp
  qed (use Cons.prems sr in \<open>simp_all add: Let_def\<close>)
qed (simp add: fed_same)

subsection \<open>The blocks of one input\<close>

text \<open>Those that it brings to the store; a message on another topic brings none.\<close>

definition block_arrivals :: "Network \<Rightarrow> LoopInput \<Rightarrow> Block list" where
  "block_arrivals N input = (case input of
     SwarmInput (GossipMessage source topic data) \<Rightarrow> if topic = blocks_topic then input_blocks N input else []
   | _ \<Rightarrow> input_blocks N input)"

lemma fed_handle_ledger_gossip_event:
  assumes "handle_ledger_gossip_event N w source topic data n = Ok n'"
  shows "fed N (block_arrivals N (SwarmInput (GossipMessage source topic data))) n n'"
proof (cases "topic = blocks_topic")
  case True
  show ?thesis
  proof (cases "dec_block N data")
    case (Some b)
    then show ?thesis using assms True fed_apply_and_broadcast_block
      by (auto simp: handle_ledger_gossip_event_def block_arrivals_def bind_res_Ok)
  qed (use assms True fed_same in \<open>auto simp: handle_ledger_gossip_event_def\<close>)
next
  case False
  then have "ledger_view n' = ledger_view n" using assms
    by (auto simp: handle_ledger_gossip_event_def Let_def bind_res_Ok split: if_splits option.splits res.splits prod.splits
      dest!: ledger_view_results)
  then show ?thesis by (rule fed_same)
qed

lemma fed_handle_ledger_sync_event:
  assumes "handle_ledger_sync_event N w ev n = Ok n'"
  shows "fed N (block_arrivals N (SwarmInput (LedgerSyncEvent ev))) n n'"
proof (cases "\<exists>peer rid bs. ev = Response peer rid (SyncBlocks bs) \<and> chain_sync_tip (pending n) rid = None \<and>
    chain_sync_blocks (pending n) rid \<noteq> None")
  case True
  then obtain peer rid bs asked where ev: "ev = Response peer rid (SyncBlocks bs)"
    and none: "chain_sync_tip (pending n) rid = None" and asked: "chain_sync_blocks (pending n) rid = Some asked" by blast
  let ?n = "set_pending (\<lambda>p. p\<lparr>chain_sync_blocks := (chain_sync_blocks p)(rid := None)\<rparr>) n"
  obtain n1 e where n1: "apply_synced N w 0 bs ?n = Ok (n1, e)" "ledger_view n' = ledger_view n1"
    using assms none asked
    by (auto simp: ev handle_ledger_sync_event_def handle_chain_sync_response_def Let_def bind_res_Ok
        split: option.splits if_splits dest!: ledger_view_results)
  have "fed N bs n n'" by (rule fed_view [OF fed_view_left [OF fed_apply_synced [OF n1(1)]] n1(2)]) simp
  then show ?thesis by (simp add: ev block_arrivals_def)
next
  case False
  then have "ledger_view n' = ledger_view n" using assms
    by (auto simp: handle_ledger_sync_event_def handle_chain_sync_response_def Let_def bind_res_Ok
        split: RequestResponseEvent.splits option.splits ChainSyncResponse.splits if_splits)
  then show ?thesis by (rule fed_same)
qed

lemma fed_handle_command:
  assumes "handle_command N w command n = Ok n'"
  shows "fed N (block_arrivals N (CommandReceived command)) n n'"
proof (cases command)
  case (SubmitMinedBlock b)
  then show ?thesis using assms fed_apply_and_broadcast_block by (auto simp: block_arrivals_def bind_res_Ok)
next
  case (SubmitUsernameClaim tx)
  then have "ledger_view n' = ledger_view n" using assms topics_differ by (auto simp: Let_def split: res.splits)
  then show ?thesis by (rule fed_same)
next
  case QueryChainTip
  then show ?thesis using assms ledger_view.tip_emitted by (intro fed_same) simp
qed (use assms topics_differ in \<open>auto simp: Let_def bind_res_Ok intro!: fed_same dest: ledger_view.sends_query
    split: option.splits if_splits\<close>)

lemma fed_release_deferred:
  assumes "deferred_ok n" and "release_deferred N ws ev n = Ok n'"
  shows "fed N [] n n'"
proof (cases "\<not> dht_ready n \<and> is_connection ev")
  case True
  let ?n = "n\<lparr>dht_ready := True, deferred_commands := []\<rparr>"
  have "ledger_view n' = ledger_view ?n"
    using assms True ledger_view.replayed by (force simp: release_deferred_def deferred_ok_def)
  then show ?thesis by (intro fed_kept) (simp_all add: ledger_view_def gossips_def deferred_ok_def)
qed (use assms fed_same in \<open>auto simp: release_deferred_def\<close>)

lemma fed_handle_swarm_event:
  assumes "handle_swarm_event N w ev n = Ok n'"
  shows "fed N (block_arrivals N (SwarmInput ev)) n n'"
proof (cases ev)
  case (GossipMessage source topic data)
  then show ?thesis using assms fed_handle_ledger_gossip_event by simp
next
  case (LedgerSyncEvent e)
  then show ?thesis using assms fed_handle_ledger_sync_event by simp
qed (use assms in \<open>auto intro!: fed_same dest: ledger_view.mix_handled\<close>)

lemma fed_handle_mining_result:
  assumes "handle_mining_result N w g b n = Ok n'"
  shows "fed N [b] n n'"
  using assms
proof (cases rule: handle_mining_result_Ok)
  case (applied n1 outcome)
  then have "ledger_view n' = ledger_view n1" by (auto dest: ledger_view_results)
  then show ?thesis by (rule fed_view [OF fed_apply_and_broadcast_block [OF applied(1)]])
qed (simp add: fed_same)

lemma fed_loop_step:
  assumes "deferred_ok n" and "loop_step N ws input n = Ok (n', go)"
  shows "fed N (block_arrivals N input) n n'"
proof (cases input)
  case (CommandReceived command)
  consider "command = Shutdown" | "command \<noteq> Shutdown" "\<not> dht_ready n" "needs_dht_peer command"
    | "command \<noteq> Shutdown" "dht_ready n \<or> \<not> needs_dht_peer command" by blast
  then show ?thesis
  proof cases
    case 2
    then have "n' = n\<lparr>deferred_commands := deferred_commands n @ [command]\<rparr>" using assms(2) by (simp add: CommandReceived)
    then show ?thesis using 2 by (intro fed_kept) (auto simp: gossips_def deferred_ok_def)
  next
    case 3
    then show ?thesis using assms(2) fed_handle_command by (auto simp: CommandReceived bind_res_Ok)
  qed (use assms(2) in \<open>simp add: CommandReceived fed_same\<close>)
next
  case (SwarmInput ev)
  obtain n1 where n1: "release_deferred N ws ev n = Ok n1" "handle_swarm_event N (ws 0) ev n1 = Ok n'"
    using assms(2) by (auto simp: SwarmInput bind_res_Ok)
  from fed_append [OF fed_release_deferred [OF assms(1) n1(1)] fed_handle_swarm_event [OF n1(2)]]
  show ?thesis by (simp add: SwarmInput)
next
  case (MiningResult generation b)
  then show ?thesis using assms(2) fed_handle_mining_result by (auto simp: bind_res_Ok block_arrivals_def)
qed (use assms(2) in \<open>auto simp: bind_res_Ok intro!: fed_same split: if_splits
    dest: ledger_view.sends_deposit ledger_view.sends_dummy\<close>)

subsection \<open>Members and messages\<close>

text \<open>Either a member handles an input of its own, or one member handles a gossip message that some
  member has published, under the name of its author.\<close>

datatype Net_Event =
    Act nat "nat \<Rightarrow> World" LoopInput
  | Deliver nat "nat \<Rightarrow> World" nat bytes bytes

inductive net_step :: "Network \<Rightarrow> Node list \<Rightarrow> Net_Event \<Rightarrow> Node list \<Rightarrow> bool" for N where
  act: "i < length net \<Longrightarrow> loop_step N ws input (net ! i) = Ok (n', go) \<Longrightarrow> net_step N net (Act i ws input) (net[i := n'])"
| deliver: "i < length net \<Longrightarrow> j < length net \<Longrightarrow> Call (GossipPublish topic data) \<in> set (outputs (net ! j)) \<Longrightarrow>
    loop_step N ws (SwarmInput (GossipMessage (Some (local_peer_id (net ! j))) topic data)) (net ! i) = Ok (n', go) \<Longrightarrow>
    net_step N net (Deliver i ws j topic data) (net[i := n'])"

inductive net_run :: "Network \<Rightarrow> Node list \<Rightarrow> Net_Event list \<Rightarrow> Node list \<Rightarrow> bool" for N net where
  no_event: "net_run N net [] net"
| then_event: "net_run N net es net1 \<Longrightarrow> net_step N net1 e net2 \<Longrightarrow> net_run N net (es @ [e]) net2"

inductive_cases act_stepE: "net_step N net (Act i ws input) net'"
inductive_cases deliver_stepE: "net_step N net (Deliver i ws j topic data) net'"

text \<open>The blocks that enter the network with an event, and those that reach a member with it.\<close>

fun injected :: "Network \<Rightarrow> Net_Event \<Rightarrow> Block list" where
  "injected N (Act i ws input) = block_arrivals N input"
| "injected N (Deliver i ws j topic data) = []"

fun arrived :: "Network \<Rightarrow> Net_Event \<Rightarrow> Block list" where
  "arrived N (Act i ws input) = block_arrivals N input"
| "arrived N (Deliver i ws j topic data) = block_arrivals N (SwarmInput (GossipMessage None topic data))"

text \<open>A member that was given at most \<open>k\<close> blocks of a set, and published no others.\<close>

definition member_inv :: "Network \<Rightarrow> Block set \<Rightarrow> nat \<Rightarrow> Node \<Rightarrow> bool" where
  "member_inv N B k n \<longleftrightarrow> deferred_ok n \<and> gossips n \<subseteq> {data. \<exists>b \<in> B. enc_block N b = Some data} \<and>
     (\<exists>ops. set ops \<subseteq> {Apply b now | b now. b \<in> B} \<and> length ops \<le> k \<and>
        chain (chain_store n) = foldl (run_op (prims N)) (new_chain (prims N)) ops)"

lemma member_inv_mono: "member_inv N B k n \<Longrightarrow> B \<subseteq> B' \<Longrightarrow> k \<le> k' \<Longrightarrow> member_inv N B' k' n"
  unfolding member_inv_def by (fastforce intro: order_trans)

lemma member_fed:
  assumes "member_inv N B k n" and "fed N bs n n'"
  shows "member_inv N (B \<union> set bs) (k + length bs) n'"
proof -
  obtain ops where ops: "set ops \<subseteq> {Apply b now | b now. b \<in> B}" "length ops \<le> k"
    "chain (chain_store n) = foldl (run_op (prims N)) (new_chain (prims N)) ops"
    using assms(1) by (auto simp: member_inv_def)
  obtain ops' where ops': "set ops' \<subseteq> {Apply b now | b now. b \<in> set bs}" "length ops' \<le> length bs"
    "chain (chain_store n') = foldl (run_op (prims N)) (chain (chain_store n)) ops'"
    using assms(2) by (auto simp: fed_def)
  have "set (ops @ ops') \<subseteq> {Apply b now | b now. b \<in> B \<union> set bs}" using ops(1) ops'(1) by auto
  moreover have "length (ops @ ops') \<le> k + length bs" using ops(2) ops'(2) by simp
  moreover have "chain (chain_store n') = foldl (run_op (prims N)) (new_chain (prims N)) (ops @ ops')"
    using ops(3) ops'(3) by simp
  moreover have "gossips n \<subseteq> {data. \<exists>b \<in> B. enc_block N b = Some data}"
    "gossips n' \<subseteq> gossips n \<union> {data. \<exists>b \<in> set bs. enc_block N b = Some data}" "deferred_ok n'"
    using assms by (auto simp: member_inv_def fed_def)
  moreover from this have "gossips n' \<subseteq> {data. \<exists>b \<in> B \<union> set bs. enc_block N b = Some data}" by fastforce
  ultimately show ?thesis unfolding member_inv_def by blast
qed

lemma net_step_inv:
  assumes "wire_laws N" and "net_step N net e net'" and "\<forall>n \<in> set net. member_inv N B k n"
  shows "\<forall>n \<in> set net'. member_inv N (B \<union> set (injected N e)) (k + length (arrived N e)) n"
proof -
  have kept: "\<forall>n \<in> set (net[i := n']). member_inv N (B \<union> set (injected N e)) (k + length (arrived N e)) n"
    if "member_inv N (B \<union> set (injected N e)) (k + length (arrived N e)) n'" for i n'
    using that assms(3) member_inv_mono [of N B k _ "B \<union> set (injected N e)" "k + length (arrived N e)"]
      set_update_subset_insert [of net i n'] by fastforce
  show ?thesis using assms(2)
  proof cases
    case (act i ws input n' go)
    have "member_inv N B k (net ! i)" using act assms(3) by simp
    moreover from this have "fed N (block_arrivals N input) (net ! i) n'"
      using act by (intro fed_loop_step) (simp_all add: member_inv_def)
    ultimately show ?thesis using member_fed kept [of n' i] act by fastforce
  next
    case (deliver i j topic data ws n' go)
    let ?input = "SwarmInput (GossipMessage (Some (local_peer_id (net ! j))) topic data)"
    have i: "member_inv N B k (net ! i)" and j: "member_inv N B k (net ! j)" using deliver assms(3) by simp_all
    have sub: "set (block_arrivals N ?input) \<subseteq> B"
    proof (cases "topic = blocks_topic")
      case True
      then have "data \<in> gossips (net ! j)" using deliver by (simp add: gossips_def)
      then obtain b where "b \<in> B" "enc_block N b = Some data" using j by (auto simp: member_inv_def)
      then show ?thesis using assms(1) by (auto simp: block_arrivals_def True wire_laws_def)
    qed (simp add: block_arrivals_def)
    have "fed N (block_arrivals N ?input) (net ! i) n'"
      using deliver i by (intro fed_loop_step) (simp_all add: member_inv_def)
    from member_fed [OF i this] have "member_inv N B (k + length (block_arrivals N ?input)) n'"
      by (simp only: Un_absorb2 [OF sub])
    moreover have "arrived N e = block_arrivals N ?input" "injected N e = []" using deliver by (simp_all add: block_arrivals_def)
    ultimately have "member_inv N (B \<union> set (injected N e)) (k + length (arrived N e)) n'" by simp
    then show ?thesis using kept deliver by simp
  qed
qed

lemma net_run_inv:
  assumes "net_run N net0 es net" and "wire_laws N" and "\<forall>n \<in> set net0. member_inv N {} 0 n"
  shows "\<forall>n \<in> set net. member_inv N (\<Union>e \<in> set es. set (injected N e)) (\<Sum>e \<leftarrow> es. length (arrived N e)) n"
  using assms(1)
proof induction
  case (then_event es net1 e net2)
  from net_step_inv [OF assms(2) then_event.hyps(2) then_event.IH] show ?case by (simp add: Un_commute)
qed (simp add: assms(3))

subsection \<open>What holds of every member\<close>

text \<open>A member starts as a node that was spawned on an empty database.\<close>

definition spawned :: "Network \<Rightarrow> Node \<Rightarrow> bool" where
  "spawned N n \<longleftrightarrow> (\<exists>w seed addrs. ledger_file w = empty_database \<and> ledger_ok w \<and> spawn_with_bootstrap N w seed addrs = Ok n)"

lemma spawned_member:
  assumes "spawned N n" and "block_hash (prims N) (genesis (prims N)) \<noteq> ZERO"
  shows "member_inv N {} 0 n"
proof -
  obtain w seed addrs where w: "ledger_file w = empty_database" "ledger_ok w" and spawn: "spawn_with_bootstrap N w seed addrs = Ok n"
    using assms(1) by (auto simp: spawned_def)
  obtain peer secret public store mailbox where store: "open_store (prims N) (ledger_ok w) (ledger_file w) = Ok store"
    and n: "n = join_dht addrs (initial_node peer secret public store mailbox)"
    by (rule spawned_initial [OF spawn])
  have "chain store = new_chain (prims N)" using open_fresh [OF assms(2)] store w by auto
  moreover have "ledger_view n = (store, {}, [])" by (simp add: n) (simp add: ledger_view_def gossips_def initial_node_def)
  ultimately show ?thesis by (simp add: member_inv_def ledger_view_def deferred_ok_def)
qed

lemma member_chain:
  assumes "member_inv N B k n" and "block_hash (prims N) (genesis (prims N)) \<noteq> ZERO"
    and "\<forall>b \<in> B. block_hash (prims N) b \<noteq> ZERO" and "k < 2 ^ 64 - 2"
  shows "chain_inv (prims N) (chain (chain_store n)) \<and> unpruned (prims N) (chain (chain_store n)) \<and>
    (\<forall>h b. blocks (chain (chain_store n)) h = Some b \<longrightarrow> h = block_hash (prims N) b \<and> (b = genesis (prims N) \<or> b \<in> B))"
proof -
  let ?c = "chain (chain_store n)"
  obtain ops where ops: "set ops \<subseteq> {Apply b now | b now. b \<in> B}" "length ops \<le> k" "?c = foldl (run_op (prims N)) (new_chain (prims N)) ops"
    using assms(1) by (auto simp: member_inv_def)
  have applies: "\<forall>op \<in> set ops. \<exists>b now. op = Apply b now" using ops(1) by blast
  have "list_all (op_ok (prims N)) ops" using ops(1) assms(3) by (auto simp: list_all_iff)
  then have inv: "chain_inv (prims N) ?c \<and> unpruned (prims N) ?c"
    using run_unpruned [OF new_chain_inv [OF assms(2)] heights_le_new _ _ applies unpruned_new] ops(2,3) assms(4) by simp
  have "h = block_hash (prims N) b \<and> (b = genesis (prims N) \<or> b \<in> B)" if "blocks ?c h = Some b" for h b
  proof
    show "h = block_hash (prims N) b" using inv that by (auto simp: chain_inv_def body_ok_def)
    have "blocks (new_chain (prims N)) h = Some b \<or> (\<exists>now. Apply b now \<in> set ops)"
      using run_blocks [OF applies] that ops(3) by simp
    then show "b = genesis (prims N) \<or> b \<in> B" using ops(1) by (auto simp: new_chain_def Let_def split: if_splits)
  qed
  then show ?thesis using inv by blast
qed

text \<open>The blocks that entered a network, and how often a block reached a member.\<close>

definition all_injected :: "Network \<Rightarrow> Net_Event list \<Rightarrow> Block set" where
  "all_injected N es = (\<Union>e \<in> set es. set (injected N e))"

definition arrivals :: "Network \<Rightarrow> Net_Event list \<Rightarrow> nat" where
  "arrivals N es = (\<Sum>e \<leftarrow> es. length (arrived N e))"

lemma member_reached:
  assumes "wire_laws N" and "block_hash (prims N) (genesis (prims N)) \<noteq> ZERO" and "\<forall>n \<in> set net0. spawned N n"
    and "net_run N net0 es net" and "\<forall>b \<in> all_injected N es. block_hash (prims N) b \<noteq> ZERO" and "arrivals N es < 2 ^ 64 - 2"
    and "n \<in> set net"
  shows "chain_inv (prims N) (chain (chain_store n)) \<and> unpruned (prims N) (chain (chain_store n)) \<and>
    (\<forall>h b. blocks (chain (chain_store n)) h = Some b \<longrightarrow>
      h = block_hash (prims N) b \<and> (b = genesis (prims N) \<or> b \<in> all_injected N es))"
proof -
  have "\<forall>n \<in> set net0. member_inv N {} 0 n" using assms(2,3) spawned_member by blast
  from net_run_inv [OF assms(4,1) this] have "member_inv N (all_injected N es) (arrivals N es) n"
    using assms(7) by (simp add: all_injected_def arrivals_def)
  from member_chain [OF this assms(2,5,6)] show ?thesis .
qed

subsection \<open>Members never stop\<close>

fun event_input :: "Net_Event \<Rightarrow> LoopInput" where
  "event_input (Act i ws input) = input"
| "event_input (Deliver i ws j topic data) = SwarmInput (GossipMessage None topic data)"

definition event_ok :: "Network \<Rightarrow> Net_Event \<Rightarrow> bool" where
  "event_ok N e \<longleftrightarrow> input_admissible N (event_input e)"

definition net_weight :: "Network \<Rightarrow> Net_Event list \<Rightarrow> nat" where
  "net_weight N es = (\<Sum>e \<leftarrow> es. input_weight N (event_input e))"

lemma net_weight_simps [simp]:
  "net_weight N [] = 0" "net_weight N (es @ es') = net_weight N es + net_weight N es'"
  "net_weight N (e # es) = input_weight N (event_input e) + net_weight N es"
  by (simp_all add: net_weight_def)

lemma gossip_source [simp]:
  "input_weight N (SwarmInput (GossipMessage (Some p) topic data)) = input_weight N (SwarmInput (GossipMessage None topic data))"
  "input_admissible N (SwarmInput (GossipMessage (Some p) topic data)) = input_admissible N (SwarmInput (GossipMessage None topic data))"
  by (simp_all add: input_weight_def input_admissible_def)

lemma net_step_ok:
  assumes "net_step N net e net'" and "\<forall>n \<in> set net. node_ok N k n" and "event_ok N e" and "sphinx_returns N"
    and "k + input_weight N (event_input e) < 2 ^ 64 - 3"
  shows "\<forall>n \<in> set net'. node_ok N (k + input_weight N (event_input e)) n"
proof -
  have kept: "\<forall>n \<in> set (net[i := n']). node_ok N (k + input_weight N (event_input e)) n"
    if "node_ok N (k + input_weight N (event_input e)) n'" for i n'
    using that assms(2) node_ok_mono [of N k _ "k + input_weight N (event_input e)"] set_update_subset_insert [of net i n'] by fastforce
  show ?thesis using assms(1)
  proof cases
    case (act i ws input n' go)
    have "node_ok N k (net ! i)" using act assms(2) by simp
    from loop_step_safe [OF this _ _ assms(4), of input ws] assms(3,5) act kept show ?thesis by (auto simp: event_ok_def)
  next
    case (deliver i j topic data ws n' go)
    have "node_ok N k (net ! i)" using deliver assms(2) by simp
    from loop_step_safe [OF this _ _ assms(4), of "SwarmInput (GossipMessage (Some (local_peer_id (net ! j))) topic data)" ws]
      assms(3,5) deliver kept show ?thesis by (auto simp: event_ok_def simp del: loop_step.simps)
  qed
qed

lemma net_run_ok:
  assumes "net_run N net0 es net" and "\<forall>n \<in> set net0. node_ok N 0 n" and "\<forall>e \<in> set es. event_ok N e" and "sphinx_returns N"
    and "net_weight N es < 2 ^ 64 - 3"
  shows "\<forall>n \<in> set net. node_ok N (net_weight N es) n"
  using assms(1,3,5)
proof induction
  case (then_event es net1 e net2)
  have "\<forall>n \<in> set net1. node_ok N (net_weight N es) n" using then_event.IH then_event.prems by simp
  from net_step_ok [OF then_event.hyps(2) this _ assms(4)] then_event.prems show ?case by simp
qed (simp add: assms(2))

lemma net_run_trans:
  assumes "net_run N net1 es net2" and "net_run N net0 es0 net1"
  shows "net_run N net0 (es0 @ es) net2"
  using assms
proof induction
  case (then_event es net2 e net3)
  then show ?case using net_run.then_event [of N net0 "es0 @ es" net2 e net3] by simp
qed simp

subsection \<open>One block on its way\<close>

lemma applied_chain:
  assumes "apply_and_broadcast_block N w b n = Ok (n', outcome)"
  shows "chain (chain_store n') = fst (try_apply (prims N) (chain (chain_store n)) b (clock w 0))"
proof -
  obtain s r where sr: "store_try_apply (prims N) (db_ok w 0) (chain_store n) b (clock w 0) = (s, r)" by fastforce
  have "chain s = fst (try_apply (prims N) (chain (chain_store n)) b (clock w 0))"
    using chain_store_try_apply [of "prims N" "db_ok w 0" "chain_store n" b "clock w 0"] sr by simp
  moreover have published: "chain_store (publish topic enc m) = chain_store m" for topic enc m
    by (simp add: publish_def call_def split: option.split)
  have "chain_store n' = s"
    using assms by (auto simp: apply_and_broadcast_block_def sr Let_def bind_res_Ok published emit_def emit_tip_def restart_mining_def
        split: res.splits if_splits)
  ultimately show ?thesis by simp
qed

lemma applied_published:
  assumes "apply_and_broadcast_block N w b n = Ok (n', outcome)" and "store_try_apply (prims N) (db_ok w 0) (chain_store n) b (clock w 0) = (s, Ok x)"
    and "x \<noteq> AlreadyKnown" and "enc_block N b = Some data"
  shows "data \<in> gossips n'"
proof -
  define m where "m = publish blocks_topic (enc_block N b) (n\<lparr>chain_store := s, mempool := remove_mined N b (mempool n)\<rparr>)"
  have "data \<in> gossips m" by (simp add: m_def assms(4) publish_def call_def gossips_def)
  moreover have "ledger_view n' = ledger_view m"
    using assms(1-3) by (auto simp: apply_and_broadcast_block_def Let_def bind_res_Ok simp flip: m_def split: if_splits
        dest!: ledger_view_results)
  ultimately show ?thesis by (simp add: ledger_view_def)
qed

text \<open>Whether a block is accepted depends on the clock only through the limit on its own time.\<close>

lemma try_apply_later:
  assumes "try_apply P c b t = (c1, Ok x)" and "x \<noteq> AlreadyKnown" and "timestamp (header b) \<le> u64_add now MAX_FUTURE_DRIFT_SECS"
  shows "try_apply P c b now = (c1, Ok x)"
proof -
  have new: "meta c (block_hash P b) = None" using assms(1,2) by (auto simp: try_apply_def Let_def split: if_splits)
  obtain u where "validate_block P c b t = Ok u" using assms(1) new by (auto simp: try_apply_def Let_def split: res.splits)
  then have "validate_block P c b t = Ok ()" by simp
  moreover from validate_block_later [OF this assms(3)] have "validate_block P c b now = Ok ()" .
  ultimately show ?thesis using assms(1) new by (simp add: try_apply_def Let_def)
qed

lemma try_apply_knows:
  assumes "chain_inv P c" and "heights_ok c" and "block_hash P b \<noteq> ZERO" and "try_apply P c b now = (c1, Ok x)" and "x \<noteq> AlreadyKnown"
  shows "chain_inv P c1 \<and> block_hash P b \<in> dom (meta c1)"
  using assms(1-3)
proof (cases rule: try_apply_cases [where now = now])
  case valid
  from assms(1-3) valid show ?thesis
  proof (cases rule: try_apply_valid)
    case (fork w)
    then show ?thesis using assms(4) by (auto simp: insert_block_def)
  next
    case (tip w p st)
    then show ?thesis using assms(4) by (auto simp: insert_block_def)
  qed
qed (use assms(4,5) in auto)

lemma delivered:
  assumes "node_ok N k n" and "k < 2 ^ 64 - 6" and "sphinx_returns N" and "block_hash (prims N) b \<noteq> ZERO" and "dec_block N data = Some b"
    and "chain (chain_store n) = c \<or> chain (chain_store n) = c1" and "try_apply (prims N) c b t = (c1, Ok x)" and "x \<noteq> AlreadyKnown"
    and "block_hash (prims N) b \<in> dom (meta c1)" and "timestamp (header b) \<le> u64_add (clock (ws 0) 0) MAX_FUTURE_DRIFT_SECS"
  shows "\<exists>n'. loop_step N ws (SwarmInput (GossipMessage source blocks_topic data)) n = Ok (n', True) \<and> node_ok N (k + 3) n' \<and>
    chain (chain_store n') = c1"
proof -
  let ?input = "SwarmInput (GossipMessage source blocks_topic data)"
  have weight: "input_weight N ?input = 3" "input_admissible N ?input" using assms(4,5) by (simp_all add: input_weight_def input_admissible_def)
  obtain n' go where n': "loop_step N ws ?input n = Ok (n', go)" "node_ok N (k + 3) n'"
    using loop_step_safe [OF assms(1) _ weight(2) assms(3), of ws] assms(2) weight(1) by (auto simp del: loop_step.simps)
  then obtain outcome where "apply_and_broadcast_block N (ws 0) b n = Ok (n', outcome)" and go
    using assms(5) by (auto simp: bind_res_Ok release_deferred_def handle_ledger_gossip_event_def)
  from applied_chain [OF this(1)] have "chain (chain_store n') = fst (try_apply (prims N) (chain (chain_store n)) b (clock (ws 0) 0))" .
  also have "\<dots> = c1"
  proof (cases "chain (chain_store n) = c")
    case True
    then show ?thesis using try_apply_later [OF assms(7,8,10)] by simp
  next
    case False
    then show ?thesis using assms(6,9) by (auto simp: try_apply_def Let_def)
  qed
  finally show ?thesis using n' \<open>go\<close> by (simp del: loop_step.simps)
qed

lemma mined_here:
  assumes "node_ok N k n" and "k < 2 ^ 64 - 6" and "sphinx_returns N" and "block_hash (prims N) b \<noteq> ZERO" and "enc_block N b = Some data"
    and "chain (chain_store n) = c" and "try_apply (prims N) c b (clock (ws 0) 0) = (c1, Ok x)" and "x \<noteq> AlreadyKnown"
    and "map_option ms_generation (active (mining n)) = Some g" and "db_ok (ws 0) 0"
  shows "\<exists>n'. loop_step N ws (MiningResult g b) n = Ok (n', True) \<and> node_ok N (k + 3) n' \<and>
    chain (chain_store n') = c1 \<and> data \<in> gossips n'"
proof -
  have weight: "input_weight N (MiningResult g b) = 3" "input_admissible N (MiningResult g b)"
    using assms(4) by (simp_all add: input_weight_def input_admissible_def)
  obtain n' go where n': "loop_step N ws (MiningResult g b) n = Ok (n', go)" "node_ok N (k + 3) n'"
    using loop_step_safe [OF assms(1) _ weight(2) assms(3), of ws] assms(2) weight(1) by (auto simp del: loop_step.simps)
  then have handled: "handle_mining_result N (ws 0) g b n = Ok n'" and go by (auto simp: bind_res_Ok)
  have inv: "chain_inv (prims N) c" "heights_ok c" using assms(1,2,6) node_ok_heights [OF assms(1)] by (auto simp: node_ok_def)
  obtain s where s: "store_try_apply (prims N) (db_ok (ws 0) 0) (chain_store n) b (clock (ws 0) 0) = (s, Ok x)"
    using try_apply_knows [OF inv assms(4,7,8)] store_applies [of "prims N" "chain_store n" b "clock (ws 0) 0" c1 x] assms(6,7,10) by auto
  show ?thesis using handled
  proof (cases rule: handle_mining_result_Ok)
    case (applied n1 outcome)
    have same: "ledger_view n' = ledger_view n1" using applied(2) by (auto dest: ledger_view_results)
    have "chain (chain_store n1) = c1" using applied_chain [OF applied(1)] assms(6,7) by simp
    moreover have "data \<in> gossips n1" by (rule applied_published [OF applied(1) s assms(8,5)])
    ultimately show ?thesis using same n' \<open>go\<close> by (auto simp: ledger_view_def simp del: loop_step.simps)
  qed (use assms(9) in simp)
qed

text \<open>The author \<open>i\<close> has the block; the others have it once it was delivered to them.\<close>

lemma block_delivered:
  assumes "wire_laws N" and "sphinx_returns N" and "block_hash (prims N) b \<noteq> ZERO" and "enc_block N b = Some data"
    and "try_apply (prims N) c b t = (c1, Ok x)" and "x \<noteq> AlreadyKnown" and "block_hash (prims N) b \<in> dom (meta c1)"
    and "i < length net" and "data \<in> gossips (net ! i)" and "chain (chain_store (net ! i)) = c1"
    and "\<forall>j < length net. node_ok N k (net ! j) \<and> (j \<noteq> i \<longrightarrow> chain (chain_store (net ! j)) = c)"
    and "set js \<subseteq> {..<length net} - {i}" and "k + 3 * length js < 2 ^ 64 - 6"
    and "\<forall>j. timestamp (header b) \<le> u64_add (clock (ws j 0) 0) MAX_FUTURE_DRIFT_SECS"
  shows "\<exists>net'. net_run N net (map (\<lambda>j. Deliver j (ws j) i blocks_topic data) js) net' \<and> length net' = length net \<and> net' ! i = net ! i \<and>
    (\<forall>j < length net. node_ok N (k + 3 * length js) (net' ! j) \<and>
      (j \<noteq> i \<longrightarrow> chain (chain_store (net' ! j)) = (if j \<in> set js then c1 else c)))"
  using assms(12,13)
proof (induction js rule: rev_induct)
  case Nil
  then show ?case using assms(11) net_run.no_event [of N net] by auto
next
  case (snoc j js)
  let ?k = "k + 3 * length js"
  obtain net1 where net1: "net_run N net (map (\<lambda>j. Deliver j (ws j) i blocks_topic data) js) net1" "length net1 = length net" "net1 ! i = net ! i"
    "\<forall>j < length net. node_ok N ?k (net1 ! j) \<and> (j \<noteq> i \<longrightarrow> chain (chain_store (net1 ! j)) = (if j \<in> set js then c1 else c))"
    using snoc by auto
  have j: "j < length net" "j \<noteq> i" using snoc.prems(1) by auto
  have dec: "dec_block N data = Some b" using assms(1,4) by (simp add: wire_laws_def)
  have chain: "chain (chain_store (net1 ! j)) = c \<or> chain (chain_store (net1 ! j)) = c1" using net1(4) j by auto
  have "node_ok N ?k (net1 ! j)" "?k < 2 ^ 64 - 6" using net1(4) j snoc.prems(2) by simp_all
  from delivered [OF this assms(2,3) dec chain assms(5-7), of "ws j" "Some (local_peer_id (net1 ! i))"] assms(14)
  obtain n' where n': "loop_step N (ws j) (SwarmInput (GossipMessage (Some (local_peer_id (net1 ! i))) blocks_topic data)) (net1 ! j) = Ok (n', True)"
    "node_ok N (?k + 3) n'" "chain (chain_store n') = c1" by blast
  have "Call (GossipPublish blocks_topic data) \<in> set (outputs (net1 ! i))" using assms(9) net1(3) by (simp add: gossips_def)
  then have "net_step N net1 (Deliver j (ws j) i blocks_topic data) (net1[j := n'])"
    using n'(1) j(1) assms(8) net1(2) by (intro net_step.deliver) simp_all
  then have "net_run N net (map (\<lambda>j. Deliver j (ws j) i blocks_topic data) (js @ [j])) (net1[j := n'])"
    using net_run.then_event [OF net1(1)] by simp
  moreover have "\<forall>l < length net. node_ok N (k + 3 * length (js @ [j])) (net1[j := n'] ! l) \<and>
      (l \<noteq> i \<longrightarrow> chain (chain_store (net1[j := n'] ! l)) = (if l \<in> set (js @ [j]) then c1 else c))"
  proof (intro allI impI conjI)
    fix l assume l: "l < length net"
    have "node_ok N (?k + 3) (net1 ! l)" using node_ok_mono [of N ?k "net1 ! l" "?k + 3"] net1(4) l by simp
    then show "node_ok N (k + 3 * length (js @ [j])) (net1[j := n'] ! l)"
      using n'(2) l net1(2) by (cases "l = j") (simp_all add: algebra_simps)
    assume "l \<noteq> i"
    then show "chain (chain_store (net1[j := n'] ! l)) = (if l \<in> set (js @ [j]) then c1 else c)"
      using n'(3) l net1(2,4) by (cases "l = j") simp_all
  qed
  ultimately show ?case using net1(2,3) j(2) by (intro exI [of _ "net1[j := n']"]) simp
qed

lemma spawned_node_ok: "spawned N n \<Longrightarrow> block_hash (prims N) (genesis (prims N)) \<noteq> ZERO \<Longrightarrow> node_ok N 0 n"
  using spawned_ok by (auto simp: spawned_def)

lemma net_step_length: "net_step N net e net' \<Longrightarrow> length net' = length net"
  by (auto elim: net_step.cases)

lemma net_run_length: "net_run N net es net' \<Longrightarrow> length net' = length net"
  by (induction rule: net_run.induct) (simp_all add: net_step_length)

subsection \<open>Two members\<close>

text \<open>The first member mines the sample block; the second is delivered it.\<close>

definition sample_now :: "nat \<Rightarrow> World" where
  "sample_now i = toy_world\<lparr>clock := \<lambda>i. 1750000300\<rparr>"

definition mining_begins :: Net_Event where
  "mining_begins = Act 0 sample_now (CommandReceived (StartMining (replicate 32 0)))"

definition sample_events :: "Net_Event list" where
  "sample_events = [mining_begins, Act 0 sample_now (MiningResult 1 sample_block), Deliver 1 sample_now 0 blocks_topic [9]]"

lemma mining_started_generation:
  assumes "mining_start P s pool pk now m = Ok m'" and "active m = None" and "next_generation m = 0"
  shows "map_option ms_generation (active m') = Some 1"
  using assms
  by (auto simp: mining_start_def mining_stop_def spawn_mining_attempt_def Let_def bind_res_Ok split: option.splits)

lemma spawned_sample:
  assumes "spawn_with_bootstrap toy_network sample_setup seed addrs = Ok n"
  shows "spawned toy_network n"
proof -
  have "ledger_file sample_setup = empty_database" "ledger_ok sample_setup" by (simp_all add: sample_setup_def)
  then show ?thesis using assms unfolding spawned_def by blast
qed

lemma sample_members:
  "\<exists>net0 net. (\<forall>n \<in> set net0. spawned toy_network n) \<and> net_run toy_network net0 [mining_begins] net \<and> length net = 2 \<and>
    (\<forall>n \<in> set net. chain (chain_store n) = new_chain toy) \<and> map_option ms_generation (active (mining (net ! 0))) = Some 1"
proof -
  have "\<exists>n. spawn_with_bootstrap toy_network sample_setup (replicate 32 k) [] = Ok n" for k by (rule sample_spawn_any) simp
  then obtain n0 n1 where n: "spawn_with_bootstrap toy_network sample_setup (replicate 32 1) [] = Ok n0"
    "spawn_with_bootstrap toy_network sample_setup (replicate 32 2) [] = Ok n1" by metis
  note sp = spawned_sample [OF n(1)] spawned_sample [OF n(2)]
  have genesis: "block_hash (prims toy_network) (genesis (prims toy_network)) \<noteq> ZERO" using sample_nonzero(1) by simp
  have chains: "chain (chain_store n0) = new_chain toy" "chain (chain_store n1) = new_chain toy"
    using spawned_member [OF sp(1) genesis] spawned_member [OF sp(2) genesis] by (auto simp: member_inv_def)
  obtain store where "core n0 = ([], mining_new, store, False, [])" using spawned_core [OF n(1)] by metis
  then have m: "active (mining n0) = None" "next_generation (mining n0) = 0" by (auto simp: core_def mining_new_def)
  have "node_ok toy_network 0 n0" by (rule spawned_node_ok [OF sp(1) genesis])
  from loop_step_safe [OF this _ _ toy_network_returns, of "CommandReceived (StartMining (replicate 32 0))" sample_now]
  obtain n' go where n': "loop_step toy_network sample_now (CommandReceived (StartMining (replicate 32 0))) n0 = Ok (n', go)"
    by (auto simp: input_weight_def input_admissible_def simp del: loop_step.simps)
  then obtain m' where m': "mining_start toy (chain_store n0) (mempool n0) (replicate 32 0) 1750000300 (mining n0) = Ok m'" "n' = n0\<lparr>mining := m'\<rparr>"
    by (auto simp: bind_res_Ok sample_now_def)
  have "net_run toy_network [n0, n1] ([] @ [mining_begins]) ([n0, n1][0 := n'])"
    unfolding mining_begins_def by (rule net_run.then_event [OF net_run.no_event net_step.act]) (use n' in \<open>simp_all del: loop_step.simps\<close>)
  moreover have "map_option ms_generation (active (mining n')) = Some 1"
    using mining_started_generation [OF m'(1) m] m'(2) by simp
  ultimately show ?thesis using sp chains m'(2)
    by (intro exI [of _ "[n0, n1]"] exI [of _ "[n', n1]"]) simp
qed

lemma sample_limits:
  "\<forall>e \<in> set [mining_begins]. event_ok toy_network e" "net_weight toy_network [mining_begins] + 3 * length [1 :: nat] < 2 ^ 64 - 9"
  "try_apply (prims toy_network) (new_chain toy) sample_block (clock (sample_now 0) 0) = (sample_tip, Ok ExtendedTip)"
  "timestamp (header sample_block) \<le> u64_add (clock (sample_now 0) 0) MAX_FUTURE_DRIFT_SECS" "db_ok (sample_now 0) 0"
  "enc_block toy_network sample_block = Some [9]"
  "block_hash (prims toy_network) (genesis (prims toy_network)) \<noteq> ZERO" "block_hash (prims toy_network) sample_block \<noteq> ZERO"
proof -
  have "timestamp (header sample_block) = 1750000300" by (simp add: sample_block_def)
  then show "timestamp (header sample_block) \<le> u64_add (clock (sample_now 0) 0) MAX_FUTURE_DRIFT_SECS"
    by (simp add: sample_now_def MAX_FUTURE_DRIFT_SECS_def)
qed (use sample_nonzero in \<open>simp_all add: mining_begins_def event_ok_def input_admissible_def net_weight_def input_weight_def
    sample_now_def sample_tip_applied toy_network_def toy_world_def\<close>)

lemma sample_blocks:
  "all_injected toy_network sample_events = {sample_block}" "arrivals toy_network sample_events < 2 ^ 64 - 2"
  by (simp_all add: all_injected_def arrivals_def sample_events_def mining_begins_def block_arrivals_def toy_network_decodes)

lemma sample_network:
  "\<exists>net0 net. (\<forall>n \<in> set net0. spawned toy_network n) \<and> net_run toy_network net0 sample_events net \<and> length net = 2 \<and>
    (\<forall>n \<in> set net. chain (chain_store n) = sample_tip)"
proof -
  obtain net0 net where net: "\<forall>n \<in> set net0. spawned toy_network n" "net_run toy_network net0 [mining_begins] net" "length net = 2"
    "\<forall>n \<in> set net. chain (chain_store n) = new_chain toy" "map_option ms_generation (active (mining (net ! 0))) = Some 1"
    using sample_members by metis
  let ?k = "net_weight toy_network [mining_begins]"
  have ok: "\<forall>n \<in> set net. node_ok toy_network ?k n"
    using net_run_ok [OF net(2) _ sample_limits(1) toy_network_returns] spawned_node_ok sample_limits(2,7) net(1) by auto
  have small: "?k < 100" by (simp add: mining_begins_def input_weight_def)
  have n: "node_ok toy_network ?k (net ! 0)" "chain (chain_store (net ! 0)) = new_chain toy" "0 < length net" using ok net(3,4) by simp_all
  obtain n' where n': "loop_step toy_network sample_now (MiningResult 1 sample_block) (net ! 0) = Ok (n', True)"
    "node_ok toy_network (?k + 3) n'" "chain (chain_store n') = sample_tip" "[9] \<in> gossips n'"
    using mined_here [where ws = sample_now, OF n(1) _ toy_network_returns sample_limits(8,6) n(2) sample_limits(3) _ net(5) sample_limits(5)] small
    by auto
  let ?net = "net[0 := n']"
  have "net_run toy_network net0 ([mining_begins] @ [Act 0 sample_now (MiningResult 1 sample_block)]) ?net"
    by (rule net_run.then_event [OF net(2) net_step.act [OF n(3) n'(1)]])
  moreover have "\<exists>net'. net_run toy_network ?net (map (\<lambda>j. Deliver j sample_now 0 blocks_topic [9]) [1]) net' \<and> length net' = length ?net \<and>
      net' ! 0 = ?net ! 0 \<and> (\<forall>j < length ?net. node_ok toy_network (?k + 3 + 3 * length [1 :: nat]) (net' ! j) \<and>
      (j \<noteq> 0 \<longrightarrow> chain (chain_store (net' ! j)) = (if j \<in> set [1] then sample_tip else new_chain toy)))"
  proof (rule block_delivered [OF toy_network_wire toy_network_returns sample_limits(8,6,3)])
    show "\<forall>j < length ?net. node_ok toy_network (?k + 3) (?net ! j) \<and> (j \<noteq> 0 \<longrightarrow> chain (chain_store (?net ! j)) = new_chain toy)"
      using ok net(4) n'(2) n(3) node_ok_mono [of toy_network ?k _ "?k + 3"] by (auto simp: nth_list_update)
    show "block_hash (prims toy_network) sample_block \<in> dom (meta sample_tip)"
      using sample_tip_meta by (metis domI fun_upd_same toy_network_simps(1))
  qed (use n'(3,4) n(3) net(3) small sample_limits(4) in auto)
  ultimately obtain net' where run: "net_run toy_network net0 sample_events net'" "net' ! 0 = n'" "chain (chain_store (net' ! 1)) = sample_tip"
    using net_run_trans [of toy_network ?net _ _ net0] net(3) n(3) by (fastforce simp: sample_events_def)
  have len: "length net' = 2" using net_run_length [OF run(1)] net_run_length [OF net(2)] net(3) by simp
  have "\<forall>n \<in> set net'. chain (chain_store n) = sample_tip"
    using run(2,3) n'(3) len by (auto simp: in_set_conv_nth less_2_cases_iff)
  then show ?thesis using net(1) run(1) len by blast
qed

subsection \<open>Properties\<close>

text \<open>C8: no member of the network, and no message between members, can give a name to a key that did not
  sign for it: whoever a member takes for the owner of a name has signed a claim of that name, in a block
  that some member was given from outside the gossip.\<close>

theorem network_owners_signed:
  assumes "wire_laws N" and "block_hash (prims N) (genesis (prims N)) \<noteq> ZERO" and "\<forall>n \<in> set net0. spawned N n"
    and "net_run N net0 es net" and "\<forall>b \<in> all_injected N es. block_hash (prims N) b \<noteq> ZERO" and "arrivals N es < 2 ^ 64 - 2"
    and "n \<in> set net" and "username_owner (chain (chain_store n)) u = Some ow"
  shows "\<exists>e \<in> set es. \<exists>b \<in> set (injected N e). \<exists>tx \<in> set (transactions b).
    username tx = u \<and> owner_public_key tx = o_public_key ow \<and> verify_self_contained (prims N) tx = Ok ()"
proof -
  let ?c = "chain (chain_store n)"
  note reached = member_reached [OF assms(1-7)]
  have inv: "chain_inv (prims N) ?c" using reached by blast
  then obtain p where p: "ancestors ?c (tip_hash ?c) = Ok p" by (auto simp: chain_inv_def tip_ok_def)
  have "floor_username_owner ?c u = None" using reached by (simp add: unpruned_def)
  then obtain a b tx where tx: "blocks ?c a = Some b" "tx \<in> set (transactions b)" "username tx = u"
    "verify_self_contained (prims N) tx = Ok ()" "ow = owner_entry a b tx"
    using owner_block [OF inv assms(8) _ p] by blast
  have "b \<noteq> genesis (prims N)" using tx(2) by (auto simp: genesis_def)
  then have "b \<in> all_injected N es" using reached tx(1) by blast
  then show ?thesis using tx by (fastforce simp: all_injected_def owner_entry_def)
qed

lemma network_owners_signed_witness:
  "\<exists>net0 net n ow. net_run toy_network net0 sample_events net \<and> n \<in> set net \<and>
    username_owner (chain (chain_store n)) (ascii ''alice'') = Some ow \<and>
    (\<exists>e \<in> set sample_events. \<exists>b \<in> set (injected toy_network e). \<exists>tx \<in> set (transactions b).
      username tx = ascii ''alice'' \<and> owner_public_key tx = o_public_key ow \<and> verify_self_contained (prims toy_network) tx = Ok ())"
proof -
  obtain net0 net where net: "\<forall>n \<in> set net0. spawned toy_network n" "net_run toy_network net0 sample_events net" "length net = 2"
    "\<forall>n \<in> set net. chain (chain_store n) = sample_tip" using sample_network by blast
  have n: "net ! 1 \<in> set net" using net(3) by simp
  obtain ow where "username_owner sample_tip (ascii ''alice'') = Some ow" using sample_tip_owner by blast
  then have ow: "username_owner (chain (chain_store (net ! 1))) (ascii ''alice'') = Some ow" using net(4) n by simp
  have nz: "\<forall>b \<in> all_injected toy_network sample_events. block_hash (prims toy_network) b \<noteq> ZERO"
    using sample_limits(8) by (simp add: sample_blocks)
  from network_owners_signed [OF toy_network_wire sample_limits(7) net(1,2) nz sample_blocks(2) n ow] ow n net(2)
  show ?thesis by blast
qed

text \<open>C5: members that hold the same blocks agree. If each block that entered the network is held by two
  members or by neither, then, whatever the order in which they received the blocks and however often,
  they have the same tip, the same owner of every name and the same block at every height, provided no
  other block ties with the tip in cumulative work.\<close>

theorem members_agree:
  assumes "wire_laws N" and "block_hash (prims N) (genesis (prims N)) \<noteq> ZERO" and "\<forall>n \<in> set net0. spawned N n"
    and "net_run N net0 es net" and "\<forall>b \<in> all_injected N es. block_hash (prims N) b \<noteq> ZERO" and "arrivals N es < 2 ^ 64 - 2"
    and "n \<in> set net" and "n' \<in> set net" and "chain (chain_store n) = c" and "chain (chain_store n') = c'"
    and "\<forall>b \<in> all_injected N es. blocks c (block_hash (prims N) b) = Some b \<longleftrightarrow> blocks c' (block_hash (prims N) b) = Some b"
    and "\<forall>h m tm. meta c h = Some m \<and> meta c (tip_hash c) = Some tm \<and> f64_le (m_cumulative_work tm) (m_cumulative_work m) \<longrightarrow>
      h = tip_hash c"
  shows "tip_hash c' = tip_hash c \<and> username_owner c' = username_owner c \<and> canonical_index c' = canonical_index c"
proof -
  have reached: "chain_inv (prims N) c" "unpruned (prims N) c" "chain_inv (prims N) c'" "unpruned (prims N) c'"
    "\<forall>h b. blocks c h = Some b \<longrightarrow> h = block_hash (prims N) b \<and> (b = genesis (prims N) \<or> b \<in> all_injected N es)"
    "\<forall>h b. blocks c' h = Some b \<longrightarrow> h = block_hash (prims N) b \<and> (b = genesis (prims N) \<or> b \<in> all_injected N es)"
    using member_reached [OF assms(1-7)] member_reached [OF assms(1-6,8)] unfolding assms(9,10) by blast+
  have "blocks c (block_hash (prims N) (genesis (prims N))) = Some (genesis (prims N))"
    "blocks c' (block_hash (prims N) (genesis (prims N))) = Some (genesis (prims N))"
    using reached(2,4) by (auto simp: unpruned_def)
  then have same: "blocks c h = Some b \<longleftrightarrow> blocks c' h = Some b" for h b
    using reached(5) [rule_format, of h b] reached(6) [rule_format, of h b] assms(11) [rule_format, of b] by auto
  have "blocks c' h = blocks c h" for h
    using same [of h "the (blocks c h)"] same [of h "the (blocks c' h)"] by (cases "blocks c h"; cases "blocks c' h") auto
  then have "blocks c' = blocks c" by (rule ext)
  from unpruned_agree [OF reached(1-4) this assms(12)] show ?thesis .
qed

lemma members_agree_witness:
  "\<exists>net0 net. net_run toy_network net0 sample_events net \<and>
    tip_hash (chain (chain_store (net ! 1))) = tip_hash (chain (chain_store (net ! 0)))"
proof -
  obtain net0 net where net: "\<forall>n \<in> set net0. spawned toy_network n" "net_run toy_network net0 sample_events net" "length net = 2"
    "\<forall>n \<in> set net. chain (chain_store n) = sample_tip" using sample_network by blast
  have n: "net ! 0 \<in> set net" "net ! 1 \<in> set net" using net(3) by simp_all
  then have c: "chain (chain_store (net ! 0)) = sample_tip" "chain (chain_store (net ! 1)) = sample_tip" using net(4) by simp_all
  have nz: "\<forall>b \<in> all_injected toy_network sample_events. block_hash (prims toy_network) b \<noteq> ZERO"
    using sample_limits(8) by (simp add: sample_blocks)
  have held: "\<forall>b \<in> all_injected toy_network sample_events.
      blocks (chain (chain_store (net ! 0))) (block_hash (prims toy_network) b) = Some b \<longleftrightarrow>
      blocks (chain (chain_store (net ! 1))) (block_hash (prims toy_network) b) = Some b"
    unfolding c by blast
  from members_agree [OF toy_network_wire sample_limits(7) net(1,2) nz sample_blocks(2) n refl refl held sample_no_tie [folded c(1)]] net(2)
  show ?thesis by blast
qed

text \<open>C6: a mined block spreads. Whenever all members of a network have the same chain, and the search of
  one of them finds a block that its chain accepts, the network can go on so that this member handles the
  result and every other one is delivered what it published, and then all have the same chain again, with
  that block: no handler stops, the block is published, and it is accepted everywhere, in whatever order
  it is delivered and also when it is delivered twice, as long as no clock is so far behind that the
  block seems to come from the future.\<close>

theorem mined_block_spreads:
  assumes "wire_laws N" and "sphinx_returns N" and "block_hash (prims N) (genesis (prims N)) \<noteq> ZERO"
    and "\<forall>n \<in> set net0. spawned N n" and "net_run N net0 es net" and "\<forall>e \<in> set es. event_ok N e"
    and "net_weight N es + 3 * length js < 2 ^ 64 - 9" and "\<forall>n \<in> set net. chain (chain_store n) = c"
    and "i < length net" and "map_option ms_generation (active (mining (net ! i))) = Some g" and "db_ok (w 0) 0"
    and "try_apply (prims N) c b (clock (w 0) 0) = (c1, Ok x)" and "x \<noteq> AlreadyKnown" and "block_hash (prims N) b \<noteq> ZERO"
    and "enc_block N b = Some data" and "set js = {..<length net} - {i}"
    and "\<forall>j. timestamp (header b) \<le> u64_add (clock (ws j 0) 0) MAX_FUTURE_DRIFT_SECS"
  shows "\<exists>net'. net_run N net0 (es @ Act i w (MiningResult g b) # map (\<lambda>j. Deliver j (ws j) i blocks_topic data) js) net' \<and>
    (\<forall>n \<in> set net'. chain (chain_store n) = c1) \<and> block_hash (prims N) b \<in> dom (meta c1)"
proof -
  let ?k = "net_weight N es"
  have ok: "\<forall>n \<in> set net. node_ok N ?k n"
    using net_run_ok [OF assms(5) _ assms(6,2)] spawned_node_ok assms(3,4,7) by auto
  then have i: "node_ok N ?k (net ! i)" "chain (chain_store (net ! i)) = c" using assms(8,9) by simp_all
  have small: "?k < 2 ^ 64 - 6" using assms(7) by simp
  from mined_here [where ws = w, OF i(1) small assms(2,14,15) i(2) assms(12,13,10,11)] obtain n' where
    n': "loop_step N w (MiningResult g b) (net ! i) = Ok (n', True)" "node_ok N (?k + 3) n'" "chain (chain_store n') = c1" "data \<in> gossips n'"
    by blast
  let ?net = "net[i := n']"
  have act: "net_run N net0 (es @ [Act i w (MiningResult g b)]) ?net"
    by (rule net_run.then_event [OF assms(5) net_step.act [OF assms(9) n'(1)]])
  have "chain_inv (prims N) c" "heights_ok c" using i node_ok_heights [OF i(1)] small by (auto simp: node_ok_def)
  note known = try_apply_knows [OF this assms(14,12,13)]
  have "\<forall>j < length ?net. node_ok N (?k + 3) (?net ! j) \<and> (j \<noteq> i \<longrightarrow> chain (chain_store (?net ! j)) = c)"
    using ok assms(8,9) n'(2) node_ok_mono [of N ?k _ "?k + 3"] by (auto simp: nth_list_update)
  from block_delivered [OF assms(1,2,14,15,12,13) _ _ _ _ this, of js ws] known n' assms(7,9,16,17) obtain net' where
    net': "net_run N ?net (map (\<lambda>j. Deliver j (ws j) i blocks_topic data) js) net'" "length net' = length net" "net' ! i = n'"
      "\<forall>j < length net. j \<noteq> i \<longrightarrow> chain (chain_store (net' ! j)) = c1"
    by auto
  have "\<forall>n \<in> set net'. chain (chain_store n) = c1"
    using net'(2-4) n'(3) by (metis in_set_conv_nth)
  then show ?thesis using net_run_trans [OF net'(1) act] known by auto
qed

lemma mined_block_spreads_witness:
  "\<exists>net0 net. net_run toy_network net0 sample_events net \<and> (\<forall>n \<in> set net. chain (chain_store n) = sample_tip)"
proof -
  obtain net0 net where net: "\<forall>n \<in> set net0. spawned toy_network n" "net_run toy_network net0 [mining_begins] net" "length net = 2"
    "\<forall>n \<in> set net. chain (chain_store n) = new_chain toy" "map_option ms_generation (active (mining (net ! 0))) = Some 1"
    using sample_members by metis
  have js: "set [1 :: nat] = {..<length net} - {0}" using net(3) by auto
  from mined_block_spreads [where i = 0 and w = sample_now and ws = "\<lambda>j. sample_now" and js = "[1]", OF toy_network_wire toy_network_returns sample_limits(7)
      net(1,2) sample_limits(1,2) net(4) _ net(5) sample_limits(5,3) _ sample_limits(8,6) js] sample_limits(4) net(3)
  show ?thesis by (auto simp: sample_events_def)
qed

end
