(* ===== verification/Request_Accounting.thy ===== *)
theory Request_Accounting
  imports Loop_Invariant
begin

text \<open>
  The requests of \<^verbatim>\<open>packages/p2p-core/src/node.rs\<close> that are under way, the fields \<open>envelope_send\<close> and
  \<open>blob_fetch\<close> of \<open>Pending\<close>: over any run of the event loop, what was asked of the swarm is what was
  reported to the application and what is still open.
\<close>

subsection \<open>Tables of open requests\<close>

definition balanced :: "('o \<Rightarrow> 'r option) \<Rightarrow> ('o \<Rightarrow> 'r option) \<Rightarrow> ('i \<rightharpoonup> 'r) \<Rightarrow> 'o list \<Rightarrow> bool" where
  "balanced asked reported open_requests os \<longleftrightarrow> finite (dom open_requests) \<and>
     (\<forall>r. length (filter (\<lambda>x. asked x = Some r) os) =
        length (filter (\<lambda>x. reported x = Some r) os) + card {i. open_requests i = Some r})"

text \<open>A protocol in which an output either asks for something, or reports on something asked for, or
  does neither.\<close>

locale request_protocol =
  fixes asked :: "'o \<Rightarrow> 'r option" and reported :: "'o \<Rightarrow> 'r option"
  assumes exclusive: "asked x = None \<or> reported x = None"
begin

lemma balanced_empty: "balanced asked reported Map.empty []"
  by (simp add: balanced_def)

lemma balanced_other:
  assumes "asked x = None" and "reported x = None"
  shows "balanced asked reported t (os @ [x]) \<longleftrightarrow> balanced asked reported t os"
  using assms by (simp add: balanced_def)

lemma balanced_filter:
  assumes "\<And>x. asked x \<noteq> None \<or> reported x \<noteq> None \<Longrightarrow> Q x"
  shows "balanced asked reported t (filter Q os) \<longleftrightarrow> balanced asked reported t os"
proof -
  have "filter (\<lambda>x. asked x = Some r) (filter Q os) = filter (\<lambda>x. asked x = Some r) os"
    and "filter (\<lambda>x. reported x = Some r) (filter Q os) = filter (\<lambda>x. reported x = Some r) os" for r
    using assms by (induction os) auto
  then show ?thesis by (simp add: balanced_def)
qed

lemma balanced_ask:
  assumes "balanced asked reported t os" and "t i = None" and "asked x = Some r"
  shows "balanced asked reported (t(i \<mapsto> r)) (os @ [x])"
proof -
  have "{j. (t(i \<mapsto> r)) j = Some r'} = (if r' = r then insert i {j. t j = Some r'} else {j. t j = Some r'})" for r'
    using assms(2) by auto
  moreover have "finite {j. t j = Some r'}" for r'
    using assms(1) by (auto simp: balanced_def intro: finite_subset [of _ "dom t"])
  ultimately show ?thesis
    using assms exclusive [of x] by (auto simp: balanced_def)
qed

lemma balanced_report:
  assumes "balanced asked reported t os" and "t i = Some r" and "reported x = Some r"
  shows "balanced asked reported (t(i := None)) (os @ [x])"
proof -
  have same: "{j. (t(i := None)) j = Some r'} = {j. t j = Some r'} - {i}" for r' by auto
  have fin: "finite {j. t j = Some r'}" for r'
    using assms(1) by (auto simp: balanced_def intro: finite_subset [of _ "dom t"])
  have "card {j. t j = Some r'} = card ({j. t j = Some r'} - {i}) + (if r' = r then 1 else 0)" for r'
  proof (cases "r' = r")
    case True
    then show ?thesis using card_Suc_Diff1 [OF fin [of r'], of i] assms(2) by simp
  next
    case False
    then have "{j. t j = Some r'} - {i} = {j. t j = Some r'}" using assms(2) by auto
    then show ?thesis using False by simp
  qed
  note that = this
  have "length (filter (\<lambda>y. asked y = Some r') (os @ [x])) =
      length (filter (\<lambda>y. reported y = Some r') (os @ [x])) + card ({j. t j = Some r'} - {i})" for r'
  proof -
    have "length (filter (\<lambda>y. asked y = Some r') os) =
        length (filter (\<lambda>y. reported y = Some r') os) + card {j. t j = Some r'}"
      using assms(1) unfolding balanced_def by blast
    moreover have "asked x = None" using assms(3) exclusive [of x] by simp
    moreover have "reported x = Some r' \<longleftrightarrow> r' = r" using assms(3) by auto
    ultimately show ?thesis using that [of r'] by simp
  qed
  moreover have "finite (dom (t(i := None)))" using assms(1) by (simp add: balanced_def)
  ultimately show ?thesis unfolding balanced_def same by blast
qed

end

fun envelope_asked :: "Output \<Rightarrow> PeerId option" where
  "envelope_asked (Call (EnvelopeRequest to bs)) = Some to"
| "envelope_asked _ = None"

fun envelope_reported :: "Output \<Rightarrow> PeerId option" where
  "envelope_reported (Event (EnvelopeDelivered to)) = Some to"
| "envelope_reported (Event (EnvelopeDeliveryFailed to reason)) = Some to"
| "envelope_reported _ = None"

fun blob_asked :: "Output \<Rightarrow> (PeerId \<times> bytes) option" where
  "blob_asked (Call (BlobRequest peer rid)) = Some (peer, rid)"
| "blob_asked _ = None"

fun blob_reported :: "Output \<Rightarrow> (PeerId \<times> bytes) option" where
  "blob_reported (Event (BlobFetched peer rid bs)) = Some (peer, rid)"
| "blob_reported (Event (BlobFetchFailed peer rid reason)) = Some (peer, rid)"
| "blob_reported _ = None"

interpretation envelopes: request_protocol envelope_asked envelope_reported
proof unfold_locales
  fix x :: Output
  show "envelope_asked x = None \<or> envelope_reported x = None" by (cases x rule: envelope_asked.cases) simp_all
qed

interpretation blobs: request_protocol blob_asked blob_reported
proof unfold_locales
  fix x :: Output
  show "blob_asked x = None \<or> blob_reported x = None" by (cases x rule: blob_asked.cases) simp_all
qed

definition accounted :: "Node \<Rightarrow> bool" where
  "accounted n \<longleftrightarrow>
     balanced envelope_asked envelope_reported (envelope_send (pending n)) (outputs n) \<and>
     balanced blob_asked blob_reported (blob_fetch (pending n)) (outputs n) \<and>
     (\<forall>c \<in> set (deferred_commands n). needs_dht_peer c)"

subsection \<open>What leaves the account alone\<close>

definition neutral :: "Output \<Rightarrow> bool" where
  "neutral x \<longleftrightarrow> envelope_asked x = None \<and> envelope_reported x = None \<and> blob_asked x = None \<and> blob_reported x = None"

definition tally :: "Node \<Rightarrow> (RequestId \<rightharpoonup> PeerId) \<times> (RequestId \<rightharpoonup> PeerId \<times> bytes) \<times> Output list \<times> Command list" where
  "tally n = (envelope_send (pending n), blob_fetch (pending n), filter (\<lambda>x. \<not> neutral x) (outputs n), deferred_commands n)"

lemma accounted_tally:
  assumes "tally n = tally n'"
  shows "accounted n \<longleftrightarrow> accounted n'"
proof -
  have e: "balanced envelope_asked envelope_reported t (filter (\<lambda>x. \<not> neutral x) os) = balanced envelope_asked envelope_reported t os"
    for t os by (rule envelopes.balanced_filter) (auto simp: neutral_def)
  have b: "balanced blob_asked blob_reported t (filter (\<lambda>x. \<not> neutral x) os) = balanced blob_asked blob_reported t os"
    for t os by (rule blobs.balanced_filter) (auto simp: neutral_def)
  have "accounted m = (case tally m of (t, t', os, cs) \<Rightarrow>
      balanced envelope_asked envelope_reported t os \<and> balanced blob_asked blob_reported t' os \<and> (\<forall>c \<in> set cs. needs_dht_peer c))" for m
    by (simp add: accounted_def tally_def e b)
  then show ?thesis using assms by simp
qed

lemma neutral_outputs [simp]:
  "neutral (Event e) \<longleftrightarrow> envelope_reported (Event e) = None \<and> blob_reported (Event e) = None"
  "neutral (Call c) \<longleftrightarrow> envelope_asked (Call c) = None \<and> blob_asked (Call c) = None"
  "neutral (Spawn t)"
  by (simp_all add: neutral_def)

lemma tally_output [simp]:
  "neutral (Event e) \<Longrightarrow> tally (emit e n) = tally n" "neutral (Call c) \<Longrightarrow> tally (call c n) = tally n"
  "tally (spawn_task t n) = tally n"
  by (simp_all add: tally_def emit_def call_def spawn_task_def del: neutral_outputs(1,2))

lemma tally_publish [simp]: "tally (publish topic enc n) = tally n"
  by (simp add: publish_def split: option.split)

lemma tally_set_pending [simp]:
  assumes "envelope_send (f (pending n)) = envelope_send (pending n)" and "blob_fetch (f (pending n)) = blob_fetch (pending n)"
  shows "tally (set_pending f n) = tally n"
  unfolding tally_def set_pending_def by (simp add: assms)

lemma tally_fields [simp]:
  "tally (n\<lparr>local_blobs := lb\<rparr>) = tally n" "tally (n\<lparr>mempool := mp\<rparr>) = tally n" "tally (n\<lparr>chain_store := st\<rparr>) = tally n"
  "tally (n\<lparr>mix_dummy_traffic_active := b\<rparr>) = tally n" "tally (n\<lparr>known_mix_routing_keys := ks\<rparr>) = tally n"
  "tally (n\<lparr>mailbox_store := ms\<rparr>) = tally n" "tally (n\<lparr>mining := m\<rparr>) = tally n" "tally (n\<lparr>known_mix_relays := rs\<rparr>) = tally n"
  "tally (n\<lparr>dht_ready := b\<rparr>) = tally n"
  by (simp_all add: tally_def)

lemma neutral_background: "background x \<Longrightarrow> neutral x"
  by (cases x rule: background.cases) (simp_all add: neutral_def)

interpretation tally_view: node_view tally
  by unfold_locales (auto simp: neutral_background tally_def set_pending_def)

lemma tally_restart_mining: "restart_mining N w i n = Ok n' \<Longrightarrow> tally n' = tally n"
  by (auto simp: restart_mining_def bind_res_Ok)

lemmas tally_results = tally_view.mix_handled tally_restart_mining tally_view.tip_emitted

lemma tally_apply_and_broadcast_block: "apply_and_broadcast_block N w b n = Ok (n', outcome) \<Longrightarrow> tally n' = tally n"
  by (auto simp: apply_and_broadcast_block_def Let_def bind_res_Ok split: prod.splits res.splits if_splits dest!: tally_results)

lemma tally_handle_ledger_gossip_event: "handle_ledger_gossip_event N w source topic data n = Ok n' \<Longrightarrow> tally n' = tally n"
  by (auto simp: handle_ledger_gossip_event_def Let_def bind_res_Ok split: if_splits option.splits res.splits prod.splits
      dest!: tally_apply_and_broadcast_block tally_results)

lemma tally_apply_synced: "apply_synced N w i bs n = Ok (n', e) \<Longrightarrow> tally n' = tally n"
proof (induction bs arbitrary: i n)
  case (Cons b bs)
  then show ?case by (auto simp: Let_def split: prod.splits res.splits dest!: Cons.IH)
qed simp

lemma tally_handle_chain_sync_response: "handle_chain_sync_response N w rid response n = Ok n' \<Longrightarrow> tally n' = tally n"
  by (auto simp: handle_chain_sync_response_def Let_def bind_res_Ok split: option.splits ChainSyncResponse.splits if_splits prod.splits
      dest!: tally_results tally_apply_synced)

lemma tally_handle_ledger_sync_event: "handle_ledger_sync_event N w ev n = Ok n' \<Longrightarrow> tally n' = tally n"
  by (auto simp: handle_ledger_sync_event_def bind_res_Ok split: RequestResponseEvent.splits option.splits
      dest!: tally_handle_chain_sync_response)

lemma tally_handle_mining_result:
  assumes "handle_mining_result N w g b n = Ok n'"
  shows "tally n' = tally n"
  using assms
proof (cases rule: handle_mining_result_Ok)
  case (applied n1 outcome)
  then show ?thesis using tally_apply_and_broadcast_block [OF applied(1)] tally_restart_mining by auto
qed simp

subsection \<open>Every input keeps the account\<close>

lemma accounted_same: "accounted n \<Longrightarrow> tally n' = tally n \<Longrightarrow> accounted n'"
  using accounted_tally by blast

lemma envelope_asked_for:
  assumes "accounted n" and "envelope_send (pending n) i = None"
  shows "accounted (set_pending (\<lambda>p. p\<lparr>envelope_send := (envelope_send p)(i \<mapsto> to)\<rparr>) (call (EnvelopeRequest to bs) n))"
  using assms envelopes.balanced_ask [of "envelope_send (pending n)" "outputs n" i "Call (EnvelopeRequest to bs)" to]
    blobs.balanced_other [of "Call (EnvelopeRequest to bs)" "blob_fetch (pending n)" "outputs n"]
  by (simp add: accounted_def set_pending_def call_def)

lemma blob_asked_for:
  assumes "accounted n" and "blob_fetch (pending n) i = None"
  shows "accounted (set_pending (\<lambda>p. p\<lparr>blob_fetch := (blob_fetch p)(i \<mapsto> (peer, rid))\<rparr>) (call (BlobRequest peer rid) n))"
  using assms blobs.balanced_ask [of "blob_fetch (pending n)" "outputs n" i "Call (BlobRequest peer rid)" "(peer, rid)"]
    envelopes.balanced_other [of "Call (BlobRequest peer rid)" "envelope_send (pending n)" "outputs n"]
  by (simp add: accounted_def set_pending_def call_def)

lemma envelope_report:
  assumes "accounted n" and "envelope_send (pending n) i = Some to" and "envelope_reported (Event e) = Some to"
    and "blob_reported (Event e) = None"
  shows "accounted (emit e (set_pending (\<lambda>p. p\<lparr>envelope_send := (envelope_send p)(i := None)\<rparr>) n))"
  using assms envelopes.balanced_report [of "envelope_send (pending n)" "outputs n" i to "Event e"] blobs.balanced_other [of "Event e" "blob_fetch (pending n)" "outputs n"]
  by (simp add: accounted_def set_pending_def emit_def)

lemma blob_report:
  assumes "accounted n" and "blob_fetch (pending n) i = Some r" and "blob_reported (Event e) = Some r"
    and "envelope_reported (Event e) = None"
  shows "accounted (emit e (set_pending (\<lambda>p. p\<lparr>blob_fetch := (blob_fetch p)(i := None)\<rparr>) n))"
  using assms blobs.balanced_report [of "blob_fetch (pending n)" "outputs n" i r "Event e"] envelopes.balanced_other [of "Event e" "envelope_send (pending n)" "outputs n"]
  by (simp add: accounted_def set_pending_def emit_def)

lemma accounted_handle_envelope_event:
  assumes "accounted n"
  shows "accounted (handle_envelope_event ev n)"
  using assms accounted_same [OF assms]
  by (auto simp: handle_envelope_event_def Let_def intro!: envelope_report split: RequestResponseEvent.split option.split)

lemma accounted_handle_blob_event:
  assumes "accounted n"
  shows "accounted (handle_blob_event ev n)"
  using assms accounted_same [OF assms]
  by (auto simp: handle_blob_event_def Let_def intro!: blob_report split: RequestResponseEvent.split option.split BlobResponse.split)

text \<open>Each of the two behaviours numbers its own requests: a new request gets an id that no open request of
  the same behaviour has. The other behaviour may be using the same number.\<close>

fun id_free :: "World \<Rightarrow> LoopInput \<Rightarrow> Node \<Rightarrow> bool" where
  "id_free w (CommandReceived (SendEnvelope to bs)) n = (envelope_send (pending n) (request_id w) = None)"
| "id_free w (CommandReceived (FetchBlob peer rid)) n = (blob_fetch (pending n) (request_id w) = None)"
| "id_free w _ n = True"

lemma accounted_handle_command:
  assumes "accounted n" and "id_free w (CommandReceived command) n" and "handle_command N w command n = Ok n'"
  shows "accounted n'"
proof -
  have tally_ok: "tally n' = tally n" if "\<forall>to bs. command \<noteq> SendEnvelope to bs" "\<forall>peer rid. command \<noteq> FetchBlob peer rid"
  proof (cases command)
    case (DialPeer peer addrs)
    then show ?thesis using assms(3) by (auto simp: DialPeer Let_def split: option.splits)
  next
    case (SubmitMinedBlock b)
    then show ?thesis using assms(3) tally_apply_and_broadcast_block by (fastforce simp: bind_res_Ok)
  next
    case (SubmitUsernameClaim tx)
    then show ?thesis using assms(3) by (auto simp: Let_def split: res.splits)
  next
    case QueryChainTip
    then show ?thesis using assms(3) tally_view.tip_emitted by simp
  qed (use assms(3) that in \<open>auto simp: Let_def bind_res_Ok split: option.splits if_splits dest: tally_view.sends_query\<close>)
  show ?thesis
  proof (cases "(\<exists>to bs. command = SendEnvelope to bs) \<or> (\<exists>peer rid. command = FetchBlob peer rid)")
    case True
    then show ?thesis using assms envelope_asked_for blob_asked_for by auto
  qed (use tally_ok accounted_same [OF assms(1)] in blast)
qed

lemma accounted_handle_swarm_event:
  assumes "accounted n" and "handle_swarm_event N w event n = Ok n'"
  shows "accounted n'"
proof (cases event)
  case (IdentifyReceived peer addrs)
  then show ?thesis using assms accounted_same [OF assms(1)] by (auto simp: IdentifyReceived)
next
  case (EnvelopeEvent ev)
  then show ?thesis using assms accounted_handle_envelope_event by auto
next
  case (BlobEvent ev)
  then show ?thesis using assms accounted_handle_blob_event by auto
qed (use assms accounted_same [OF assms(1)] in \<open>auto dest: tally_view.mix_handled tally_handle_ledger_gossip_event
    tally_handle_ledger_sync_event\<close>)

lemma accounted_release_deferred:
  assumes "accounted n" and "release_deferred N ws event n = Ok n'"
  shows "accounted n'"
proof (cases "\<not> dht_ready n \<and> is_connection event")
  case True
  let ?n = "n\<lparr>dht_ready := True, deferred_commands := []\<rparr>"
  have "tally n' = tally ?n"
    using assms True tally_view.replayed [of "deferred_commands n" N ws 1 ?n n'] by (simp add: release_deferred_def accounted_def)
  moreover have "accounted ?n" using assms(1) by (simp add: accounted_def)
  ultimately show ?thesis using accounted_tally by blast
qed (use assms in \<open>auto simp: release_deferred_def\<close>)

lemma accounted_loop_step:
  assumes "accounted n" and "id_free (ws 0) input n" and "loop_step N ws input n = Ok (n', continue)"
  shows "accounted n'"
proof (cases input)
  case (CommandReceived command)
  show ?thesis
  proof (cases "\<not> dht_ready n \<and> needs_dht_peer command \<or> command = Shutdown")
    case True
    then show ?thesis using assms by (auto simp: CommandReceived accounted_def split: if_splits)
  next
    case False
    then have "handle_command N (ws 0) command n = Ok n'" using assms(3) by (auto simp: CommandReceived bind_res_Ok)
    then show ?thesis by (rule accounted_handle_command [OF assms(1) assms(2) [unfolded CommandReceived]])
  qed
next
  case (SwarmInput event)
  then obtain m where "release_deferred N ws event n = Ok m" "handle_swarm_event N (ws 0) event m = Ok n'"
    using assms(3) by (auto simp: bind_res_Ok)
  then show ?thesis using accounted_release_deferred [OF assms(1)] accounted_handle_swarm_event by blast
next
  case (MiningResult generation block)
  then show ?thesis using assms(3) accounted_same [OF assms(1)] tally_handle_mining_result by (fastforce simp: bind_res_Ok)
qed (use assms(3) accounted_same [OF assms(1)] in \<open>auto simp: bind_res_Ok split: if_splits
    dest: tally_view.sends_deposit tally_view.sends_dummy\<close>)

text \<open>Over a run, every request for an envelope or a blob gets such an id.\<close>

fun ids_fresh :: "Network \<Rightarrow> (LoopInput \<times> (nat \<Rightarrow> World)) list \<Rightarrow> Node \<Rightarrow> bool" where
  "ids_fresh N [] n = True"
| "ids_fresh N ((input, ws) # inputs) n =
     (id_free (ws 0) input n \<and>
      (case loop_step N ws input n of Ok (n', continue) \<Rightarrow> continue \<longrightarrow> ids_fresh N inputs n' | _ \<Rightarrow> True))"

lemma accounted_run:
  "accounted n \<Longrightarrow> ids_fresh N inputs n \<Longrightarrow> run_event_loop N inputs n = Ok (n', continue) \<Longrightarrow> accounted n'"
proof (induction inputs arbitrary: n)
  case (Cons x inputs)
  obtain input ws where x: "x = (input, ws)" by (cases x)
  obtain m go where m: "loop_step N ws input n = Ok (m, go)" "if go then run_event_loop N inputs m = Ok (n', continue) else n' = m"
    using Cons.prems(3) by (auto simp: x bind_res_Ok simp del: loop_step.simps split: if_splits)
  have "accounted m" using accounted_loop_step [OF Cons.prems(1) _ m(1)] Cons.prems(2) by (simp add: x)
  then show ?case using Cons.IH [of m] Cons.prems(2) m by (auto simp: x simp del: loop_step.simps split: if_splits)
qed simp

lemma accounted_spawned:
  assumes "spawn_with_bootstrap N w seed addresses = Ok n"
  shows "accounted n"
proof -
  obtain peer secret public store mailbox where n: "n = join_dht addresses (initial_node peer secret public store mailbox)"
    using spawned_initial [OF assms] by metis
  then have "tally n = tally (initial_node peer secret public store mailbox)" by simp
  moreover have "accounted (initial_node peer secret public store mailbox)"
    by (simp add: accounted_def initial_node_def balanced_def no_pending_def)
  ultimately show ?thesis using accounted_tally by blast
qed

text \<open>C13: no request is lost and none is invented. In every run of the event loop, for every peer, the
  envelopes the node sent out are those whose delivery or failure it reported plus those still under
  way, and likewise for every blob it asked a peer for; so each request is answered to the application
  at most once, and nothing is reported that was not asked for. The two behaviours number their requests
  apart, so that a send and a fetch may be open under the same number.\<close>

theorem requests_accounted:
  assumes "spawn_with_bootstrap N w seed addresses = Ok n" and "run_event_loop N inputs n = Ok (n', continue)"
    and "ids_fresh N inputs n"
  shows "length (filter (\<lambda>x. envelope_asked x = Some to) (outputs n')) =
      length (filter (\<lambda>x. envelope_reported x = Some to) (outputs n')) + card {i. envelope_send (pending n') i = Some to} \<and>
    length (filter (\<lambda>x. blob_asked x = Some (peer, rid)) (outputs n')) =
      length (filter (\<lambda>x. blob_reported x = Some (peer, rid)) (outputs n')) + card {i. blob_fetch (pending n') i = Some (peer, rid)}"
  using accounted_run [OF accounted_spawned [OF assms(1)] assms(3,2)] by (simp add: accounted_def balanced_def)

text \<open>A send and a fetch are open under the same number; once the send is answered, another uses the number
  again.\<close>

definition sample_requests :: "(LoopInput \<times> (nat \<Rightarrow> World)) list" where
  "sample_requests =
     [(CommandReceived (SendEnvelope [2] [5]), \<lambda>i. toy_world),
      (CommandReceived (FetchBlob [2] [7]), \<lambda>i. toy_world),
      (SwarmInput (EnvelopeEvent (Response [2] (request_id toy_world) [])), \<lambda>i. toy_world),
      (CommandReceived (SendEnvelope [2] [6]), \<lambda>i. toy_world)]"

lemma requests_accounted_witness:
  "\<exists>n n' go. spawn_with_bootstrap toy_network sample_setup (replicate 32 1) [] = Ok n \<and>
    run_event_loop toy_network sample_requests n = Ok (n', go) \<and>
    length (filter (\<lambda>x. blob_asked x = Some ([2], [7])) (outputs n')) =
      length (filter (\<lambda>x. blob_reported x = Some ([2], [7])) (outputs n')) + card {i. blob_fetch (pending n') i = Some ([2], [7])}"
proof -
  obtain n where n: "spawn_with_bootstrap toy_network sample_setup (replicate 32 1) [] = Ok n" using sample_spawn by blast
  obtain peer secret public store mailbox where "n = join_dht [] (initial_node peer secret public store mailbox)"
    using spawned_initial [OF n] by metis
  then have start: "pending n = no_pending" by (simp add: join_dht_def initial_node_def)
  have "\<exists>n' go. run_event_loop toy_network sample_requests n = Ok (n', go) \<and> ids_fresh toy_network sample_requests n"
    by (simp add: sample_requests_def start no_pending_def set_pending_def call_def emit_def
        handle_envelope_event_def release_deferred_def) (rule exI, rule TrueI)
  then obtain n' go where r: "run_event_loop toy_network sample_requests n = Ok (n', go)" "ids_fresh toy_network sample_requests n"
    by blast
  from requests_accounted [OF n r, of "[2]" "[2]" "[7]"] n r(1) show ?thesis by blast
qed

end
