(* ===== verification/Spec2Isabelle.thy ===== *)
theory Spec2Isabelle
  imports Conversation Name_Claim Mail_Retrieval Chain_Sync Gossip_Network Request_Accounting
begin

text \<open>
  A verification library for the Rust packages of gamee, a serverless messenger: a replicated ledger of
  user names, an end-to-end encryption core, and a peer-to-peer node that carries messages, keeps them
  for people who are away and runs the ledger. It covers every function of
  \<^verbatim>\<open>packages/ledger-core\<close>, \<^verbatim>\<open>packages/crypto-core\<close>, \<^verbatim>\<open>packages/p2p-core\<close> and
  \<^verbatim>\<open>packages/crypto-core-ffi\<close> that carries logic of the program's own; paths below are relative to
  \<^verbatim>\<open>src/packages\<close>. This theory imports the others and has no content of its own.

  \<^bold>\<open>How the program is put together.\<close> An application (Swift or Kotlin) holds objects of
  \<^verbatim>\<open>crypto-core-ffi\<close>. Those for identities, prekeys, contact cards, handshakes and ratchets wrap
  \<^verbatim>\<open>crypto-core\<close>, which is pure code over bytes. The node object sends commands over a channel to a task,
  the event loop of \<^verbatim>\<open>p2p-core/src/node.rs\<close>, and reads events from a second channel. The loop owns the
  chain store of \<^verbatim>\<open>ledger-core\<close>, the mailbox, the mempool, the miner and the tables of requests under
  way, and drives \<^verbatim>\<open>libp2p\<close>.

  \<^bold>\<open>Conventions.\<close> A Rust function is a definition of the same name, with the suffix or prefix of its
  component where two share a name; a struct is a record, an enum a datatype. A result that can fail or
  panic is of type \<open>('e, 'a) res\<close> with the constructors \<open>Ok\<close>, \<open>Err\<close>, \<open>Panic\<close> and \<open>Diverge\<close> (a loop
  without end). A method on \<^verbatim>\<open>&mut self\<close> returns the state as it leaves it, also when it fails.
  Integers are natural numbers with the wrap-around of a release build written out (\<open>u64_add\<close>,
  \<open>u64_sub\<close>, \<open>mod 2 ^ 32\<close>), bytes are 8-bit words, \<^verbatim>\<open>f64\<close> has the rounding of IEEE 754. Random bytes,
  the clock and the answers of other systems are arguments.

  \<^bold>\<open>Parameters.\<close> Code outside the repository is a record of functions: \<open>Primitives\<close> (hashing,
  signatures, key agreement, ciphers, BIP39, base64, Unicode tables), \<open>Network\<close> (peer ids and addresses,
  the Sphinx packet format, \<^verbatim>\<open>bincode\<close>), \<open>World\<close> and \<open>Setup_World\<close> (what one event, or the start, reads
  from outside) and \<open>Boundary\<close> (texts at the language boundary). What the program relies on is stated as
  predicates on these records (\<open>ed25519_laws\<close>, \<open>x25519_laws\<close>, \<open>kdf_laws\<close>, \<open>aead_laws\<close>, \<open>seals\<close>,
  \<open>bincode_laws\<close>, \<open>bip39_laws\<close>, \<open>sphinx_laws\<close>, \<open>sphinx_returns\<close>, \<open>wire_laws\<close>, \<open>key_laws\<close>,
  \<open>rand_laws\<close>), each within what the library documents: a key derivation gives up to 255 blocks of 32 bytes,
  a path in a Sphinx packet has as many delays as hops. A parameter that panics makes the handler that calls it
  panic; \<open>sphinx_returns\<close> says that building and opening packets does not, for the arguments the node passes. Each
  is satisfied by the concrete records \<open>toy\<close> and \<open>toy_network\<close>, on which the witnesses are evaluated.

  \<^bold>\<open>Theories.\<close>
  \<^item> \<open>Prelude\<close>: results, machine integers, little and big endian bytes, list and map lemmas.
    \<open>Tables\<close>: sorted tables. \<open>F64\<close>: doubles. \<open>Primitives\<close>, \<open>Network\<close>: the parameters;
    \<open>Network\<close> also has \<^verbatim>\<open>p2p-core/src/{identity,username,rendezvous,error}.rs\<close>.
  \<^item> \<open>Hash\<close>, \<open>Difficulty\<close>, \<open>Transaction\<close>, \<open>Block\<close>, \<open>Chain_State\<close>, \<open>Validation\<close>, \<open>Chain_Apply\<close>,
    \<open>Store\<close>: the files of \<^verbatim>\<open>ledger-core/src\<close>. \<open>Chain_State\<close> reads the chain, \<open>Chain_Apply\<close>
    changes it, \<open>Chain_Run\<close> has what follows for whole histories.
  \<^item> \<open>Identity\<close>, \<open>Recovery\<close>, \<open>Codec\<close>, \<open>Message_Keys\<close>, \<open>Ratchet\<close>, \<open>Prekeys\<close>, \<open>Handshake\<close>: the files of
    \<^verbatim>\<open>crypto-core/src\<close>; \<open>Session\<close> relates the states of two ratchets.
  \<^item> \<open>Mailbox\<close>, \<open>Mix\<close>, \<open>Mining\<close>, \<open>Node\<close>, \<open>Swarm_Assembly\<close>, \<open>Event_Loop\<close>:
    \<^verbatim>\<open>p2p-core/src/{mailbox,mix,node,behaviour}.rs\<close> with the commands, events and ledger messages. The locals of \<^verbatim>\<open>run_event_loop\<close> are the record \<open>Node\<close>, each
    handler is a definition, and what a handler sends to the application, the swarm or a background
    task is appended to \<open>outputs\<close>. \<open>loop_step\<close> is one turn of the \<^verbatim>\<open>select!\<close>, whose branch is its input.
    What the node asks of \<^verbatim>\<open>libp2p\<close> at the start is the record \<open>Behaviour\<close>. \<open>Node_View\<close> has what the
    background handlers leave alone, \<open>Command_Order\<close> what a command makes the loop send or change, and when.
  \<^item> \<open>Crypto_Bindings\<close>, \<open>Node_Bindings\<close>: \<^verbatim>\<open>crypto-core-ffi/src\<close>, with locks that can be poisoned and the
    two channels of the node object.
  \<^item> Compositions: \<open>Loop_Invariant\<close> (any run of the loop), \<open>Chain_Sync\<close> (two nodes), \<open>Mail_Delivery\<close> and
    \<open>Mail_Retrieval\<close> (senders, relays and recipients over the mix), \<open>Conversation\<close> (two people over the
    bindings), \<open>Node_Task\<close> (the node object and its task in any interleaving), \<open>Name_Claim\<close> (a name from
    the claim to the answer), \<open>Convergence\<close> (chains that know the same blocks), \<open>Gossip_Network\<close> (any number of nodes, as a
    step relation on a list of their states), \<open>Request_Accounting\<close> (what the
    loop asked for and what it reported).

  \<^bold>\<open>Interfaces.\<close> The locale \<open>codec\<close> states the law of a self-delimiting format (a value followed by
  anything is read back) and is interpreted on varints, message headers and lists of secrets; \<open>reader\<close>
  does so for reading at an offset and is interpreted on the fields of a saved ratchet; \<open>key_store\<close> is a
  store from which a key can be taken once, interpreted on the skipped message keys and on the pools of
  one-time prekeys; \<open>request_protocol\<close> is a protocol of requests and reports, interpreted on envelopes and
  on blobs; \<open>handler_view\<close> is a function of the node's state that mix traffic, local discovery and answers of
  the hash table do not change, interpreted on what commands asked for, and \<open>node_view\<close>, which extends it, one that
  background commands do not change either, interpreted on what the loop invariant, the request accounting
  and the network look at; \<open>table\<close> is a map that iterates in key order, interpreted on sorted lists. Their
  lemmas carry the round trips, the use-once theorems, the mailbox and the passes over all handlers.

  \<^bold>\<open>What is shown.\<close>
  \<^item> Ledger: every history keeps the chain invariant and neither panics nor loops; names are owned by
    exactly one signed claim on the tip's branch and the first claim wins; the tip has the most work;
    pruning and rejected blocks change nothing that matters; reopening the store restores tip, owners and
    index; a block is valid exactly when it satisfies every rule; retargets stay within a factor of four.
  \<^item> Network of nodes: members that hold the same blocks agree on tip, owners and index, a mined block
    spreads to all, and names reach a node only through claims that their owners signed.
  \<^item> Encryption core: both sides of a handshake agree, messages of a turn are read in any order and with
    losses, failures change nothing, keys are used once, a replayed handshake is refused if it used a one-time prekey and
    answered again if not, saved states are restored, and through the
    bindings a conversation goes on for ever with restarts in between.
  \<^item> Node: no run of the event loop panics; requests sent are those reported or open; at most one nonce search is wanted and a mined block is valid;
    a sync reaches the peer's tip; a deposit reaches the relay nearest to its tag and comes back through a
    reply block; what the accepted commands ask of the swarm and of the node's settings is done once and in their
    order, requests for the hash table after the wait for the first connection; a claimed and mined name is owned.
  \<^item> Limits of the code, proved as such: the retarget ceiling, the retarget boundary above a checkpoint, a
    heavier fork that a sync cannot bring, an invalid claim that shadows a valid one, the oldest deposit that
    hides later ones, the cache budget that leaks, and the prekey count that makes loading panic.

  \<^bold>\<open>Loops and bounds.\<close> Loops over data are structural or have a measure. Four loops have no bound in the
  code and are partial functions whose \<open>None\<close> is divergence: the ancestor walk (it ends on every linked
  chain), the replay of a store (it ends on every store the code wrote), the nonce search of the miner and
  the stamp search of the mailbox (they end when some nonce meets the target). \<open>carry\<close>, which takes one
  packet through the network, has fuel: 3 nodes are enough for a deposit and 6 for a query with its
  answer, because a path has at most \<open>MIX_PATH_HOPS\<close> = 3 hops. Theorems about heights assume that they
  stay below \<open>2 ^ 64\<close>, and about the loop that fewer than \<open>2 ^ 64\<close> searches were started.

  \<^bold>\<open>Not modelled.\<close> The cryptographic crates, \<^verbatim>\<open>libp2p\<close>, \<^verbatim>\<open>sphinx-packet\<close>, \<^verbatim>\<open>bincode\<close> and \<^verbatim>\<open>redb\<close> are
  parameters; a \<^verbatim>\<open>redb\<close> transaction commits or changes nothing, and the mailbox is modelled without
  database errors. What \<^verbatim>\<open>libp2p\<close> does with the configuration it is given is not modelled. The \<^verbatim>\<open>tokio\<close> runtime is the freedom in the order of inputs; a send on a channel whose
  receiver is gone is not told apart from one that is read. Running out
  of memory is not modelled either: a saved ratchet may name up to \<open>2 ^ 32\<close> skipped keys, for which
  \<^verbatim>\<open>crypto-core/src/ratchet/state.rs\<close> reserves space before it reads them. Zeroizing, formatting for display, file paths,
  generated scaffolding, tests and the applications are left out.

  \<^bold>\<open>What could follow.\<close> The tables of queries to the distributed hash table and of sync requests in the
  accounting, and eviction by age once the code calls it.
\<close>

end
